(* ===== verification/Prelude.thy ===== *)
theory Prelude
  imports Main "HOL-Library.Word"
begin

text \<open>
  Shared vocabulary of the development: the machine integers of the C++ sources as words, the
  exceptions the sources throw as values, and the generic lemmas on words that several
  components use.  Signed C++ integers (\<open>int32_t\<close>, \<open>int64_t\<close>) are words as well and are read
  with \<open>sint\<close>; \<open>size_t\<close> is a 64-bit word, since the program is built for x64.
\<close>

unbundle bit_operations_syntax

type_synonym u8 = "8 word"
type_synonym u16 = "16 word"
type_synonym u32 = "32 word"
type_synonym u64 = "64 word"
type_synonym byte_array = "u8 list"

text \<open>The characters of a \<open>std::string\<close> and the bytes they are stored as.\<close>

definition char_byte :: "char \<Rightarrow> u8" where
  "char_byte c = of_char c"

definition byte_char :: "u8 \<Rightarrow> char" where
  "byte_char b = char_of (unat b)"

text \<open>The exceptions thrown by the sources, with the message of the \<open>throw\<close>.\<close>

datatype cs_error = Overflow_error string | Invalid_argument string

named_theorems word_nat_simps \<open>word operations read as natural numbers\<close>

lemma unat_lt_64: "unat (x::u64) < 18446744073709551616"
  using unsigned_less [where 'b = 64 and 'a = nat, of x] by simp

lemma unat_lt_32: "unat (x::u32) < 4294967296"
  using unsigned_less [where 'b = 32 and 'a = nat, of x] by simp

lemma unat_lt_8: "unat (x::u8) < 256"
  using unsigned_less [where 'b = 8 and 'a = nat, of x] by simp

lemma char_byte_nat: "char_byte c = of_nat (of_char c)"
  by (simp add: char_byte_def of_nat_of_char)

lemma byte_char_byte [simp]: "byte_char (char_byte c) = c"
  by (simp add: byte_char_def char_byte_nat unat_of_nat)

lemma char_byte_char [simp]: "char_byte (byte_char b) = b"
  using unat_lt_8 [of b] by (simp add: byte_char_def char_byte_nat)

lemma unat_add_64 [word_nat_simps]:
  "unat (x + y :: u64) = (unat x + unat y) mod 18446744073709551616"
  by (simp add: unat_word_ariths)

lemma unat_mult_64 [word_nat_simps]:
  "unat (x * y :: u64) = (unat x * unat y) mod 18446744073709551616"
  by (simp add: unat_word_ariths)

lemma unat_drop_bit [word_nat_simps]: "unat (drop_bit n (x :: 'a::len word)) = unat x div 2 ^ n"
  by (simp add: unat_drop_bit_eq flip: drop_bit_eq_div)

lemma unat_push_bit_64 [word_nat_simps]:
  "unat (push_bit n (x :: u64)) = (unat x * 2 ^ n) mod 18446744073709551616"
  by (simp only: unsigned_push_bit_eq) (simp add: take_bit_eq_mod push_bit_eq_mult)

lemma unat_and_1 [word_nat_simps]: "unat ((x :: 'a::len word) AND 1) = unat x mod 2"
  by (subst unsigned_and_eq) (simp add: and_one_eq)

lemma sign_bit_64: "(x :: u64) AND 0x8000000000000000 = 0 \<longleftrightarrow> \<not> bit x 63"
proof -
  have eq: "(0x8000000000000000 :: u64) = push_bit 63 1"
    by simp
  have "bit (x AND 0x8000000000000000) n \<longleftrightarrow> n = 63 \<and> bit x 63" for n
    unfolding eq by (simp only: bit_and_iff bit_push_bit_iff bit_1_iff possible_bit_word) auto
  then show ?thesis
    by (metis bit_0_eq bot_apply bot_bool_def bit_eqI)
qed

lemma top_bit_64: "((0x8000000000000000 :: u64) AND x = 0) \<longleftrightarrow> unat x < 9223372036854775808"
proof -
  have "((0x8000000000000000 :: u64) AND x = 0) \<longleftrightarrow> \<not> bit x 63"
    by (subst and.commute) (rule sign_bit_64)
  also have "\<dots> \<longleftrightarrow> even (unat x div 2 ^ 63)"
  proof -
    have "bit x 63 \<longleftrightarrow> bit (unat x) 63"
      by (simp add: bit_unsigned_iff)
    then show ?thesis
      by (simp only: bit_iff_odd [of "unat x"]) simp
  qed
  also have "\<dots> \<longleftrightarrow> unat x < 9223372036854775808"
  proof (cases "unat x < 9223372036854775808")
    case False
    then have "unat x div 2 ^ 63 = 1"
      using unat_lt_64 [of x] by (intro div_nat_eqI) simp_all
    with False show ?thesis by (simp only:) simp
  qed simp
  finally show ?thesis .
qed

lemma ucast_of_nat_64_32: "ucast (of_nat n :: u64) = (of_nat n :: u32)"
  by (rule bit_word_eqI) (simp add: bit_ucast_iff bit_of_nat_iff)

end
