(* ===== verification/Math128.thy ===== *)
theory Math128
  imports Prelude
begin

text \<open>
  The 128-bit unsigned integer of \<open>csdb/include/csdb/internal/math128ce.h\<close>
  (\<open>csdb::internal::uint128_t\<close>): addition with carry, the 64 x 64 to 128 bit product by
  32-bit halves, and the bit-serial division by a 64-bit divisor.  \<open>u128_val\<close> is the number a
  pair of halves stands for; the lemmas show that the product and the division are exact.
\<close>

record uint128_t =
  lo :: u64
  hi :: u64

record division64_result =
  quotient :: uint128_t
  remainder :: u64

definition u128_add64 :: "uint128_t \<Rightarrow> u64 \<Rightarrow> uint128_t" where
  "u128_add64 x summand =
     (if 0xFFFFFFFFFFFFFFFF - lo x < summand
      then \<lparr>lo = lo x - (0xFFFFFFFFFFFFFFFF - summand + 1), hi = hi x + 1\<rparr>
      else \<lparr>lo = lo x + summand, hi = hi x\<rparr>)"

definition u128_add :: "uint128_t \<Rightarrow> uint128_t \<Rightarrow> uint128_t" where
  "u128_add x summand =
     (if 0xFFFFFFFFFFFFFFFF - lo x < lo summand
      then \<lparr>lo = lo x - (0xFFFFFFFFFFFFFFFF - lo summand + 1), hi = hi x + hi summand + 1\<rparr>
      else \<lparr>lo = lo x + lo summand, hi = hi x + hi summand\<rparr>)"

definition u128_mul2 :: "u64 \<Rightarrow> u64 \<Rightarrow> u64 \<Rightarrow> u64 \<Rightarrow> uint128_t" where
  "u128_mul2 ac ad bc bd =
     u128_add64
       (u128_add64 \<lparr>lo = bd, hi = ac + drop_bit 32 ad + drop_bit 32 bc\<rparr> (push_bit 32 ad))
       (push_bit 32 bc)"

definition u128_mul1 :: "u64 \<Rightarrow> u64 \<Rightarrow> u64 \<Rightarrow> u64 \<Rightarrow> uint128_t" where
  "u128_mul1 a b c d = u128_mul2 (a * c) (a * d) (b * c) (b * d)"

definition u128_mul :: "u64 \<Rightarrow> u64 \<Rightarrow> uint128_t" where
  "u128_mul a b =
     u128_mul1 (drop_bit 32 a) (a AND 0xFFFFFFFF) (drop_bit 32 b) (b AND 0xFFFFFFFF)"

definition u128_div3 ::
  "division64_result \<Rightarrow> u64 \<Rightarrow> u64 \<Rightarrow> u64 \<Rightarrow> division64_result" where
  "u128_div3 previous divisor b dividend =
     (if 0x8000000000000000 AND remainder previous = 0
      then \<lparr>quotient = \<lparr>lo = lo (quotient previous) + (if dividend < divisor then 0 else b),
                       hi = hi (quotient previous)\<rparr>,
            remainder = dividend mod divisor\<rparr>
      else \<lparr>quotient = \<lparr>lo = lo (quotient previous) + b, hi = hi (quotient previous)\<rparr>,
            remainder = 0xFFFFFFFFFFFFFFFF - divisor + dividend + 1\<rparr>)"

definition u128_div2 ::
  "uint128_t \<Rightarrow> division64_result \<Rightarrow> u64 \<Rightarrow> nat \<Rightarrow> division64_result" where
  "u128_div2 x previous divisor shift =
     u128_div3 previous divisor (push_bit shift 1)
       (push_bit 1 (remainder previous) + (drop_bit shift (lo x) AND 1))"

fun u128_div1 ::
  "uint128_t \<Rightarrow> division64_result \<Rightarrow> u64 \<Rightarrow> nat \<Rightarrow> division64_result" where
  "u128_div1 x previous divisor 0 = u128_div2 x previous divisor 0"
| "u128_div1 x previous divisor (Suc shift) =
     u128_div1 x (u128_div2 x previous divisor (Suc shift)) divisor shift"

definition u128_div :: "uint128_t \<Rightarrow> u64 \<Rightarrow> cs_error + division64_result" where
  "u128_div x divisor =
     (if divisor = 0 then Inl (Overflow_error ''Division by zero'')
      else if divisor = 1 then Inr \<lparr>quotient = x, remainder = 0\<rparr>
      else Inr (u128_div1 x
                  \<lparr>quotient = \<lparr>lo = 0, hi = hi x div divisor\<rparr>, remainder = hi x mod divisor\<rparr>
                  divisor 63))"

text \<open>The number a value of \<open>uint128_t\<close> stands for.\<close>

definition u128_val :: "uint128_t \<Rightarrow> nat" where
  "u128_val x = unat (hi x) * 2 ^ 64 + unat (lo x)"

subsection \<open>Addition and multiplication\<close>

lemma not_lt_carry_64:
  "0xFFFFFFFFFFFFFFFF - (l::u64) < s \<longleftrightarrow> 18446744073709551616 \<le> unat l + unat s"
proof -
  have "unat (0xFFFFFFFFFFFFFFFF - l) = 18446744073709551615 - unat l"
    by (subst unat_sub) (simp_all add: word_le_nat_alt unat_lt_64 less_Suc_eq_le [symmetric])
  then show ?thesis
    using unat_lt_64 [of l] by (simp add: word_less_nat_alt) linarith
qed

lemma u128_add64_carry:
  "u128_add64 x s =
     \<lparr>lo = lo x + s,
      hi = hi x + (if 18446744073709551616 \<le> unat (lo x) + unat s then 1 else 0)\<rparr>"
proof -
  have "(0xFFFFFFFFFFFFFFFF :: u64) = - 1"
    by simp
  then show ?thesis
    unfolding u128_add64_def not_lt_carry_64 by simp
qed

lemma two_word_mod:
  fixes h W r :: nat
  assumes "r < W"
  shows "(h mod W) * W + r = (h * W + r) mod (W * W)"
  using assms by (simp add: mod_mult2_eq add.commute mult.commute)

lemma carry_split:
  fixes l s W :: nat
  assumes "l < W" "s < W"
  shows "l + s = (if W \<le> l + s then 1 else 0) * W + (l + s) mod W"
proof (cases "W \<le> l + s")
  case True
  then have "(l + s) mod W = l + s - W"
    using assms by (subst le_mod_geq) simp_all
  with True show ?thesis by simp
next
  case False
  then show ?thesis by simp
qed

lemma u128_add64_val:
  "u128_val (u128_add64 x s) = (u128_val x + unat s) mod 2 ^ 128"
proof -
  let ?W = "18446744073709551616 :: nat"
  let ?c = "if ?W \<le> unat (lo x) + unat s then 1 else 0 :: nat"
  have "u128_val (u128_add64 x s) =
      ((unat (hi x) + ?c) mod ?W) * ?W + (unat (lo x) + unat s) mod ?W"
    by (simp add: u128_val_def u128_add64_carry word_nat_simps)
  also have "\<dots> = ((unat (hi x) + ?c) * ?W + (unat (lo x) + unat s) mod ?W) mod (?W * ?W)"
    by (rule two_word_mod) simp
  also have "(unat (hi x) + ?c) * ?W + (unat (lo x) + unat s) mod ?W =
      unat (hi x) * ?W + (unat (lo x) + unat s)"
    using carry_split [OF unat_lt_64 unat_lt_64, of "lo x" s] by (simp add: add_mult_distrib)
  finally show ?thesis
    by (simp add: u128_val_def add.assoc)
qed

lemma half_shift:
  fixes ad :: nat
  shows "ad div 4294967296 * 18446744073709551616 + ad * 4294967296 mod 18446744073709551616
    = ad * 4294967296"
proof -
  have "ad * 4294967296 mod (4294967296 * 4294967296) = (ad mod 4294967296) * 4294967296"
    by (rule mult_mod_left [symmetric])
  then have "ad * 4294967296 mod 18446744073709551616 = (ad mod 4294967296) * 4294967296"
    by simp
  moreover have "ad div 4294967296 * 18446744073709551616 = (ad div 4294967296 * 4294967296) * 4294967296"
    by simp
  ultimately show ?thesis
    by (metis add_mult_distrib div_mult_mod_eq)
qed

lemma u128_add_carry:
  "u128_add x y =
     \<lparr>lo = lo x + lo y,
      hi = hi x + hi y + (if 18446744073709551616 \<le> unat (lo x) + unat (lo y) then 1 else 0)\<rparr>"
proof -
  have "(0xFFFFFFFFFFFFFFFF :: u64) = - 1"
    by simp
  then show ?thesis
    unfolding u128_add_def not_lt_carry_64 by simp
qed

lemma u128_add_val: "u128_val (u128_add x y) = (u128_val x + u128_val y) mod 2 ^ 128"
proof -
  let ?W = "18446744073709551616 :: nat"
  let ?c = "if ?W \<le> unat (lo x) + unat (lo y) then 1 else 0 :: nat"
  have "u128_val (u128_add x y) =
      ((unat (hi x) + unat (hi y) + ?c) mod ?W) * ?W + (unat (lo x) + unat (lo y)) mod ?W"
    by (simp add: u128_val_def u128_add_carry word_nat_simps mod_simps)
  also have "\<dots> = ((unat (hi x) + unat (hi y) + ?c) * ?W + (unat (lo x) + unat (lo y)) mod ?W) mod (?W * ?W)"
    by (rule two_word_mod) simp
  also have "(unat (hi x) + unat (hi y) + ?c) * ?W + (unat (lo x) + unat (lo y)) mod ?W =
      unat (hi x) * ?W + unat (lo x) + (unat (hi y) * ?W + unat (lo y))"
    using carry_split [OF unat_lt_64 unat_lt_64, of "lo x" "lo y"] by (simp add: add_mult_distrib)
  finally show ?thesis
    by (simp add: u128_val_def)
qed

lemma unat_low_half: "unat (a AND 0xFFFFFFFF :: u64) = unat a mod 4294967296"
proof -
  have "a AND 0xFFFFFFFF = take_bit 32 a"
    by (simp add: take_bit_eq_mask mask_eq_exp_minus_1)
  then show ?thesis
    by (simp only: unsigned_take_bit_eq) (simp add: take_bit_eq_mod)
qed

lemma half_lt: "unat (a::u64) div 4294967296 < 4294967296"
  using unat_lt_64 [of a] by (simp add: div_less_iff_less_mult)

lemma half_product:
  assumes "x < 4294967296" "y < (4294967296 :: nat)"
  shows "x * y < 18446744073709551616"
  using mult_strict_mono' [OF assms] by simp

lemma u128_mul2_val:
  "u128_val (u128_mul2 ac ad bc bd) =
     (unat ac * 2 ^ 64 + unat ad * 2 ^ 32 + unat bc * 2 ^ 32 + unat bd) mod 2 ^ 128"
proof -
  let ?W = "18446744073709551616 :: nat" and ?H = "4294967296 :: nat"
  let ?h = "unat ac + unat ad div ?H + unat bc div ?H"
  have hd: "u128_val \<lparr>lo = bd, hi = ac + drop_bit 32 ad + drop_bit 32 bc\<rparr> =
      (?h * ?W + unat bd) mod (?W * ?W)"
    using two_word_mod [OF unat_lt_64, of ?h bd]
    by (simp add: u128_val_def word_nat_simps mod_simps)
  have "u128_val (u128_mul2 ac ad bc bd) =
      (?h * ?W + unat bd + unat ad * ?H mod ?W + unat bc * ?H mod ?W) mod 2 ^ 128"
    by (simp add: u128_mul2_def u128_add64_val hd word_nat_simps mod_simps)
  also have "?h * ?W + unat bd + unat ad * ?H mod ?W + unat bc * ?H mod ?W =
      unat ac * ?W + unat ad * ?H + unat bc * ?H + unat bd"
    using half_shift [of "unat ad"] half_shift [of "unat bc"] by (simp add: add_mult_distrib)
  finally show ?thesis by simp
qed

lemma half_expand:
  fixes a b c d :: nat
  shows "(a * 4294967296 + b) * (c * 4294967296 + d) =
    a * c * 2 ^ 64 + a * d * 2 ^ 32 + b * c * 2 ^ 32 + b * d"
  by (simp add: algebra_simps)

lemma u128_mul_val: "u128_val (u128_mul a b) = unat a * unat b"
proof -
  let ?H = "4294967296 :: nat"
  let ?a = "unat a div ?H" and ?b = "unat a mod ?H" and ?c = "unat b div ?H" and ?d = "unat b mod ?H"
  have "unat a * unat b = (?a * ?H + ?b) * (?c * ?H + ?d)"
    by simp
  also have "\<dots> = ?a * ?c * 2 ^ 64 + ?a * ?d * 2 ^ 32 + ?b * ?c * 2 ^ 32 + ?b * ?d"
    by (rule half_expand)
  finally have eq: "?a * ?c * 2 ^ 64 + ?a * ?d * 2 ^ 32 + ?b * ?c * 2 ^ 32 + ?b * ?d = unat a * unat b"
    by (rule sym)
  have "unat a * unat b < 2 ^ 128"
    using mult_strict_mono' [OF unat_lt_64 [of a] unat_lt_64 [of b]] by simp
  then show ?thesis
    by (simp add: u128_mul_def u128_mul1_def u128_mul2_val word_nat_simps unat_low_half
        half_product half_lt) (simp flip: eq)
qed

subsection \<open>Division\<close>

text \<open>One step shifts the next bit of the low half into the remainder and subtracts the divisor
  when it fits; the carry out of the 64-bit remainder is the second branch of \<open>div3\<close>.\<close>

lemma u128_div3_step:
  fixes prev :: division64_result and D r b :: nat
  assumes r: "unat (remainder prev) < unat divisor"
    and dividend: "dividend = push_bit 1 (remainder prev) + x" and x: "unat x \<le> 1"
    and N: "N = 2 * unat (remainder prev) + unat x"
  shows "unat (remainder (u128_div3 prev divisor bt dividend)) = N mod unat divisor"
    and "lo (quotient (u128_div3 prev divisor bt dividend)) =
      lo (quotient prev) + (if unat divisor \<le> N then bt else 0)"
    and "hi (quotient (u128_div3 prev divisor bt dividend)) = hi (quotient prev)"
proof -
  let ?W = "18446744073709551616 :: nat"
  have dv: "unat dividend = N mod ?W"
    using N by (simp add: dividend word_nat_simps mod_simps mult.commute)
  have N2: "N < 2 * unat divisor"
    using r x N by linarith
  show "hi (quotient (u128_div3 prev divisor bt dividend)) = hi (quotient prev)"
    by (simp add: u128_div3_def)
  have "unat (remainder (u128_div3 prev divisor bt dividend)) = N mod unat divisor \<and>
    lo (quotient (u128_div3 prev divisor bt dividend)) =
      lo (quotient prev) + (if unat divisor \<le> N then bt else 0)"
  proof (cases "unat (remainder prev) < 9223372036854775808")
    case True
    then have "N < ?W"
      using x N by linarith
    with dv have "unat dividend = N" by simp
    with True show ?thesis
      by (auto simp: u128_div3_def top_bit_64 unat_mod word_less_nat_alt)
  next
    case False
    then have NW: "?W \<le> N"
      using N by linarith
    with N2 have "N < 2 * ?W"
      using unat_lt_64 [of divisor] by linarith
    with NW dv have dN: "unat dividend = N - ?W"
      by (simp add: le_mod_geq)
    have D: "unat divisor \<le> N"
      using NW unat_lt_64 [of divisor] by linarith
    have eq: "0xFFFFFFFFFFFFFFFF - divisor + dividend + 1 = dividend - divisor"
    proof -
      have "(0xFFFFFFFFFFFFFFFF :: u64) = - 1" by simp
      then show ?thesis by simp
    qed
    have "unat (dividend - divisor) = N - unat divisor"
    proof -
      have "\<not> unat divisor \<le> unat dividend"
        using dN N2 NW unat_lt_64 [of divisor] by linarith
      then have "unat (dividend - divisor) = unat dividend + 2 ^ 64 - unat divisor"
        by (simp add: unat_sub_if' word_le_nat_alt)
      then show ?thesis
        using dN NW by simp
    qed
    also have "\<dots> = N mod unat divisor"
      using D N2 by (simp add: le_mod_geq)
    finally show ?thesis
      using False D by (simp add: u128_div3_def top_bit_64 eq)
  qed
  then show "unat (remainder (u128_div3 prev divisor bt dividend)) = N mod unat divisor"
    and "lo (quotient (u128_div3 prev divisor bt dividend)) =
      lo (quotient prev) + (if unat divisor \<le> N then bt else 0)"
    by simp_all
qed

lemma aligned_add_bit:
  assumes al: "unat (q::u64) mod 2 ^ Suc s = 0" and s: "s < 64"
  shows "unat (q + push_bit s 1) = unat q + 2 ^ s"
proof -
  obtain k where k: "unat q = 2 ^ Suc s * k"
    using al by (auto simp: mod_eq_0_iff_dvd)
  have W: "(18446744073709551616 :: nat) = 2 ^ Suc s * 2 ^ (63 - s)"
    using s by (simp flip: power_add)
  have "k < 2 ^ (63 - s)"
    using unat_lt_64 [of q] unfolding k W by simp
  then have "2 ^ Suc s * Suc k \<le> 2 ^ Suc s * 2 ^ (63 - s)"
    by (intro mult_le_mono2) simp
  then have "unat q + 2 ^ Suc s \<le> 18446744073709551616"
    unfolding k W by simp
  then have lt: "unat q + 2 ^ s < 18446744073709551616"
    by (rule order.strict_trans2 [rotated]) simp
  have "unat (push_bit s 1 :: u64) = 2 ^ s"
    using lt by (simp add: word_nat_simps del: push_bit_of_1)
  with lt show ?thesis
    by (simp add: word_nat_simps)
qed


lemma mod_pow_Suc: "(n::nat) mod 2 ^ Suc s = (n div 2 ^ s mod 2) * 2 ^ s + n mod 2 ^ s"
  using mod_mult2_eq [of n "2 ^ s" 2] by (simp add: mult.commute)

lemma u128_div2_step:
  fixes x :: uint128_t
  assumes r: "unat (remainder prev) < unat divisor" and s: "s < 64"
    and al: "unat (lo (quotient prev)) mod 2 ^ Suc s = 0"
  defines "nxt \<equiv> u128_div2 x prev divisor s"
  shows "unat (remainder nxt) < unat divisor"
    and "unat (lo (quotient nxt)) mod 2 ^ s = 0"
    and "hi (quotient nxt) = hi (quotient prev)"
    and "unat (lo (quotient nxt)) * unat divisor + unat (remainder nxt) * 2 ^ s =
      unat (lo (quotient prev)) * unat divisor +
      (2 * unat (remainder prev) + unat (lo x) div 2 ^ s mod 2) * 2 ^ s"
proof -
  let ?b = "drop_bit s (lo x) AND 1"
  let ?N = "2 * unat (remainder prev) + unat (lo x) div 2 ^ s mod 2"
  have b: "unat ?b = unat (lo x) div 2 ^ s mod 2"
    by (simp add: word_nat_simps)
  have N: "?N = 2 * unat (remainder prev) + unat ?b"
    by (simp add: b)
  have b1: "unat ?b \<le> 1"
    by (simp add: b)
  note step = u128_div3_step [OF r refl b1 N, of "push_bit s 1", folded u128_div2_def nxt_def]
  have rem: "unat (remainder nxt) = ?N mod unat divisor"
    by (rule step(1))
  show "hi (quotient nxt) = hi (quotient prev)"
    by (rule step(3))
  show "unat (remainder nxt) < unat divisor"
    using r by (simp add: rem)
  have q: "unat (lo (quotient nxt)) =
      unat (lo (quotient prev)) + (if unat divisor \<le> ?N then 2 ^ s else 0)"
    by (simp add: step(2) aligned_add_bit [OF al s] del: push_bit_of_1)
  have "2 ^ s dvd unat (lo (quotient prev))"
    using al by (metis dvd_trans le_imp_power_dvd lessI less_imp_le mod_eq_0_iff_dvd)
  then show "unat (lo (quotient nxt)) mod 2 ^ s = 0"
    by (simp add: q mod_eq_0_iff_dvd)
  have N2: "?N < 2 * unat divisor"
    using r by linarith
  show "unat (lo (quotient nxt)) * unat divisor + unat (remainder nxt) * 2 ^ s =
      unat (lo (quotient prev)) * unat divisor + ?N * 2 ^ s"
  proof (cases "unat divisor \<le> ?N")
    case True
    with N2 have "unat (remainder nxt) + unat divisor = ?N"
      by (simp add: rem le_mod_geq)
    then have "?N * 2 ^ s = unat (remainder nxt) * 2 ^ s + unat divisor * 2 ^ s"
      by (metis add_mult_distrib)
    with True show ?thesis
      by (simp add: q add_mult_distrib)
  next
    case False
    then show ?thesis
      by (simp add: q rem)
  qed
qed

lemma u128_div1_correct:
  assumes "unat (remainder prev) < unat divisor" "s < 64"
    and "unat (lo (quotient prev)) mod 2 ^ Suc s = 0"
  shows "unat (remainder (u128_div1 x prev divisor s)) < unat divisor \<and>
    hi (quotient (u128_div1 x prev divisor s)) = hi (quotient prev) \<and>
    unat (lo (quotient (u128_div1 x prev divisor s))) * unat divisor +
      unat (remainder (u128_div1 x prev divisor s)) =
    unat (lo (quotient prev)) * unat divisor + unat (remainder prev) * 2 ^ Suc s +
      unat (lo x) mod 2 ^ Suc s"
  using assms
proof (induction s arbitrary: prev)
  case 0
  then show ?case
    using u128_div2_step [OF 0(1,2,3), of x] by (simp add: algebra_simps numeral_2_eq_2 [symmetric])
next
  case (Suc s)
  note step = u128_div2_step [OF Suc.prems, of x]
  let ?next = "u128_div2 x prev divisor (Suc s)"
  have IH: "unat (lo (quotient (u128_div1 x ?next divisor s))) * unat divisor +
      unat (remainder (u128_div1 x ?next divisor s)) =
    unat (lo (quotient ?next)) * unat divisor + unat (remainder ?next) * 2 ^ Suc s +
      unat (lo x) mod 2 ^ Suc s"
    and rest: "unat (remainder (u128_div1 x ?next divisor s)) < unat divisor"
      "hi (quotient (u128_div1 x ?next divisor s)) = hi (quotient ?next)"
    using Suc.IH [OF step(1) _ step(2)] Suc.prems(2) by simp_all
  have "unat (remainder prev) * 2 ^ Suc (Suc s) + unat (lo x) mod 2 ^ Suc (Suc s) =
      (2 * unat (remainder prev) + unat (lo x) div 2 ^ Suc s mod 2) * 2 ^ Suc s +
      unat (lo x) mod 2 ^ Suc s"
    unfolding mod_pow_Suc [of _ "Suc s"] by (simp add: add_mult_distrib)
  with IH rest step(3,4) show ?case
    by simp
qed

lemma u128_div_correct:
  assumes "u128_div x divisor = Inr res"
  shows "u128_val x = u128_val (quotient res) * unat divisor + unat (remainder res) \<and>
    unat (remainder res) < unat divisor"
proof -
  have nz: "divisor \<noteq> 0"
    using assms by (auto simp: u128_div_def)
  show ?thesis
  proof (cases "divisor = 1")
    case True
    with assms show ?thesis by (auto simp: u128_div_def)
  next
    case False
    let ?init = "\<lparr>quotient = \<lparr>lo = 0, hi = hi x div divisor\<rparr>, remainder = hi x mod divisor\<rparr>"
    have res: "res = u128_div1 x ?init divisor 63"
      using assms nz False by (simp add: u128_div_def)
    have "unat (remainder ?init) < unat divisor"
      using nz by (simp add: unat_mod unat_gt_0)
    then have c: "unat (remainder res) < unat divisor \<and> hi (quotient res) = hi x div divisor \<and>
        unat (lo (quotient res)) * unat divisor + unat (remainder res) =
        unat (hi x mod divisor) * 2 ^ 64 + unat (lo x)"
      using u128_div1_correct [of ?init divisor 63 x] unat_lt_64 [of "lo x"] by (simp add: res)
    then have "u128_val (quotient res) * unat divisor + unat (remainder res) =
        unat (hi x) div unat divisor * unat divisor * 2 ^ 64 +
        (unat (hi x) mod unat divisor * 2 ^ 64 + unat (lo x))"
      by (simp add: u128_val_def unat_div unat_mod add_mult_distrib)
    also have "\<dots> = u128_val x"
      unfolding u128_val_def add.assoc [symmetric] add_mult_distrib [symmetric] by simp
    finally show ?thesis
      using c by simp
  qed
qed

lemma u128_div_total:
  assumes "divisor \<noteq> 0"
  obtains res where "u128_div x divisor = Inr res"
    "u128_val (quotient res) = u128_val x div unat divisor"
    "unat (remainder res) = u128_val x mod unat divisor"
proof -
  obtain res where res: "u128_div x divisor = Inr res"
    using assms by (cases "u128_div x divisor") (auto simp: u128_div_def split: if_splits)
  note c = u128_div_correct [OF res]
  have "u128_val x div unat divisor = u128_val (quotient res)"
    using c by (metis add.commute div_mult_self1 div_less add_0_right bot_nat_0.not_eq_extremum less_nat_zero_code)
  moreover have "u128_val x mod unat divisor = unat (remainder res)"
    using c by (metis mod_mult_self3 mod_less)
  ultimately show thesis
    using res by (intro that) simp_all
qed

text \<open>The product \<open>uint128_t::mul\<close> of two 64-bit numbers is exact: no bit of the 128-bit
  result is lost, although every intermediate value of the computation is a 64-bit word.\<close>

theorem u128_mul_exact: "u128_val (u128_mul a b) = unat a * unat b"
  by (rule u128_mul_val)

text \<open>C10: \<open>uint128_t::div\<close> by a nonzero divisor returns, and its result is the quotient and the
  remainder of the 128-bit number, also for divisors above \<open>2^63\<close>, where the remainder of the
  bit-serial loop overflows 64 bits.\<close>

theorem u128_div_exact:
  assumes "divisor \<noteq> 0"
  shows "\<exists>res. u128_div x divisor = Inr res \<and>
    u128_val (quotient res) = u128_val x div unat divisor \<and>
    unat (remainder res) = u128_val x mod unat divisor"
  using u128_div_total [OF assms] by metis

theorem u128_div_exact_witness:
  "\<exists>res. u128_div \<lparr>lo = 5, hi = 3\<rparr> 0xFFFFFFFFFFFFFFFF = Inr res \<and>
    u128_val (quotient res) = 3 \<and> unat (remainder res) = 8"
  using u128_div_exact [of "0xFFFFFFFFFFFFFFFF" "\<lparr>lo = 5, hi = 3\<rparr>"]
  by (simp add: u128_val_def)

end
