(* ===== verification/Amount.thy ===== *)
theory Amount
  imports Math128
begin

text \<open>
  The currency amount of \<open>csdb/include/csdb/amount.h\<close>: a signed 32-bit integral part and an
  unsigned fraction in units of \<open>10^-18\<close>.  The operators are translated one by one; the ones that
  recurse after a sign change are partial functions, because with the wrap-around of the machine
  \<open>- INT32_MIN\<close> is \<open>INT32_MIN\<close> again and the recursion does not end.  \<open>amount_val\<close> is the number
  of units an amount stands for, \<open>amount_ok\<close> the class invariant (the fraction is below one) and
  \<open>amount_range\<close> the representable numbers.  Signed overflow, which C++ leaves undefined, is the
  wrap-around of the words; the theorems assume a representable result.
\<close>

subsection \<open>The class\<close>

abbreviation amount_max_fraction :: u64 where
  "amount_max_fraction \<equiv> 1000000000000000000"

record amount =
  integral :: u32
  fraction :: u64

definition amount_of_int :: "u32 \<Rightarrow> amount" where
  "amount_of_int value = \<lparr>integral = value, fraction = 0\<rparr>"

definition check_fraction :: "uint128_t \<Rightarrow> cs_error + u64" where
  "check_fraction f =
     (if hi f \<noteq> 0 \<or> amount_max_fraction \<le> lo f
      then Inl (Invalid_argument ''Amount::Amount(): Invalid fraction part.'')
      else Inr (lo f))"

definition amount_of_ratio :: "u32 \<Rightarrow> u64 \<Rightarrow> u64 \<Rightarrow> cs_error + amount" where
  "amount_of_ratio i numerator denominator =
     (case u128_div (u128_add64 (u128_mul numerator amount_max_fraction) (denominator div 2)) denominator of
        Inl e \<Rightarrow> Inl e
      | Inr r \<Rightarrow> (case check_fraction (quotient r) of
          Inl e \<Rightarrow> Inl e
        | Inr f \<Rightarrow> Inr \<lparr>integral = i, fraction = f\<rparr>))"

definition amount_of_division :: "division64_result \<Rightarrow> amount" where
  "amount_of_division value =
     \<lparr>integral = ucast (lo (quotient value)), fraction = remainder value\<rparr>"

definition div_max :: "uint128_t \<Rightarrow> division64_result" where
  "div_max value =
     (case u128_div value amount_max_fraction of
        Inr r \<Rightarrow> r
      | Inl _ \<Rightarrow> \<lparr>quotient = \<lparr>lo = 0, hi = 0\<rparr>, remainder = 0\<rparr>)"

definition amount_of_u128 :: "uint128_t \<Rightarrow> bool \<Rightarrow> amount" where
  "amount_of_u128 value dv =
     amount_of_division
       (if lo value = 0 \<and> hi value = 0 then \<lparr>quotient = \<lparr>lo = 0, hi = 0\<rparr>, remainder = 0\<rparr>
        else if dv then div_max (quotient (div_max value))
        else div_max value)"

definition amount_round :: "amount \<Rightarrow> u32" where
  "amount_round a =
     (if fraction a < amount_max_fraction div 2 then integral a else integral a + 1)"

definition amount_eq :: "amount \<Rightarrow> amount \<Rightarrow> bool" where
  "amount_eq a b \<longleftrightarrow> integral a = integral b \<and> fraction a = fraction b"

definition amount_lt :: "amount \<Rightarrow> amount \<Rightarrow> bool" where
  "amount_lt a b \<longleftrightarrow>
     (if integral a <s integral b then True
      else if integral b <s integral a then False
      else fraction a < fraction b)"

definition amount_gt :: "amount \<Rightarrow> amount \<Rightarrow> bool" where
  "amount_gt a b \<longleftrightarrow>
     (if integral b <s integral a then True
      else if integral a <s integral b then False
      else fraction a > fraction b)"

definition amount_le :: "amount \<Rightarrow> amount \<Rightarrow> bool" where
  "amount_le a b \<longleftrightarrow> \<not> amount_gt a b"

definition amount_ge :: "amount \<Rightarrow> amount \<Rightarrow> bool" where
  "amount_ge a b \<longleftrightarrow> \<not> amount_lt a b"

definition amount_neg :: "amount \<Rightarrow> amount" where
  "amount_neg a =
     (if fraction a = 0 then amount_of_int (- integral a)
      else \<lparr>integral = - integral a - 1, fraction = amount_max_fraction - fraction a\<rparr>)"

definition amount_add_assign :: "amount \<Rightarrow> amount \<Rightarrow> amount" where
  "amount_add_assign a b =
     (let i = integral a + integral b; f = fraction a + fraction b
      in if f > amount_max_fraction then \<lparr>integral = i + 1, fraction = f - amount_max_fraction\<rparr>
         else \<lparr>integral = i, fraction = f\<rparr>)"

definition amount_sub_assign :: "amount \<Rightarrow> amount \<Rightarrow> amount" where
  "amount_sub_assign a b =
     (let i = integral a - integral b
      in if fraction b > fraction a
         then \<lparr>integral = i - 1, fraction = fraction a + (amount_max_fraction - fraction b)\<rparr>
         else \<lparr>integral = i, fraction = fraction a - fraction b\<rparr>)"

definition amount_add :: "amount \<Rightarrow> amount \<Rightarrow> amount" where
  "amount_add a b =
     (if amount_max_fraction \<le> fraction a + fraction b
      then \<lparr>integral = integral a + integral b + 1,
            fraction = fraction a + fraction b - amount_max_fraction\<rparr>
      else \<lparr>integral = integral a + integral b, fraction = fraction a + fraction b\<rparr>)"

definition amount_add_int :: "amount \<Rightarrow> u32 \<Rightarrow> amount" where
  "amount_add_int a other = \<lparr>integral = integral a + other, fraction = fraction a\<rparr>"

definition amount_sub :: "amount \<Rightarrow> amount \<Rightarrow> amount" where
  "amount_sub a b =
     (if fraction a < fraction b
      then \<lparr>integral = integral a - integral b - 1,
            fraction = fraction a + amount_max_fraction - fraction b\<rparr>
      else \<lparr>integral = integral a - integral b, fraction = fraction a - fraction b\<rparr>)"

definition amount_sub_int :: "amount \<Rightarrow> u32 \<Rightarrow> amount" where
  "amount_sub_int a other = \<lparr>integral = integral a - other, fraction = fraction a\<rparr>"



partial_function (option) amount_mul_int :: "amount \<Rightarrow> u32 \<Rightarrow> amount option" where
  "amount_mul_int a other =
     (if other <s 0
      then Option.bind (amount_mul_int a (- other)) (\<lambda>r. Some (amount_neg r))
      else Some (amount_add (amount_of_int (integral a * other))
             (amount_of_u128 (u128_mul (fraction a) (scast other)) False)))"

partial_function (option) amount_div_int :: "amount \<Rightarrow> u32 \<Rightarrow> (cs_error + amount) option" where
  "amount_div_int a other =
     (if other = 0 then Some (Inl (Overflow_error ''Amount division by zero''))
      else if other <s 0
      then Option.bind (amount_div_int a (- other)) (\<lambda>r. Some (map_sum id amount_neg r))
      else if other = 1 then Some (Inr a)
      else if integral a <s 0
      then Option.bind (amount_div_int (amount_neg a) other) (\<lambda>r. Some (map_sum id amount_neg r))
      else Some (case u128_div (u128_mul (scast (integral a)) amount_max_fraction) (scast other) of
             Inl e \<Rightarrow> Inl e
           | Inr r \<Rightarrow> Inr (amount_add (amount_of_u128 (quotient r) False)
                 \<lparr>integral = 0, fraction = fraction a div scast other\<rparr>)))"

subsection \<open>What an amount stands for\<close>

definition amount_val :: "amount \<Rightarrow> int" where
  "amount_val a = sint (integral a) * 1000000000000000000 + uint (fraction a)"

definition amount_ok :: "amount \<Rightarrow> bool" where
  "amount_ok a \<longleftrightarrow> fraction a < amount_max_fraction"

definition amount_range :: "int \<Rightarrow> bool" where
  "amount_range v \<longleftrightarrow> - 2147483648000000000000000000 \<le> v \<and> v < 2147483648000000000000000000"

lemma sint_eq_of_range:
  "x = word_of_int k \<Longrightarrow> - 2147483648 \<le> k \<Longrightarrow> k < 2147483648 \<Longrightarrow> sint (x :: u32) = k"
  by (simp add: sint_sbintrunc' signed_take_bit_int_eq_self)

lemma sint_range_32: "- 2147483648 \<le> sint (x :: u32) \<and> sint x \<le> 2147483647"
  using sint_greater_eq [of x] sint_lt [of x] by simp

lemma uint_lt_64: "0 \<le> uint (x :: u64) \<and> uint x < 18446744073709551616"
  using uint_lt2p [of x] by simp

lemma fraction_lt: "amount_ok a \<Longrightarrow> uint (fraction a) < 1000000000000000000"
  by (simp add: amount_ok_def word_less_def)

lemma amount_val_div: "amount_ok a \<Longrightarrow> amount_val a div 1000000000000000000 = sint (integral a)"
  using fraction_lt [of a] by (simp add: amount_val_def)

lemma amount_val_range: "amount_ok a \<Longrightarrow> amount_range (amount_val a)"
  using fraction_lt [of a] sint_range_32 [of "integral a"] uint_lt_64 [of "fraction a"]
  unfolding amount_range_def amount_val_def by linarith

text \<open>A value of \<open>amount\<close> stands for \<open>v\<close> when its integral part is the word of the quotient of
  \<open>v\<close> by \<open>10^18\<close> and its fraction is the remainder, provided \<open>v\<close> is representable.\<close>

lemma amount_valI:
  assumes r: "amount_range v" and v: "v = k * 1000000000000000000 + f" and f: "0 \<le> f" "f < 1000000000000000000"
    and i: "integral a = word_of_int k" and fr: "uint (fraction a) = f"
  shows "amount_val a = v \<and> amount_ok a"
proof -
  have "- 2147483648 \<le> k \<and> k < 2147483648"
    using r v f unfolding amount_range_def by linarith
  then have "sint (integral a) = k"
    using i by (intro sint_eq_of_range) auto
  then show ?thesis
    using v f fr by (simp add: amount_val_def amount_ok_def word_less_def)
qed

lemma uint_add_small:
  "uint (x :: u64) + uint y < 18446744073709551616 \<Longrightarrow> uint (x + y) = uint x + uint y"
  by (simp add: uint_word_ariths)

lemma uint_sub_small:
  "uint y \<le> uint (x :: u64) \<Longrightarrow> uint (x - y) = uint x - uint y"
proof -
  assume "uint y \<le> uint x"
  moreover from this have "uint x - uint y < 18446744073709551616"
    using uint_lt_64 [of x] uint_lt_64 [of y] by linarith
  ultimately show "uint (x - y) = uint x - uint y"
    by (simp add: uint_word_ariths)
qed

lemma word_of_sint_add: "(x :: u32) + y = word_of_int (sint x + sint y)"
  by simp

lemma amount_add_val:
  assumes ok: "amount_ok a" "amount_ok b" and r: "amount_range (amount_val a + amount_val b)"
  shows "amount_val (amount_add a b) = amount_val a + amount_val b \<and> amount_ok (amount_add a b)"
proof -
  note fr = fraction_lt [OF ok(1)] fraction_lt [OF ok(2)] uint_lt_64 [of "fraction a"]
    uint_lt_64 [of "fraction b"]
  have s: "uint (fraction a + fraction b) = uint (fraction a) + uint (fraction b)"
    using fr by (intro uint_add_small) linarith
  show ?thesis
  proof (cases "amount_max_fraction \<le> fraction a + fraction b")
    case True
    then have c: "1000000000000000000 \<le> uint (fraction a) + uint (fraction b)"
      by (simp add: word_le_def s)
    then have "uint (fraction a + fraction b - amount_max_fraction) =
        uint (fraction a) + uint (fraction b) - 1000000000000000000"
      by (subst uint_sub_small) (simp_all add: s)
    with True c fr r show ?thesis
      by (intro amount_valI [where k = "sint (integral a) + sint (integral b) + 1"
            and f = "uint (fraction a) + uint (fraction b) - 1000000000000000000"])
        (simp_all add: amount_val_def amount_add_def algebra_simps)
  next
    case False
    then have c: "uint (fraction a) + uint (fraction b) < 1000000000000000000"
      by (simp add: word_le_def s)
    with False fr r show ?thesis
      by (intro amount_valI [where k = "sint (integral a) + sint (integral b)"
            and f = "uint (fraction a) + uint (fraction b)"])
        (simp_all add: amount_val_def amount_add_def algebra_simps s)
  qed
qed

lemma amount_sub_val:
  assumes ok: "amount_ok a" "amount_ok b" and r: "amount_range (amount_val a - amount_val b)"
  shows "amount_val (amount_sub a b) = amount_val a - amount_val b \<and> amount_ok (amount_sub a b)"
proof -
  note fr = fraction_lt [OF ok(1)] fraction_lt [OF ok(2)] uint_lt_64 [of "fraction a"]
    uint_lt_64 [of "fraction b"]
  show ?thesis
  proof (cases "fraction a < fraction b")
    case True
    then have c: "uint (fraction a) < uint (fraction b)"
      by (simp add: word_less_def)
    have s: "uint (fraction a + amount_max_fraction) = uint (fraction a) + 1000000000000000000"
      using fr by (subst uint_add_small) simp_all
    have le: "uint (fraction b) \<le> uint (fraction a) + 1000000000000000000"
      using fr by linarith
    then have "uint (fraction a + amount_max_fraction - fraction b) =
        uint (fraction a) + 1000000000000000000 - uint (fraction b)"
      by (subst uint_sub_small) (simp_all only: s)
    with True c le r show ?thesis
      by (intro amount_valI [where k = "sint (integral a) - sint (integral b) - 1"
            and f = "uint (fraction a) + 1000000000000000000 - uint (fraction b)"])
        (simp_all add: amount_val_def amount_sub_def algebra_simps)
  next
    case False
    then have c: "uint (fraction b) \<le> uint (fraction a)"
      by (simp add: word_less_def)
    have lt: "uint (fraction a) < uint (fraction b) + 1000000000000000000"
      using fr by linarith
    with False c r show ?thesis
      by (intro amount_valI [where k = "sint (integral a) - sint (integral b)"
            and f = "uint (fraction a) - uint (fraction b)"])
        (simp_all add: amount_val_def amount_sub_def algebra_simps uint_sub_small)
  qed
qed

lemma amount_neg_val:
  assumes ok: "amount_ok a" and r: "amount_range (- amount_val a)"
  shows "amount_val (amount_neg a) = - amount_val a \<and> amount_ok (amount_neg a)"
proof (cases "fraction a = 0")
  case True
  with r show ?thesis
    by (intro amount_valI [where k = "- sint (integral a)" and f = 0])
      (simp_all add: amount_neg_def amount_of_int_def amount_val_def)
next
  case False
  then have "uint (fraction a) \<noteq> 0"
    by (simp add: uint_0_iff)
  then have f: "0 < uint (fraction a)"
    using uint_lt_64 [of "fraction a"] by linarith
  have "uint (amount_max_fraction - fraction a) = 1000000000000000000 - uint (fraction a)"
    using fraction_lt [OF ok] by (subst uint_sub_small) simp_all
  with False f fraction_lt [OF ok] r show ?thesis
    by (intro amount_valI [where k = "- sint (integral a) - 1"
          and f = "1000000000000000000 - uint (fraction a)"])
      (simp_all add: amount_neg_def amount_val_def algebra_simps)
qed

lemma amount_lt_val:
  assumes "amount_ok a" "amount_ok b"
  shows "amount_lt a b \<longleftrightarrow> amount_val a < amount_val b"
proof -
  note fr = fraction_lt [OF assms(1)] fraction_lt [OF assms(2)] uint_lt_64 [of "fraction a"]
    uint_lt_64 [of "fraction b"]
  consider "sint (integral a) < sint (integral b)" | "sint (integral b) < sint (integral a)"
    | "sint (integral a) = sint (integral b)" by linarith
  then show ?thesis
  proof cases
    case 1
    with fr have "amount_val a < amount_val b" unfolding amount_val_def by linarith
    with 1 show ?thesis by (simp add: amount_lt_def word_sless_alt)
  next
    case 2
    with fr have "amount_val b < amount_val a" unfolding amount_val_def by linarith
    with 2 show ?thesis by (simp add: amount_lt_def word_sless_alt)
  next
    case 3
    then show ?thesis by (simp add: amount_lt_def amount_val_def word_sless_alt word_less_def)
  qed
qed

lemma amount_gt_lt: "amount_gt a b = amount_lt b a"
  by (simp add: amount_gt_def amount_lt_def)

lemma amount_val_inj:
  assumes "amount_ok a" "amount_ok b" "amount_val a = amount_val b"
  shows "a = b"
proof -
  have "sint (integral a) = sint (integral b)"
    using amount_val_div [OF assms(1)] amount_val_div [OF assms(2)] assms(3) by simp
  with assms(3) show ?thesis
    by (intro amount.equality) (auto simp: amount_val_def intro: signed_word_eqI unsigned_word_eqI)
qed


lemma u128_val_small:
  assumes "u128_val x < 18446744073709551616"
  shows "unat (lo x) = u128_val x"
  using assms by (cases "unat (hi x)") (simp_all add: u128_val_def)

lemma div_max_val:
  "u128_val (quotient (div_max v)) = u128_val v div 1000000000000000000"
  "unat (remainder (div_max v)) = u128_val v mod 1000000000000000000"
proof -
  have "amount_max_fraction \<noteq> 0" by simp
  then obtain res where "u128_div v amount_max_fraction = Inr res"
    "u128_val (quotient res) = u128_val v div unat amount_max_fraction"
    "unat (remainder res) = u128_val v mod unat amount_max_fraction"
    by (rule u128_div_total)
  then show "u128_val (quotient (div_max v)) = u128_val v div 1000000000000000000"
    "unat (remainder (div_max v)) = u128_val v mod 1000000000000000000"
    by (simp_all add: div_max_def)
qed

lemma u128_val_0: "u128_val v = 0 \<longleftrightarrow> lo v = 0 \<and> hi v = 0"
  by (auto simp: u128_val_def unat_eq_0 unsigned_eq_0_iff)

lemma amount_of_division_val:
  assumes "u128_val (quotient d) = n div 1000000000000000000"
    and "unat (remainder d) = n mod 1000000000000000000" and "n < 2147483648000000000000000000"
  shows "amount_val (amount_of_division d) = int n \<and> amount_ok (amount_of_division d)"
proof (rule amount_valI [where k = "int (n div 1000000000000000000)" and f = "int (n mod 1000000000000000000)"])
  have q: "n div 1000000000000000000 < 2147483648"
    using assms(3) by (simp add: div_less_iff_less_mult)
  then have "unat (lo (quotient d)) = n div 1000000000000000000"
    using assms(1) by (subst u128_val_small) simp_all
  then have "uint (lo (quotient d)) = int (n div 1000000000000000000)"
    using of_nat_unat [of "lo (quotient d)", where 'a = int] by simp
  then show "integral (amount_of_division d) = word_of_int (int (n div 1000000000000000000))"
    by (simp only: amount_of_division_def amount.simps ucast_eq)
  show "uint (fraction (amount_of_division d)) = int (n mod 1000000000000000000)"
    using assms(2) of_nat_unat [of "remainder d", where 'a = int]
    by (simp only: amount_of_division_def amount.simps)
  show "amount_range (int n)"
    using assms(3) by (simp add: amount_range_def)
  show "int n = int (n div 1000000000000000000) * 1000000000000000000 + int (n mod 1000000000000000000)"
    by (simp add: zdiv_int zmod_int)
qed simp_all


lemma amount_of_u128_val:
  assumes "u128_val v < 2147483648000000000000000000"
  shows "amount_val (amount_of_u128 v False) = int (u128_val v) \<and> amount_ok (amount_of_u128 v False)"
proof (cases "u128_val v = 0")
  case True
  then show ?thesis
    using amount_of_division_val [of "\<lparr>quotient = \<lparr>lo = 0, hi = 0\<rparr>, remainder = 0\<rparr>" 0]
    by (simp add: amount_of_u128_def u128_val_0)
next
  case False
  then have "\<not> (lo v = 0 \<and> hi v = 0)"
    by (simp only: u128_val_0 not_False_eq_True)
  then show ?thesis
    using amount_of_division_val [OF div_max_val assms]
    unfolding amount_of_u128_def by (simp only: if_False)
qed


lemma amount_nonneg: "amount_ok a \<Longrightarrow> integral a <s 0 \<longleftrightarrow> amount_val a < 0"
proof -
  assume ok: "amount_ok a"
  have "sint (integral a) < 0 \<longleftrightarrow> amount_val a < 0"
    using fraction_lt [OF ok] uint_lt_64 [of "fraction a"] unfolding amount_val_def by linarith
  then show ?thesis
    by (simp add: word_sless_alt)
qed

lemma unat_scast_nonneg:
  assumes "0 \<le> sint (i :: u32)"
  shows "uint (scast i :: u64) = sint i"
proof -
  have "uint (scast i :: u64) = sint i mod 18446744073709551616"
    by (subst scast_eq, subst uint_word_of_int) simp
  also have "\<dots> = sint i"
    using assms sint_range_32 [of i] by (intro mod_pos_pos_trivial) linarith+
  finally show ?thesis .
qed










lemma amount_mul_int_val_nonneg:
  assumes ok: "amount_ok a" and o: "0 \<le> sint m"
    and i: "amount_range (sint (integral a) * sint m * 1000000000000000000)"
    and r: "amount_range (amount_val a * sint m)"
    and f: "uint (fraction a) * sint m < 2147483648000000000000000000"
  shows "\<exists>r. amount_mul_int a m = Some r \<and> amount_val r = amount_val a * sint m \<and> amount_ok r"
proof -
  have t1: "amount_val (amount_of_int (integral a * m)) = sint (integral a) * sint m * 1000000000000000000 \<and>
      amount_ok (amount_of_int (integral a * m))"
    by (rule amount_valI [where k = "sint (integral a) * sint m" and f = 0]) (simp_all add: i amount_of_int_def)
  have m: "int (u128_val (u128_mul (fraction a) (scast m))) = uint (fraction a) * sint m"
    using o by (simp add: u128_mul_val unat_scast_nonneg)
  have t2: "amount_val (amount_of_u128 (u128_mul (fraction a) (scast m)) False) = uint (fraction a) * sint m \<and>
      amount_ok (amount_of_u128 (u128_mul (fraction a) (scast m)) False)"
    unfolding m [symmetric] by (rule amount_of_u128_val) (use m f in linarith)
  have "sint (integral a) * sint m * 1000000000000000000 + uint (fraction a) * sint m = amount_val a * sint m"
    by (simp add: amount_val_def algebra_simps)
  with t1 t2 r amount_add_val [of "amount_of_int (integral a * m)"
      "amount_of_u128 (u128_mul (fraction a) (scast m)) False"] o show ?thesis
    by (subst amount_mul_int.simps) (simp add: word_sless_alt)
qed

lemma amount_add_assign_val:
  assumes ok: "amount_ok a" "amount_ok b" and r: "amount_range (amount_val a + amount_val b)"
    and i: "- 2147483648 \<le> sint (integral a) + sint (integral b)"
  shows "amount_val (amount_add_assign a b) = amount_val a + amount_val b"
    and "amount_ok (amount_add_assign a b) \<longleftrightarrow> fraction a + fraction b \<noteq> amount_max_fraction"
    and "fraction a + fraction b \<noteq> amount_max_fraction \<Longrightarrow> amount_add_assign a b = amount_add a b"
proof -
  have eq: "fraction a + fraction b \<noteq> amount_max_fraction \<Longrightarrow> amount_add_assign a b = amount_add a b"
    by (auto simp: amount_add_assign_def amount_add_def Let_def)
  then show "fraction a + fraction b \<noteq> amount_max_fraction \<Longrightarrow> amount_add_assign a b = amount_add a b" .
  note av = amount_add_val [OF ok r]
  show "amount_ok (amount_add_assign a b) \<longleftrightarrow> fraction a + fraction b \<noteq> amount_max_fraction"
  proof
    show "amount_ok (amount_add_assign a b) \<Longrightarrow> fraction a + fraction b \<noteq> amount_max_fraction"
      by (auto simp: amount_add_assign_def amount_ok_def Let_def)
  qed (use eq av in auto)
  show "amount_val (amount_add_assign a b) = amount_val a + amount_val b"
  proof (cases "fraction a + fraction b = amount_max_fraction")
    case False
    with eq av show ?thesis by simp
  next
    case True
    have "uint (fraction a) + uint (fraction b) < 18446744073709551616"
      using fraction_lt [OF ok(1)] fraction_lt [OF ok(2)] by linarith
    then have s: "uint (fraction a) + uint (fraction b) = 1000000000000000000"
      using uint_add_small [of "fraction a" "fraction b"] True by simp
    then have "sint (integral a) + sint (integral b) < 2147483648"
      using r unfolding amount_range_def amount_val_def by linarith
    then have "sint (integral a + integral b) = sint (integral a) + sint (integral b)"
      using i by (intro sint_eq_of_range) simp_all
    with True s show ?thesis
      by (simp add: amount_add_assign_def amount_val_def Let_def)
  qed
qed

lemma amount_sub_assign_eq: "amount_sub_assign a b = amount_sub a b"
  by (auto simp: amount_sub_assign_def amount_sub_def Let_def)


lemma int_div_le_dividend: "0 \<le> (x::int) \<Longrightarrow> 1 \<le> m \<Longrightarrow> x div m \<le> x"
  using zdiv_mono2 [of x 1 m] by simp

lemma amount_div_int_pos:
  assumes ok: "amount_ok a" and a: "0 \<le> amount_val a" and o: "2 \<le> sint m"
  shows "\<exists>r. amount_div_int a m = Some (Inr r) \<and> amount_ok r \<and>
    amount_val r = sint (integral a) * 1000000000000000000 div sint m + uint (fraction a) div sint m"
proof -
  let ?M = "1000000000000000000 :: int"
  have ia: "0 \<le> sint (integral a)"
    using amount_nonneg [OF ok] a by (simp add: word_sless_alt)
  note f = uint_lt_64 [of "fraction a"] fraction_lt [OF ok]
  have mu: "uint (scast m :: u64) = sint m"
    using o by (intro unat_scast_nonneg) simp
  have nz: "(scast m :: u64) \<noteq> 0"
    using mu o by (metis uint_0_eq not_numeral_le_zero)
  obtain res where res: "u128_div (u128_mul (scast (integral a)) amount_max_fraction) (scast m) = Inr res"
    and q: "u128_val (quotient res) =
      u128_val (u128_mul (scast (integral a)) amount_max_fraction) div unat (scast m :: u64)"
    by (rule u128_div_total [OF nz])
  have "int (u128_val (quotient res)) = uint (scast (integral a) :: u64) * ?M div uint (scast m :: u64)"
    by (simp add: q u128_mul_val zdiv_int)
  then have qi: "int (u128_val (quotient res)) = sint (integral a) * ?M div sint m"
    by (simp only: mu unat_scast_nonneg [OF ia])
  have le: "sint (integral a) * ?M div sint m \<le> sint (integral a) * ?M"
    using ia o by (intro int_div_le_dividend) simp_all
  have lim: "sint (integral a) * ?M \<le> 2147483647 * ?M"
    using sint_range_32 [of "integral a"] by simp
  have t1: "amount_val (amount_of_u128 (quotient res) False) = sint (integral a) * ?M div sint m \<and>
      amount_ok (amount_of_u128 (quotient res) False)"
    unfolding qi [symmetric] by (rule amount_of_u128_val) (use qi le lim in linarith)
  have fd: "uint (fraction a div scast m) = uint (fraction a) div sint m"
    by (simp only: uint_div_distrib mu)
  have fle: "uint (fraction a) div sint m \<le> uint (fraction a)" and f0: "0 \<le> uint (fraction a) div sint m"
    using f o by (simp_all add: pos_imp_zdiv_nonneg_iff int_div_le_dividend)
  have t2: "amount_val \<lparr>integral = 0, fraction = fraction a div scast m\<rparr> = uint (fraction a) div sint m \<and>
      amount_ok \<lparr>integral = 0, fraction = fraction a div scast m\<rparr>"
    using fle f by (simp add: amount_val_def amount_ok_def word_less_def fd)
  have q0: "0 \<le> sint (integral a) * ?M div sint m"
    using ia o by (simp add: pos_imp_zdiv_nonneg_iff)
  have "amount_range (sint (integral a) * ?M div sint m + uint (fraction a) div sint m)"
    using le lim fle f0 f q0 unfolding amount_range_def by linarith
  then have sum: "amount_val (amount_add (amount_of_u128 (quotient res) False)
        \<lparr>integral = 0, fraction = fraction a div scast m\<rparr>) =
      sint (integral a) * ?M div sint m + uint (fraction a) div sint m \<and>
    amount_ok (amount_add (amount_of_u128 (quotient res) False)
        \<lparr>integral = 0, fraction = fraction a div scast m\<rparr>)"
    using amount_add_val [OF conjunct2 [OF t1] conjunct2 [OF t2]] t1 t2 by simp
  have "m \<noteq> 0" "m \<noteq> 1" "\<not> m <s 0"
    using o by (auto simp: word_sless_alt)
  then have "amount_div_int a m = Some (Inr (amount_add (amount_of_u128 (quotient res) False)
        \<lparr>integral = 0, fraction = fraction a div scast m\<rparr>))"
    using ok a by (subst amount_div_int.simps) (simp add: amount_nonneg res)
  with sum show ?thesis by blast
qed

lemma split_div_bounds:
  fixes x y m :: int
  assumes "0 < m"
  shows "x div m + y div m \<le> (x + y) div m" "(x + y) div m \<le> x div m + y div m + 1"
proof -
  have e: "(x + y) div m = x div m + y div m + (x mod m + y mod m) div m"
    by (rule div_add1_eq)
  have b: "0 \<le> x mod m" "x mod m < m" "0 \<le> y mod m" "y mod m < m"
    using assms by simp_all
  then have "0 \<le> (x mod m + y mod m) div m"
    using assms by (simp add: pos_imp_zdiv_nonneg_iff)
  moreover have "(x mod m + y mod m) div m \<le> 1"
  proof (cases "x mod m + y mod m < m")
    case True
    then show ?thesis
      using b by (subst div_pos_pos_trivial) simp_all
  next
    case False
    let ?s = "x mod m + y mod m"
    have "?s div m = (?s - m + m) div m"
      by simp
    also have "\<dots> = (?s - m) div m + 1"
      using assms by (simp only: div_add_self2)
    also have "(?s - m) div m = 0"
      using False b by (intro div_pos_pos_trivial) linarith+
    finally show ?thesis by simp
  qed
  ultimately show "x div m + y div m \<le> (x + y) div m" "(x + y) div m \<le> x div m + y div m + 1"
    unfolding e by simp_all
qed


text \<open>What the division promises: the sign is that of the exact quotient, and the magnitude is the
  exact quotient rounded towards zero or one unit of the last place below it.\<close>

definition amount_quotient :: "int \<Rightarrow> int \<Rightarrow> int \<Rightarrow> bool" where
  "amount_quotient x m v \<longleftrightarrow>
     (\<exists>q. v = sgn x * sgn m * q \<and> 0 \<le> q \<and> q \<le> \<bar>x\<bar> div \<bar>m\<bar> \<and> \<bar>x\<bar> div \<bar>m\<bar> \<le> q + 1)"

lemma amount_quotient_range:
  assumes "amount_quotient x m v" "amount_range x" "amount_range (- x)" "m \<noteq> 0"
  shows "amount_range (- v)"
proof -
  obtain q where q: "v = sgn x * sgn m * q" "0 \<le> q" "q \<le> \<bar>x\<bar> div \<bar>m\<bar>"
    using assms(1) by (auto simp: amount_quotient_def)
  have "\<bar>x\<bar> div \<bar>m\<bar> \<le> \<bar>x\<bar>"
    using assms(4) by (intro int_div_le_dividend) simp_all
  then have "q < 2147483648000000000000000000"
    using q(3) assms(2,3) by (simp add: amount_range_def abs_if split: if_splits)
  with q(1,2) show ?thesis
    by (auto simp: amount_range_def sgn_if split: if_splits)
qed

lemma amount_quotient_neg:
  "amount_quotient (- x) m v \<longleftrightarrow> amount_quotient x m (- v)"
  "amount_quotient x (- m) v \<longleftrightarrow> amount_quotient x m (- v)"
proof -
  have eq: "v = - t \<longleftrightarrow> - v = t" for t :: int
    by auto
  show "amount_quotient (- x) m v \<longleftrightarrow> amount_quotient x m (- v)"
    "amount_quotient x (- m) v \<longleftrightarrow> amount_quotient x m (- v)"
    by (simp_all only: amount_quotient_def sgn_minus abs_minus_cancel mult_minus_left
        mult_minus_right eq)
qed

lemma sint_one: "sint (m :: u32) = 1 \<Longrightarrow> m = 1"
  by (rule signed_word_eqI) simp

lemma amount_div_int_nonneg:
  assumes ok: "amount_ok a" and a: "0 \<le> amount_val a" and o: "1 \<le> sint m"
  shows "\<exists>r. amount_div_int a m = Some (Inr r) \<and> amount_ok r \<and>
    amount_quotient (amount_val a) (sint m) (amount_val r)"
proof (cases "sint m = 1")
  case True
  then have "m = 1"
    by (rule sint_one)
  then show ?thesis
    using ok a by (subst amount_div_int.simps) (auto simp: amount_quotient_def word_sless_alt sgn_if)
next
  case False
  with o have m2: "2 \<le> sint m" by simp
  let ?q = "sint (integral a) * 1000000000000000000 div sint m + uint (fraction a) div sint m"
  obtain r where r: "amount_div_int a m = Some (Inr r)" "amount_ok r" "amount_val r = ?q"
    using amount_div_int_pos [OF ok a m2] by blast
  have ia: "0 \<le> sint (integral a)"
    using amount_nonneg [OF ok] a by (simp add: word_sless_alt)
  have q0: "0 \<le> ?q"
    using ia m2 by (intro add_nonneg_nonneg) (simp_all add: pos_imp_zdiv_nonneg_iff)
  have b: "?q \<le> amount_val a div sint m" "amount_val a div sint m \<le> ?q + 1"
    using split_div_bounds [of "sint m" "sint (integral a) * 1000000000000000000" "uint (fraction a)"] m2
    by (simp_all add: amount_val_def)
  have "amount_quotient (amount_val a) (sint m) ?q"
  proof (cases "amount_val a = 0")
    case True
    with b q0 have "?q = 0" by simp
    then show ?thesis
      using True by (simp only: amount_quotient_def) auto
  next
    case False
    with a m2 b q0 show ?thesis
      unfolding amount_quotient_def by (intro exI [of _ ?q]) (simp add: sgn_if)
  qed
  with r show ?thesis by auto
qed

lemma amount_div_int_any:
  assumes ok: "amount_ok a" and n: "amount_range (- amount_val a)" and o: "1 \<le> sint m"
  shows "\<exists>r. amount_div_int a m = Some (Inr r) \<and> amount_ok r \<and>
    amount_quotient (amount_val a) (sint m) (amount_val r)"
proof (cases "0 \<le> amount_val a \<or> sint m = 1")
  case True
  then show ?thesis
  proof
    assume "sint m = 1"
    moreover from this have "m = 1"
      by (rule sint_one)
    ultimately show ?thesis
      using ok by (subst amount_div_int.simps)
        (auto simp: amount_quotient_def word_sless_alt sgn_mult_abs
          intro!: exI [of _ "\<bar>amount_val a\<bar>"])
  qed (use amount_div_int_nonneg [OF ok _ o] in simp)
next
  case False
  note na = amount_neg_val [OF ok n]
  obtain r where r: "amount_div_int (amount_neg a) m = Some (Inr r)" "amount_ok r"
    "amount_quotient (- amount_val a) (sint m) (amount_val r)"
    using amount_div_int_nonneg [OF conjunct2 [OF na], of m] na False o by auto
  have "amount_range (- amount_val r)"
    using amount_quotient_range [OF r(3)] amount_val_range [OF ok] n o by simp
  note nr = amount_neg_val [OF r(2) this]
  have "m \<noteq> 0" "m \<noteq> 1" "\<not> m <s 0"
    using o False by (auto simp: word_sless_alt)
  then have "amount_div_int a m = Some (Inr (amount_neg r))"
    using ok False r(1) by (subst amount_div_int.simps) (simp add: amount_nonneg)
  with nr r(3) show ?thesis
    by (auto simp: amount_quotient_neg)
qed

lemma amount_div_int_val:
  assumes ok: "amount_ok a" and n: "amount_range (- amount_val a)"
    and m: "m \<noteq> 0" "sint m \<noteq> - 2147483648"
  shows "\<exists>r. amount_div_int a m = Some (Inr r) \<and> amount_ok r \<and>
    amount_quotient (amount_val a) (sint m) (amount_val r)"
proof (cases "1 \<le> sint m")
  case True
  with ok n show ?thesis by (intro amount_div_int_any)
next
  case False
  have "sint m \<noteq> 0"
    using m(1) by (simp add: signed_eq_0_iff)
  with False have neg: "sint m < 0" by simp
  have sm: "sint (- m) = - sint m"
    using m(2) neg sint_range_32 [of m] by (intro sint_eq_of_range) simp_all
  then obtain r where r: "amount_div_int a (- m) = Some (Inr r)" "amount_ok r"
    "amount_quotient (amount_val a) (- sint m) (amount_val r)"
    using amount_div_int_any [OF ok n, of "- m"] neg by auto
  have "amount_range (- amount_val r)"
    using amount_quotient_range [OF r(3)] amount_val_range [OF ok] n neg by simp
  note nr = amount_neg_val [OF r(2) this]
  have "amount_div_int a m = Some (Inr (amount_neg r))"
    using neg m(1) r(1) by (subst amount_div_int.simps) (simp add: word_sless_alt)
  with nr r(3) show ?thesis
    by (auto simp: amount_quotient_neg)
qed

lemma u128_val_hi_lo: "(hi x \<noteq> 0 \<or> amount_max_fraction \<le> lo x) \<longleftrightarrow> 1000000000000000000 \<le> u128_val x"
proof (cases "hi x = 0")
  case True
  then show ?thesis by (simp add: u128_val_def word_le_nat_alt)
next
  case False
  then have "0 < unat (hi x)" by (simp add: unat_gt_0)
  then have "18446744073709551616 \<le> u128_val x"
    by (simp add: u128_val_def)
  with False show ?thesis by simp
qed

lemma amount_of_ratio_val:
  fixes n d :: u64
  assumes "d \<noteq> 0"
  defines "f \<equiv> (unat n * 1000000000000000000 + unat d div 2) div unat d"
  shows "amount_of_ratio i n d =
    (if f < 1000000000000000000 then Inr \<lparr>integral = i, fraction = of_nat f\<rparr>
     else Inl (Invalid_argument ''Amount::Amount(): Invalid fraction part.''))"
proof -
  let ?x = "u128_add64 (u128_mul n amount_max_fraction) (d div 2)"
  have d2: "unat (d div 2) = unat d div 2"
    by (simp add: unat_div)
  have "unat n * 1000000000000000000 + unat d div 2 < 2 ^ 128"
    using unat_lt_64 [of n] unat_lt_64 [of d] by simp
  then have x: "u128_val ?x = unat n * 1000000000000000000 + unat d div 2"
    by (simp add: u128_add64_val u128_mul_val d2)
  obtain res where res: "u128_div ?x d = Inr res" and q: "u128_val (quotient res) = f"
    using u128_div_total [OF assms(1), of ?x] by (metis x f_def)
  show ?thesis
  proof (cases "f < 1000000000000000000")
    case True
    then have "unat (lo (quotient res)) = f"
      using q u128_val_small [of "quotient res"] by simp
    then have "lo (quotient res) = of_nat f"
      by (metis of_nat_unat ucast_id)
    with True q u128_val_hi_lo [of "quotient res"] show ?thesis
      by (simp add: amount_of_ratio_def res check_fraction_def)
  next
    case False
    with q u128_val_hi_lo [of "quotient res"] show ?thesis
      by (simp add: amount_of_ratio_def res check_fraction_def)
  qed
qed

subsection \<open>Properties\<close>

text \<open>C12: addition, subtraction and negation of amounts are exact and keep the fraction below one,
  whenever the exact result is representable.\<close>

theorem amount_arith_exact:
  assumes "amount_ok a" "amount_ok b"
  shows "(amount_range (amount_val a + amount_val b) \<longrightarrow>
      amount_val (amount_add a b) = amount_val a + amount_val b \<and> amount_ok (amount_add a b)) \<and>
    (amount_range (amount_val a - amount_val b) \<longrightarrow>
      amount_val (amount_sub a b) = amount_val a - amount_val b \<and> amount_ok (amount_sub a b)) \<and>
    (amount_range (- amount_val a) \<longrightarrow>
      amount_val (amount_neg a) = - amount_val a \<and> amount_ok (amount_neg a))"
  using assms amount_add_val amount_sub_val amount_neg_val by blast

theorem amount_arith_exact_witness:
  "amount_val (amount_add \<lparr>integral = 1, fraction = 600000000000000000\<rparr>
      \<lparr>integral = 2, fraction = 500000000000000000\<rparr>) = 4100000000000000000 \<and>
   amount_val (amount_sub \<lparr>integral = 1, fraction = 600000000000000000\<rparr>
      \<lparr>integral = 2, fraction = 500000000000000000\<rparr>) = - 900000000000000000 \<and>
   amount_val (amount_neg \<lparr>integral = 1, fraction = 600000000000000000\<rparr>) = - 1600000000000000000"
  using amount_arith_exact [of "\<lparr>integral = 1, fraction = 600000000000000000\<rparr>"
      "\<lparr>integral = 2, fraction = 500000000000000000\<rparr>"]
  by (simp add: amount_val_def amount_ok_def amount_range_def)



text \<open>The division of an amount by an integer other than 0 and \<open>INT32_MIN\<close> returns a quotient of
  the right sign whose magnitude is the exact quotient rounded towards zero, or one unit of the
  last place below it (the two parts of the dividend are divided separately); division by zero is
  the overflow error.\<close>

theorem amount_div_int_bounds:
  assumes "amount_ok a" "amount_range (- amount_val a)" "sint m \<noteq> - (2 ^ 31)"
  shows "if m = 0 then amount_div_int a m = Some (Inl (Overflow_error ''Amount division by zero''))
    else \<exists>r. amount_div_int a m = Some (Inr r) \<and> amount_ok r \<and>
      amount_quotient (amount_val a) (sint m) (amount_val r)"
  using assms amount_div_int_val [of a m] by (simp add: amount_div_int.simps [of a 0])

theorem amount_div_int_bounds_witness:
  "\<exists>r. amount_div_int \<lparr>integral = 1, fraction = 2\<rparr> (- 3) = Some (Inr r) \<and> amount_ok r \<and>
      amount_quotient 1000000000000000002 (- 3) (amount_val r)"
  using amount_div_int_bounds [of "\<lparr>integral = 1, fraction = 2\<rparr>" "- 3"]
  by (simp add: amount_val_def amount_ok_def amount_range_def)

text \<open>C14: \<open>operator +=\<close> adds the right number of units, but it leaves the class invariant exactly when
  the two fractions add up to one: it compares with \<open>>\<close> where \<open>operator +\<close> compares with \<open>>=\<close>, so
  the carry is missed.  In every other case it agrees with \<open>operator +\<close>.\<close>

theorem amount_add_assign_carry:
  assumes "amount_ok a" "amount_ok b" "amount_range (amount_val a + amount_val b)"
    and "- (2 ^ 31) \<le> sint (integral a) + sint (integral b)"
  shows "amount_val (amount_add_assign a b) = amount_val a + amount_val b \<and>
    (amount_ok (amount_add_assign a b) \<longleftrightarrow> fraction a + fraction b \<noteq> amount_max_fraction) \<and>
    (amount_add_assign a b = amount_add a b \<longleftrightarrow> fraction a + fraction b \<noteq> amount_max_fraction)"
proof -
  have i: "- 2147483648 \<le> sint (integral a) + sint (integral b)"
    using assms(4) by simp
  note aa = amount_add_assign_val [OF assms(1,2,3) i]
  from amount_add_val [OF assms(1-3)] have "amount_ok (amount_add a b)" ..
  with aa show ?thesis by metis
qed

theorem amount_add_assign_carry_witness:
  "amount_add_assign \<lparr>integral = 0, fraction = 500000000000000000\<rparr>
      \<lparr>integral = 0, fraction = 500000000000000000\<rparr> \<noteq>
    amount_add \<lparr>integral = 0, fraction = 500000000000000000\<rparr>
      \<lparr>integral = 0, fraction = 500000000000000000\<rparr>"
  using amount_add_assign_carry [of "\<lparr>integral = 0, fraction = 500000000000000000\<rparr>"
      "\<lparr>integral = 0, fraction = 500000000000000000\<rparr>"]
  by (simp add: amount_val_def amount_ok_def amount_range_def)

text \<open>The six comparison operators order the amounts of the class by the numbers they stand for.\<close>

theorem amount_compare:
  assumes "amount_ok a" "amount_ok b"
  shows "(amount_eq a b \<longleftrightarrow> amount_val a = amount_val b) \<and>
    (amount_lt a b \<longleftrightarrow> amount_val a < amount_val b) \<and>
    (amount_gt a b \<longleftrightarrow> amount_val a > amount_val b) \<and>
    (amount_le a b \<longleftrightarrow> amount_val a \<le> amount_val b) \<and>
    (amount_ge a b \<longleftrightarrow> amount_val a \<ge> amount_val b)"
  using assms amount_lt_val [of a b] amount_lt_val [of b a] amount_val_inj [of a b]
  by (auto simp: amount_le_def amount_ge_def amount_gt_lt amount_eq_def amount_val_def)

theorem amount_compare_witness:
  "amount_lt \<lparr>integral = - 1, fraction = 999999999999999999\<rparr> \<lparr>integral = 0, fraction = 0\<rparr>"
  using amount_compare [of "\<lparr>integral = - 1, fraction = 999999999999999999\<rparr>" "\<lparr>integral = 0, fraction = 0\<rparr>"]
  by (simp add: amount_ok_def amount_val_def)

text \<open>The constructor from an integral part and a ratio rounds the ratio to the nearest unit and
  throws exactly when the rounded fraction reaches one (or the denominator is zero).\<close>

theorem amount_of_ratio_spec:
  "amount_of_ratio i n d =
    (if d = 0 then Inl (Overflow_error ''Division by zero'')
     else let f = (unat n * 10 ^ 18 + unat d div 2) div unat d
          in if f < 10 ^ 18 then Inr \<lparr>integral = i, fraction = of_nat f\<rparr>
             else Inl (Invalid_argument ''Amount::Amount(): Invalid fraction part.''))"
  using amount_of_ratio_val [of d i n]
  by (simp add: Let_def) (simp add: amount_of_ratio_def u128_div_def)

end
