(* ===== verification/OrderedMap.thy ===== *)
theory OrderedMap
  imports Main
begin

text \<open>
  \<open>std::map\<close> as the sources use it (user fields, wallets, the balance cache): an association list
  kept sorted by the strict order of its keys, which is the order in which iteration and
  serialisation visit it.  The order is a parameter; the locale \<open>key_order\<close> states what the
  containers rely on, and the components interpret it for the key types they use.
\<close>

fun map_find :: "('k \<Rightarrow> 'k \<Rightarrow> bool) \<Rightarrow> 'k \<Rightarrow> ('k \<times> 'v) list \<Rightarrow> 'v option" where
  "map_find lt k [] = None"
| "map_find lt k ((k', v) # m) =
     (if lt k k' then None else if lt k' k then map_find lt k m else Some v)"

text \<open>\<open>m[k] = v\<close>: replaces the value of an equivalent key.\<close>

fun map_assign :: "('k \<Rightarrow> 'k \<Rightarrow> bool) \<Rightarrow> 'k \<Rightarrow> 'v \<Rightarrow> ('k \<times> 'v) list \<Rightarrow> ('k \<times> 'v) list" where
  "map_assign lt k v [] = [(k, v)]"
| "map_assign lt k v ((k', v') # m) =
     (if lt k k' then (k, v) # (k', v') # m
      else if lt k' k then (k', v') # map_assign lt k v m
      else (k', v) # m)"

text \<open>\<open>m.emplace(k, v)\<close>: keeps the value of an equivalent key.\<close>

fun map_emplace :: "('k \<Rightarrow> 'k \<Rightarrow> bool) \<Rightarrow> 'k \<Rightarrow> 'v \<Rightarrow> ('k \<times> 'v) list \<Rightarrow> ('k \<times> 'v) list" where
  "map_emplace lt k v [] = [(k, v)]"
| "map_emplace lt k v ((k', v') # m) =
     (if lt k k' then (k, v) # (k', v') # m
      else if lt k' k then (k', v') # map_emplace lt k v m
      else (k', v') # m)"

text \<open>\<open>m.erase(k)\<close>.\<close>

fun map_erase :: "('k \<Rightarrow> 'k \<Rightarrow> bool) \<Rightarrow> 'k \<Rightarrow> ('k \<times> 'v) list \<Rightarrow> ('k \<times> 'v) list" where
  "map_erase lt k [] = []"
| "map_erase lt k ((k', v') # m) =
     (if lt k k' then (k', v') # m
      else if lt k' k then (k', v') # map_erase lt k m
      else m)"

definition map_sorted :: "('k \<Rightarrow> 'k \<Rightarrow> bool) \<Rightarrow> ('k \<times> 'v) list \<Rightarrow> bool" where
  "map_sorted lt m \<longleftrightarrow> sorted_wrt lt (map fst m)"

lemma map_sorted_Nil [simp]: "map_sorted lt []"
  by (simp add: map_sorted_def)

lemma map_sorted_Cons:
  "map_sorted lt ((k, v) # m) \<longleftrightarrow> (\<forall>k' \<in> fst ` set m. lt k k') \<and> map_sorted lt m"
  by (simp add: map_sorted_def)

lemma fst_map_emplace: "fst ` set (map_emplace lt k v m) \<subseteq> insert k (fst ` set m)"
  by (induction lt k v m rule: map_emplace.induct) auto

lemma fst_map_assign: "fst ` set (map_assign lt k v m) \<subseteq> insert k (fst ` set m)"
  by (induction lt k v m rule: map_assign.induct) auto

locale key_order =
  fixes lt :: "'k \<Rightarrow> 'k \<Rightarrow> bool"
  assumes irrefl: "\<not> lt k k"
    and trans: "lt a b \<Longrightarrow> lt b c \<Longrightarrow> lt a c"
    and total: "a \<noteq> b \<Longrightarrow> lt a b \<or> lt b a"
begin

lemma asym: "lt a b \<Longrightarrow> \<not> lt b a"
  using irrefl trans by blast

lemma sorted_distinct: "map_sorted lt m \<Longrightarrow> distinct (map fst m)"
  using irrefl by (induction m) (auto simp: map_sorted_def)

lemma key_cases:
  obtains (less) "lt a b" "\<not> lt b a" "a \<noteq> b" | (equal) "a = b" "\<not> lt a b" "\<not> lt b a"
    | (greater) "lt b a" "\<not> lt a b" "a \<noteq> b"
  using irrefl asym total by metis

lemma find_map_of: "map_sorted lt m \<Longrightarrow> map_find lt k m = map_of m k"
proof (induction m)
  case (Cons e m)
  obtain k' v where e: "e = (k', v)" by (cases e)
  show ?case
  proof (cases k k' rule: key_cases)
    case less
    then have "k \<notin> fst ` set m"
      using Cons.prems irrefl trans unfolding e map_sorted_Cons by blast
    then have "map_of m k = None"
      by (simp add: map_of_eq_None_iff)
    with less show ?thesis by (simp add: e)
  qed (use Cons in \<open>simp_all add: e map_sorted_Cons\<close>)
qed simp

lemma keys_bound:
  "A \<subseteq> insert k B \<Longrightarrow> lt k' k \<Longrightarrow> \<forall>i \<in> B. lt k' i \<Longrightarrow> \<forall>i \<in> A. lt k' i"
  by auto

lemma sorted_assign: "map_sorted lt m \<Longrightarrow> map_sorted lt (map_assign lt k v m)"
proof (induction m)
  case (Cons e m)
  obtain k' v' where e: "e = (k', v')" by (cases e)
  show ?case
  proof (cases k k' rule: key_cases)
    case less
    then show ?thesis
      using Cons.prems trans [OF less(1)] by (simp add: e map_sorted_Cons)
  next
    case greater
    have m: "map_sorted lt m" "\<forall>i \<in> fst ` set m. lt k' i"
      using Cons.prems by (simp_all add: e map_sorted_Cons)
    from keys_bound [OF fst_map_assign greater(1) m(2)] Cons.IH [OF m(1)] greater show ?thesis
      by (simp add: e map_sorted_Cons)
  qed (use Cons in \<open>simp_all add: e map_sorted_Cons\<close>)
qed (simp add: map_sorted_def)

lemma sorted_emplace: "map_sorted lt m \<Longrightarrow> map_sorted lt (map_emplace lt k v m)"
proof (induction m)
  case (Cons e m)
  obtain k' v' where e: "e = (k', v')" by (cases e)
  show ?case
  proof (cases k k' rule: key_cases)
    case less
    then show ?thesis
      using Cons.prems trans [OF less(1)] by (simp add: e map_sorted_Cons)
  next
    case greater
    have m: "map_sorted lt m" "\<forall>i \<in> fst ` set m. lt k' i"
      using Cons.prems by (simp_all add: e map_sorted_Cons)
    from keys_bound [OF fst_map_emplace greater(1) m(2)] Cons.IH [OF m(1)] greater show ?thesis
      by (simp add: e map_sorted_Cons)
  qed (use Cons in \<open>simp_all add: e map_sorted_Cons\<close>)
qed (simp add: map_sorted_def)

lemma map_of_assign: "map_sorted lt m \<Longrightarrow> map_of (map_assign lt k v m) = (map_of m)(k \<mapsto> v)"
proof (induction m)
  case (Cons e m)
  obtain k' v' where e: "e = (k', v')" by (cases e)
  show ?case
    by (cases k k' rule: key_cases) (use Cons in \<open>auto simp: e map_sorted_Cons fun_upd_twist\<close>)
qed simp

lemma find_assign:
  "map_sorted lt m \<Longrightarrow>
    map_find lt k' (map_assign lt k v m) = (if k' = k then Some v else map_find lt k' m)"
  by (simp add: find_map_of sorted_assign map_of_assign)

text \<open>Appending a key above all others, which is what reading back a serialised map does.\<close>

lemma emplace_last:
  "(\<forall>k' \<in> fst ` set m. lt k' k) \<Longrightarrow> map_emplace lt k v m = m @ [(k, v)]"
  by (induction m) (use asym in auto)

end

text \<open>Comparing through an injective view into a linear order.\<close>

lemma key_order_image:
  fixes f :: "'k \<Rightarrow> 'a::linorder"
  assumes "\<And>a b. f a = f b \<Longrightarrow> a = b"
  shows "key_order (\<lambda>a b. f a < f b)"
proof
  show "f a < f b \<or> f b < f a" if "a \<noteq> b" for a b
    using assms [of a b] that neq_iff by blast
qed auto

end
