(* ===== verification/Streams.thy ===== *)
theory Streams
  imports Prelude OrderedMap "HOL-Library.Monad_Syntax"
begin

text \<open>
  The binary streams of \<open>csdb/src/binary_streams.h\<close> and \<open>.cpp\<close>.  An \<open>obstream\<close> is only ever
  appended to, so \<open>put\<close> of a value is the list of bytes it appends and a sequence of puts is the
  concatenation.  An \<open>ibstream\<close> is the list of bytes that are left; \<open>get\<close> returns the value and
  the rest, or nothing where the source returns \<open>false\<close> (every caller then gives the target up).
  Integers are written as they lie in memory, little-endian.  The locale \<open>codec\<close> is the contract
  of a serialisable class; every class that has \<open>put\<close> and \<open>get\<close> interprets it.
\<close>

subsection \<open>Integers, strings and byte arrays\<close>

primrec le_bytes :: "nat \<Rightarrow> 'a::len word \<Rightarrow> byte_array" where
  "le_bytes 0 w = []"
| "le_bytes (Suc n) w = ucast w # le_bytes n (drop_bit 8 w)"

primrec le_word :: "byte_array \<Rightarrow> 'a::len word" where
  "le_word [] = 0"
| "le_word (b # bs) = ucast b OR push_bit 8 (le_word bs)"

definition put_int :: "'a::len word \<Rightarrow> byte_array" where
  "put_int value = le_bytes (LENGTH('a) div 8) value"

definition get_int :: "byte_array \<Rightarrow> ('a::len word \<times> byte_array) option" where
  "get_int is =
     (if LENGTH('a) div 8 \<le> length is
      then Some (le_word (take (LENGTH('a) div 8) is), drop (LENGTH('a) div 8) is)
      else None)"

abbreviation get_u8 :: "byte_array \<Rightarrow> (u8 \<times> byte_array) option" where "get_u8 \<equiv> get_int"
abbreviation get_u32 :: "byte_array \<Rightarrow> (u32 \<times> byte_array) option" where "get_u32 \<equiv> get_int"
abbreviation get_u64 :: "byte_array \<Rightarrow> (u64 \<times> byte_array) option" where "get_u64 \<equiv> get_int"

definition get_raw :: "nat \<Rightarrow> byte_array \<Rightarrow> (byte_array \<times> byte_array) option" where
  "get_raw sz is = (if length is < sz then None else Some (take sz is, drop sz is))"

definition put_string :: "string \<Rightarrow> byte_array" where
  "put_string value = put_int (of_nat (length value) :: u32) @ map char_byte value"

definition get_string :: "byte_array \<Rightarrow> (string \<times> byte_array) option" where
  "get_string is = do {
     (sz, is) \<leftarrow> get_u32 is;
     (if length is < unat sz then None
      else Some (map byte_char (take (unat sz) is), drop (unat sz) is)) }"

definition put_byte_array :: "byte_array \<Rightarrow> byte_array" where
  "put_byte_array value = put_int (of_nat (length value) :: u64) @ value"

definition get_byte_array :: "byte_array \<Rightarrow> (byte_array \<times> byte_array) option" where
  "get_byte_array is = do {
     (sz, is) \<leftarrow> get_u64 is;
     (if length is < unat sz then None
      else Some (take (unat sz) is, drop (unat sz) is)) }"

subsection \<open>Maps\<close>

definition put_map :: "('k \<Rightarrow> byte_array) \<Rightarrow> ('v \<Rightarrow> byte_array) \<Rightarrow> ('k \<times> 'v) list \<Rightarrow> byte_array" where
  "put_map put_key put_val value =
     put_int (of_nat (length value) :: u64) @
     concat (map (\<lambda>(k, v). put_key k @ put_val v) value)"

definition put_smart :: "('v \<Rightarrow> byte_array) \<Rightarrow> ('k \<times> 'v) list \<Rightarrow> byte_array" where
  "put_smart put_val value =
     put_int (of_nat (length value) :: u32) @ concat (map (\<lambda>(k, v). put_val v) value)"

primrec get_map_loop ::
  "('k \<Rightarrow> 'k \<Rightarrow> bool) \<Rightarrow> (byte_array \<Rightarrow> ('k \<times> byte_array) option) \<Rightarrow>
   (byte_array \<Rightarrow> ('v \<times> byte_array) option) \<Rightarrow>
   nat \<Rightarrow> ('k \<times> 'v) list \<Rightarrow> byte_array \<Rightarrow> (('k \<times> 'v) list \<times> byte_array) option" where
  "get_map_loop lt get_key get_val 0 value is = Some (value, is)"
| "get_map_loop lt get_key get_val (Suc n) value is = do {
     (key, is) \<leftarrow> get_key is;
     (val, is) \<leftarrow> get_val is;
     get_map_loop lt get_key get_val n (map_emplace lt key val value) is }"

definition get_map ::
  "('k \<Rightarrow> 'k \<Rightarrow> bool) \<Rightarrow> (byte_array \<Rightarrow> ('k \<times> byte_array) option) \<Rightarrow>
   (byte_array \<Rightarrow> ('v \<times> byte_array) option) \<Rightarrow>
   byte_array \<Rightarrow> (('k \<times> 'v) list \<times> byte_array) option" where
  "get_map lt get_key get_val is = do {
     (sz, is) \<leftarrow> get_u64 is;
     get_map_loop lt get_key get_val (unat sz) [] is }"

subsection \<open>The contract of a serialisable class\<close>

text \<open>A reader is local when it consumes a prefix of the stream and does not look past it.\<close>

definition local_reader :: "(byte_array \<Rightarrow> ('a \<times> byte_array) option) \<Rightarrow> bool" where
  "local_reader get \<longleftrightarrow> (\<forall>is v rest. get is = Some (v, rest) \<longrightarrow>
     (\<exists>used. is = used @ rest \<and> (\<forall>more. get (used @ more) = Some (v, more))))"

named_theorems local_intros \<open>locality of composed readers\<close>

text \<open>What is written can be read back, whatever follows it, and reading is local.\<close>

locale codec =
  fixes ok :: "'a \<Rightarrow> bool"
    and put :: "'a \<Rightarrow> byte_array"
    and get :: "byte_array \<Rightarrow> ('a \<times> byte_array) option"
  assumes get_put: "ok v \<Longrightarrow> get (put v @ rest) = Some (v, rest)"
    and get_local: "local_reader get"
begin

lemma get_put_end: "ok v \<Longrightarrow> get (put v) = Some (v, [])"
  using get_put [of v "[]"] by simp

lemma get_length: "get is = Some (v, rest) \<Longrightarrow> length rest \<le> length is"
  using get_local by (fastforce simp: local_reader_def)

text \<open>The encoding is prefix-free: two values whose encodings start the same bytes are equal.\<close>

lemma put_inj: "ok v \<Longrightarrow> ok w \<Longrightarrow> put v @ r = put w @ s \<Longrightarrow> v = w \<and> r = s"
  by (metis get_put option.inject prod.inject)

lemma put_eq_iff: "ok v \<Longrightarrow> ok w \<Longrightarrow> put v = put w \<longleftrightarrow> v = w"
  by (metis put_inj)

end

subsection \<open>Little-endian words\<close>

lemma length_le_bytes [simp]: "length (le_bytes n w) = n"
  by (induction n arbitrary: w) simp_all

lemma le_bytes_eq_Nil [simp]: "le_bytes n w = [] \<longleftrightarrow> n = 0"
  by (metis length_0_conv length_le_bytes)

lemma length_put_int [simp]:
  "length (put_int (a :: u8)) = 1" "length (put_int (b :: u32)) = 4" "length (put_int (c :: u64)) = 8"
  by (simp_all add: put_int_def)

lemma bit_le_word:
  "bit (le_word bs :: 'a::len word) k \<longleftrightarrow>
     k < LENGTH('a) \<and> k div 8 < length bs \<and> bit (bs ! (k div 8)) (k mod 8)"
proof (induction bs arbitrary: k)
  case (Cons b bs)
  have "bit (le_word (b # bs) :: 'a word) k \<longleftrightarrow>
      k < LENGTH('a) \<and> (bit b k \<or> 8 \<le> k \<and> bit (le_word bs :: 'a word) (k - 8))"
    by (auto simp: bit_or_iff bit_push_bit_iff bit_ucast_iff)
  also have "\<dots> \<longleftrightarrow> k < LENGTH('a) \<and> k div 8 < length (b # bs) \<and> bit ((b # bs) ! (k div 8)) (k mod 8)"
  proof (cases "k < 8")
    case True
    then show ?thesis by simp
  next
    case False
    then obtain j where k: "k = j + 8"
      by (metis add.commute le_add_diff_inverse not_less)
    have "\<not> bit b k"
      by (auto simp: k dest: bit_imp_le_length)
    moreover have "(j + 8) div 8 = Suc (j div 8)"
      by simp
    ultimately show ?thesis by (auto simp: k Cons simp del: div_add_self2)
  qed
  finally show ?case .
qed simp

lemma le_bytes_nth: "i < n \<Longrightarrow> le_bytes n w ! i = ucast (drop_bit (8 * i) w)"
proof (induction n arbitrary: w i)
  case (Suc n)
  then show ?case by (cases i) (simp_all add: add.commute)
qed simp

lemma le_word_le_bytes: "LENGTH('a) \<le> 8 * n \<Longrightarrow> le_word (le_bytes n w) = (w :: 'a::len word)"
proof (rule bit_word_eqI)
  fix k assume n: "LENGTH('a) \<le> 8 * n" and k: "k < LENGTH('a)"
  then have "k div 8 < n" by linarith
  then show "bit (le_word (le_bytes n w) :: 'a word) k = bit w k"
    using k by (simp add: bit_le_word le_bytes_nth bit_ucast_iff bit_drop_bit_eq)
qed

lemma le_bytes_le_word:
  "8 * length bs \<le> LENGTH('a) \<Longrightarrow> le_bytes (length bs) (le_word bs :: 'a::len word) = bs"
proof (rule nth_equalityI)
  fix i assume n: "8 * length bs \<le> LENGTH('a)" and "i < length (le_bytes (length bs) (le_word bs :: 'a word))"
  then have i: "i < length bs" by simp
  show "le_bytes (length bs) (le_word bs :: 'a word) ! i = bs ! i"
  proof (rule bit_word_eqI)
    fix k assume "k < LENGTH(8)"
    then have "k < 8" by simp
    then have "(8 * i + k) div 8 = i" "(8 * i + k) mod 8 = k" "8 * i + k < LENGTH('a)"
      using i n by simp_all
    then show "bit (le_bytes (length bs) (le_word bs :: 'a word) ! i) k = bit (bs ! i) k"
      using i \<open>k < 8\<close> by (simp add: le_bytes_nth bit_ucast_iff bit_drop_bit_eq bit_le_word)
  qed
qed simp

subsection \<open>The codecs of the basic types\<close>

lemma get_int_put:
  "LENGTH('a) = 8 * n \<Longrightarrow> get_int (put_int v @ rest) = Some (v :: 'a::len word, rest)"
  by (simp add: get_int_def put_int_def le_word_le_bytes)

lemma local_int [local_intros]: "local_reader (get_int :: byte_array \<Rightarrow> ('a::len word \<times> byte_array) option)"
  unfolding local_reader_def
proof (intro allI impI)
  fix "is" rest and v :: "'a word"
  let ?n = "LENGTH('a) div 8"
  assume "get_int is = Some (v, rest)"
  then have "?n \<le> length is" "v = le_word (take ?n is)" "rest = drop ?n is"
    by (auto simp: get_int_def split: if_splits)
  then show "\<exists>used. is = used @ rest \<and> (\<forall>more. get_int (used @ more) = Some (v, more))"
    by (intro exI [of _ "take ?n is"]) (simp add: get_int_def min_def)
qed

lemmas get_int_put_8 [simp] = get_int_put [where 'a = 8 and n = 1, simplified]
lemmas get_int_put_16 [simp] = get_int_put [where 'a = 16 and n = 2, simplified]
lemmas get_int_put_32 [simp] = get_int_put [where 'a = 32 and n = 4, simplified]
lemmas get_int_put_64 [simp] = get_int_put [where 'a = 64 and n = 8, simplified]

interpretation u8_codec: codec "\<lambda>_. True" "put_int :: u8 \<Rightarrow> byte_array" get_int
  by unfold_locales (simp_all add: local_int)

interpretation u32_codec: codec "\<lambda>_. True" "put_int :: u32 \<Rightarrow> byte_array" get_int
  by unfold_locales (simp_all add: local_int)

interpretation u64_codec: codec "\<lambda>_. True" "put_int :: u64 \<Rightarrow> byte_array" get_int
  by unfold_locales (simp_all add: local_int)

text \<open>Reading a block of a given length.\<close>

lemma local_block [local_intros]:
  "local_reader (\<lambda>is. if length is < n then None else Some (f (take n is), drop n is))"
  unfolding local_reader_def
proof (intro allI impI)
  fix "is" v rest
  assume "(if length is < n then None else Some (f (take n is), drop n is)) = Some (v, rest)"
  then show "\<exists>used. is = used @ rest \<and>
    (\<forall>more. (if length (used @ more) < n then None else Some (f (take n (used @ more)), drop n (used @ more)))
      = Some (v, more))"
    by (intro exI [of _ "take n is"]) (auto split: if_splits)
qed

text \<open>Reading one value after another.\<close>

lemma local_bind [local_intros]:
  assumes a: "local_reader get_a" and b: "\<And>x. local_reader (get_b x)"
  shows "local_reader (\<lambda>is. Option.bind (get_a is) (\<lambda>(x, is). get_b x is))"
  unfolding local_reader_def
proof (intro allI impI)
  fix "is" v rest
  assume "Option.bind (get_a is) (\<lambda>(x, is). get_b x is) = Some (v, rest)"
  then obtain x is1 where 1: "get_a is = Some (x, is1)" and 2: "get_b x is1 = Some (v, rest)"
    by (auto simp: bind_eq_Some_conv)
  obtain u1 where u1: "is = u1 @ is1" "\<And>more. get_a (u1 @ more) = Some (x, more)"
    using a 1 unfolding local_reader_def by blast
  obtain u2 where u2: "is1 = u2 @ rest" "\<And>more. get_b x (u2 @ more) = Some (v, more)"
    using b 2 unfolding local_reader_def by blast
  show "\<exists>used. is = used @ rest \<and>
    (\<forall>more. Option.bind (get_a (used @ more)) (\<lambda>(x, is). get_b x is) = Some (v, more))"
    by (intro exI [of _ "u1 @ u2"]) (simp add: u1 u2)
qed

lemma local_return [local_intros]: "local_reader (\<lambda>is. Some (c, is))"
  by (simp add: local_reader_def)

lemma local_fail [local_intros]: "local_reader (\<lambda>is. None)"
  by (simp add: local_reader_def)

lemma local_if [local_intros]:
  "local_reader a \<Longrightarrow> local_reader b \<Longrightarrow> local_reader (\<lambda>is. if c then a is else b is)"
  by (cases c) simp_all

interpretation string_codec: codec "\<lambda>v. length v < 2 ^ 32" put_string get_string
proof
  show "get_string (put_string v @ rest) = Some (v, rest)" if "length v < 2 ^ 32" for v rest
    using that by (simp add: get_string_def put_string_def unat_of_nat take_bit_nat_eq_self comp_def)
qed (unfold get_string_def, intro local_intros)

interpretation bytes_codec: codec "\<lambda>v. length v < 2 ^ 64" put_byte_array get_byte_array
proof
  show "get_byte_array (put_byte_array v @ rest) = Some (v, rest)" if "length v < 2 ^ 64" for v rest
    using that by (simp add: get_byte_array_def put_byte_array_def unat_of_nat take_bit_nat_eq_self)
qed (unfold get_byte_array_def, intro local_bind local_int local_block [where f = "\<lambda>v. v"])

subsection \<open>The codec of a map\<close>

text \<open>A map of a serialisable key and value type is serialisable: it is written in the order of its
  keys, so that every key that is read goes to the end.\<close>

definition map_ok :: "('k \<Rightarrow> 'k \<Rightarrow> bool) \<Rightarrow> ('k \<Rightarrow> bool) \<Rightarrow> ('v \<Rightarrow> bool) \<Rightarrow> ('k \<times> 'v) list \<Rightarrow> bool" where
  "map_ok lt key_ok val_ok m \<longleftrightarrow>
     map_sorted lt m \<and> length m < 2 ^ 64 \<and> (\<forall>(k, v) \<in> set m. key_ok k \<and> val_ok v)"

locale map_codec = key_order lt + key: codec key_ok put_key get_key + val: codec val_ok put_val get_val
  for lt :: "'k \<Rightarrow> 'k \<Rightarrow> bool" and key_ok :: "'k \<Rightarrow> bool" and put_key get_key
    and val_ok :: "'v \<Rightarrow> bool" and put_val get_val
begin

lemma get_map_loop_put:
  "map_sorted lt (m @ n) \<Longrightarrow> \<forall>(k, v) \<in> set n. key_ok k \<and> val_ok v \<Longrightarrow>
    get_map_loop lt get_key get_val (length n) m
      (concat (map (\<lambda>(k, v). put_key k @ put_val v) n) @ rest) = Some (m @ n, rest)"
proof (induction n arbitrary: m)
  case (Cons e n)
  obtain k v where e: "e = (k, v)" by (cases e)
  have "map_emplace lt k v m = m @ [(k, v)]"
    using Cons.prems(1) by (intro emplace_last) (auto simp: e map_sorted_def sorted_wrt_append)
  with Cons.IH [of "m @ [(k, v)]"] Cons.prems show ?case
    by (simp add: e key.get_put val.get_put)
qed simp

lemma local_map_loop: "local_reader (get_map_loop lt get_key get_val n m)"
proof (induction n arbitrary: m)
  case (Suc n)
  show ?case
    unfolding get_map_loop.simps by (intro local_bind key.get_local val.get_local Suc)
qed (simp add: local_reader_def)

lemma get_map_put: "map_ok lt key_ok val_ok m \<Longrightarrow> get_map lt get_key get_val (put_map put_key put_val m @ rest) = Some (m, rest)"
  using get_map_loop_put [of "[]" m]
  by (simp add: map_ok_def get_map_def put_map_def unat_of_nat take_bit_nat_eq_self)

lemma get_map_local: "local_reader (get_map lt get_key get_val)"
  unfolding get_map_def by (intro local_bind local_int local_map_loop)

end

sublocale map_codec \<subseteq> map: codec "map_ok lt key_ok val_ok" "put_map put_key put_val" "get_map lt get_key get_val"
  by unfold_locales (simp_all add: get_map_put get_map_local)

end
