(* ===== verification/IntegralEncDec.thy ===== *)
theory IntegralEncDec
  imports Streams
begin

text \<open>
  The compact integer coding of \<open>csdb/src/integral_encdec.h\<close> and \<open>.cpp\<close> and the byte order
  helpers of \<open>csdb/include/csdb/internal/endian.h\<close>.  A 64-bit value takes one to nine bytes: the
  number of trailing ones of the first byte is the number of bytes that follow.  The intrinsic
  \<open>__builtin_clzl\<close> is undefined at 0, which the encoder reaches for the values 0 and -1; its result
  there is the parameter \<open>clz0\<close>, and the round trip holds for every value of it.
\<close>

subsection \<open>Byte order\<close>

fun reverse_byte_order :: "nat \<Rightarrow> 'a::len word \<Rightarrow> 'a word" where
  "reverse_byte_order 0 v = v"
| "reverse_byte_order (Suc 0) v = v"
| "reverse_byte_order (Suc n) v = push_bit (n * 8) (v AND 0xFF) OR reverse_byte_order n (drop_bit 8 v)"

definition to_little_endian :: "u64 \<Rightarrow> u64" where
  "to_little_endian v = v"

definition from_little_endian :: "u64 \<Rightarrow> u64" where
  "from_little_endian v = v"

definition to_big_endian :: "u64 \<Rightarrow> u64" where
  "to_big_endian v = reverse_byte_order 8 v"

definition from_big_endian :: "u64 \<Rightarrow> u64" where
  "from_big_endian v = reverse_byte_order 8 v"

subsection \<open>The coding\<close>

definition encode_bool :: "bool \<Rightarrow> byte_array" where
  "encode_bool value = [if value then 1 else 0]"

definition decode_bool :: "byte_array \<Rightarrow> (bool \<times> nat) option" where
  "decode_bool buf = (case buf of [] \<Rightarrow> None | d # _ \<Rightarrow> Some (d \<noteq> 0, 1))"

primrec leading_zeros :: "nat \<Rightarrow> u64 \<Rightarrow> nat" where
  "leading_zeros 0 x = 0"
| "leading_zeros (Suc n) x = (if bit x n then 0 else Suc (leading_zeros n x))"

definition builtin_clzl :: "u64 \<Rightarrow> u64 \<Rightarrow> u64" where
  "builtin_clzl clz0 x = (if x = 0 then clz0 else of_nat (leading_zeros 64 x))"

definition encode_bits :: "u64 \<Rightarrow> u64 \<Rightarrow> u64" where
  "encode_bits clz0 value =
     (let copy = (if value AND 0x8000000000000000 \<noteq> 0 then NOT value else value);
          bits = (builtin_clzl clz0 copy XOR 63) + 2
      in if bits < 7 then 7 else bits)"

definition encode :: "u64 \<Rightarrow> u64 \<Rightarrow> byte_array" where
  "encode clz0 v =
     (let value = to_little_endian v; bits = encode_bits clz0 value
      in if bits < 57
         then (let bytes = unat ((bits - 1) div 7);
                   first = ucast (push_bit (bytes + 1) value OR (push_bit bytes 1 - 1)) :: u8
               in first # le_bytes bytes (drop_bit (7 - bytes) value))
         else 0xFF # le_bytes 8 value)"

function trailing_ones :: "u8 \<Rightarrow> nat" where
  "trailing_ones m = (if m AND 1 \<noteq> 0 then Suc (trailing_ones (drop_bit 1 m)) else 0)"
  by auto

termination
proof (relation "measure unat")
  fix m :: u8
  assume "m AND 1 \<noteq> 0"
  then have "0 < unat m"
    by (metis and_zero_eq bit_0_eq gr0I unat_eq_zero zero_and_eq)
  then show "(drop_bit 1 m, m) \<in> measure unat"
    by (simp add: unat_drop_bit)
qed simp

declare trailing_ones.simps [simp del]

definition decode :: "byte_array \<Rightarrow> (u64 \<times> nat) option" where
  "decode buf =
     (case buf of [] \<Rightarrow> None
      | first # d \<Rightarrow>
        (let bytes = trailing_ones first in
         if length buf < bytes + 1 then None
         else let val = le_word (take bytes d);
                  val = (if bytes < 8
                         then (let val = push_bit (7 - bytes) val OR ucast (drop_bit (bytes + 1) first)
                               in if buf ! bytes AND 0x80 \<noteq> 0
                                  then val OR push_bit ((bytes + 1) * 7) (- 1) else val)
                         else val)
              in Some (from_little_endian val, bytes + 1)))"

text \<open>The templates for the other integral types go through the 64-bit coding.\<close>

definition encode_i32 :: "u64 \<Rightarrow> u32 \<Rightarrow> byte_array" where
  "encode_i32 clz0 v = encode clz0 (scast v)"

definition decode_i32 :: "byte_array \<Rightarrow> (u32 \<times> nat) option" where
  "decode_i32 buf = map_option (\<lambda>(v, n). (ucast v, n)) (decode buf)"

lemma odd_byte: "(m :: u8) AND 1 \<noteq> 0 \<longleftrightarrow> bit m 0"
  by (simp add: bit_0 and_one_eq odd_iff_mod_2_eq_one)

subsection \<open>Byte order is reversed\<close>

lemma bit_reverse_byte_order:
  "0 < n \<Longrightarrow> 8 * n \<le> LENGTH('a) \<Longrightarrow> \<forall>k. bit v k \<longrightarrow> k < 8 * n \<Longrightarrow>
    bit (reverse_byte_order n (v :: 'a::len word)) i \<longleftrightarrow>
    i < 8 * n \<and> bit v (8 * (n - 1 - i div 8) + i mod 8)"
proof (induction n v arbitrary: i rule: reverse_byte_order.induct)
  case (3 m v)
  let ?n = "Suc m"
  have "bit (drop_bit 8 v) k \<longrightarrow> k < 8 * ?n" for k
    using "3.prems"(3) by (auto simp: bit_drop_bit_eq dest: spec [of _ "8 + k"])
  then have IH: "bit (reverse_byte_order ?n (drop_bit 8 v)) i \<longleftrightarrow>
      i < 8 * ?n \<and> bit v (8 + (8 * (?n - 1 - i div 8) + i mod 8))"
    using "3.IH" "3.prems"(2) by (simp add: bit_drop_bit_eq)
  have m8: "(0xFF :: 'a word) = mask 8"
    by (simp add: mask_eq_exp_minus_1)
  have hd: "bit (push_bit (?n * 8) (v AND 0xFF)) i \<longleftrightarrow>
      8 * ?n \<le> i \<and> i < 8 * Suc ?n \<and> bit v (i - 8 * ?n)"
    using "3.prems"(2) by (auto simp: m8 bit_simps mult.commute [of m])
  show ?case
  proof (cases "i < 8 * ?n")
    case True
    then have "i div 8 < ?n" by (simp add: div_less_iff_less_mult)
    then have eq: "8 + (8 * (?n - 1 - i div 8) + i mod 8) = 8 * (Suc ?n - 1 - i div 8) + i mod 8"
      by (simp add: algebra_simps Suc_diff_le)
    show ?thesis
      unfolding reverse_byte_order.simps bit_or_iff hd IH eq using True by auto
  next
    case False
    show ?thesis
    proof (cases "i < 8 * Suc ?n")
      case True
      with False have q: "i div 8 = ?n"
        by (intro div_nat_eqI) simp_all
      then have "i mod 8 = i - 8 * ?n"
        using minus_mult_div_eq_mod [of i 8] by simp
      note q this
      with False True IH hd show ?thesis by (simp add: bit_or_iff)
    qed (use False IH hd in \<open>simp add: bit_or_iff\<close>)
  qed
qed auto

subsection \<open>The width of a value\<close>

lemma leading_zeros_spec:
  "\<exists>k < n. bit x k \<Longrightarrow>
    leading_zeros n x < n \<and> bit x (n - 1 - leading_zeros n x) \<and>
    (\<forall>k. n - 1 - leading_zeros n x < k \<and> k < n \<longrightarrow> \<not> bit x k)"
proof (induction n)
  case (Suc n)
  show ?case
  proof (cases "bit x n")
    case False
    then have "\<exists>k < n. bit x k"
      using Suc.prems less_Suc_eq by auto
    with Suc.IH False show ?thesis
      by (auto simp: less_Suc_eq)
  qed (auto simp: less_Suc_eq)
qed simp

lemma xor_63: "n < 64 \<Longrightarrow> (of_nat n XOR 63 :: u64) = of_nat (63 - n)"
proof -
  assume n: "n < 64"
  have m: "(63 :: u64) = mask 6"
    by (simp add: mask_eq_exp_minus_1)
  have hi: "k < 6" if "bit n k" for k
  proof -
    have "n = take_bit 6 n"
      using n by (simp add: take_bit_nat_eq_self)
    then show ?thesis
      using that by (metis bit_take_bit_iff)
  qed
  have "(of_nat n XOR 63 :: u64) + of_nat n = (of_nat n XOR 63) OR of_nat n"
    using hi by (subst disjunctive_add) (auto simp: m bit_simps)
  also have "\<dots> = 63"
    using hi by (intro bit_word_eqI) (auto simp: m bit_simps)
  finally have "(of_nat n XOR 63 :: u64) = 63 - of_nat n"
    by (simp add: eq_diff_eq)
  then show ?thesis
    using n by (simp add: of_nat_diff)
qed

lemma encode_bits_width:
  fixes v :: u64
  assumes k: "unat (encode_bits clz0 v) - 1 \<le> k" "k < 64"
  shows "bit v k = bit v 63"
proof -
  define copy where "copy = (if v AND 0x8000000000000000 \<noteq> 0 then NOT v else v)"
  have copy63: "\<not> bit copy 63"
    by (auto simp: copy_def sign_bit_64 bit_not_iff)
  have copy_bit: "bit copy k \<longleftrightarrow> bit v k \<noteq> bit v 63"
    using k(2) by (auto simp: copy_def sign_bit_64 bit_not_iff)
  show ?thesis
  proof (cases "copy = 0")
    case True
    with copy_bit show ?thesis by simp
  next
    case False
    then obtain j where "bit copy j" and "j < 64"
      using bit_word_eqI [of copy 0] by auto
    then have lz: "leading_zeros 64 copy < 64"
      "\<forall>k. 63 - leading_zeros 64 copy < k \<and> k < 64 \<longrightarrow> \<not> bit copy k"
      using leading_zeros_spec [of 64 copy] by auto
    let ?m = "63 - leading_zeros 64 copy"
    have "(builtin_clzl clz0 copy XOR 63) + 2 = of_nat (?m + 2)"
      using False lz(1) by (simp add: builtin_clzl_def xor_63)
    then have "unat ((builtin_clzl clz0 copy XOR 63) + 2) = ?m + 2"
      by (simp only: unat_of_nat) (simp add: take_bit_nat_eq_self)
    then have "?m + 2 \<le> unat (encode_bits clz0 v)"
      unfolding encode_bits_def copy_def [symmetric] Let_def by (simp add: word_less_nat_alt)
    with k(1) have "?m < k" by linarith
    with lz(2) k(2) copy_bit show ?thesis by simp
  qed
qed

lemma encode_bits_ge: "7 \<le> unat (encode_bits clz0 v)"
  by (simp add: encode_bits_def Let_def word_less_nat_alt not_less)

subsection \<open>The round trip\<close>

lemma trailing_ones_eqI:
  "(\<And>i. i < b \<Longrightarrow> bit m i) \<Longrightarrow> \<not> bit m b \<Longrightarrow> trailing_ones m = b"
proof (induction b arbitrary: m)
  case 0
  then show ?case by (subst trailing_ones.simps) (simp add: odd_byte)
next
  case (Suc b)
  have "trailing_ones (drop_bit 1 m) = b"
    using Suc.prems by (intro Suc.IH) (auto simp: bit_drop_bit_eq)
  with Suc.prems(1) [of 0] show ?case
    by (subst trailing_ones.simps) (simp add: odd_byte)
qed

lemma trailing_ones_255: "trailing_ones 0xFF = 8"
proof (rule trailing_ones_eqI)
  have m: "(0xFF :: u8) = mask 8"
    by (simp add: mask_eq_exp_minus_1)
  show "bit (0xFF :: u8) i" if "i < 8" for i
    unfolding m using that by (simp only: bit_mask_iff) simp
  show "\<not> bit (0xFF :: u8) 8"
    by (auto dest: bit_imp_le_length)
qed

lemma bit_first:
  "b \<le> 7 \<Longrightarrow> bit (ucast (push_bit (b + 1) v OR (push_bit b 1 - 1)) :: u8) i \<longleftrightarrow>
    i < 8 \<and> (i < b \<or> b < i \<and> bit (v :: u64) (i - (b + 1)))"
proof -
  assume b: "b \<le> 7"
  have m: "(push_bit b 1 - 1 :: u64) = mask b"
    by (simp add: mask_eq_exp_minus_1)
  show ?thesis
    unfolding m using b
    by (simp only: bit_ucast_iff bit_or_iff bit_mask_iff bit_push_bit_iff possible_bit_word) auto
qed

lemma bit_byte_128: "(x :: u8) AND 0x80 \<noteq> 0 \<longleftrightarrow> bit x 7"
proof -
  have eq: "(0x80 :: u8) = push_bit 7 1"
    by simp
  have "bit (x AND 0x80) n \<longleftrightarrow> n = 7 \<and> bit x 7" for n
    unfolding eq by (simp only: bit_and_iff bit_push_bit_iff bit_1_iff possible_bit_word) auto
  then show ?thesis
    by (metis bit_0_eq bot_apply bot_bool_def bit_eqI)
qed

lemma decode_short:
  fixes v :: u64 and b :: nat
  assumes b: "b \<le> 7" and sign: "\<And>k. 7 * b + 6 \<le> k \<Longrightarrow> k < 64 \<Longrightarrow> bit v k = bit v 63"
  defines "first \<equiv> ucast (push_bit (b + 1) v OR (push_bit b 1 - 1)) :: u8"
  shows "decode ((first # le_bytes b (drop_bit (7 - b) v)) @ rest) = Some (v, b + 1)"
proof -
  let ?d = "le_bytes b (drop_bit (7 - b) v)"
  let ?buf = "first # ?d @ rest"
  note fb = bit_first [OF b, of v, folded first_def]
  have ones: "trailing_ones first = b"
    by (rule trailing_ones_eqI) (use b in \<open>auto simp: fb\<close>)
  have last: "bit (?buf ! b) 7 \<longleftrightarrow> bit v 63"
  proof (cases b)
    case 0
    then show ?thesis using sign [of 6] by (simp add: fb)
  next
    case (Suc c)
    then have "?buf ! b = ucast (drop_bit (8 * c) (drop_bit (7 - b) v))"
      by (simp add: nth_append le_bytes_nth del: le_bytes.simps)
    moreover have "8 * c + (7 - b) + 7 = 7 * b + 6"
      using b Suc by simp
    ultimately show ?thesis
      using sign [of "7 * b + 6"] b by (simp add: bit_ucast_iff bit_drop_bit_eq add.assoc add.commute)
  qed
  define val where "val = push_bit (7 - b) (le_word ?d :: u64) OR ucast (drop_bit (b + 1) first)"
  have val: "bit val k \<longleftrightarrow> k < 7 * b + 7 \<and> bit v k" for k
  proof (cases "k < 7 - b")
    case True
    then show ?thesis
      by (auto simp: val_def bit_or_iff bit_push_bit_iff bit_ucast_iff bit_drop_bit_eq fb)
  next
    case False
    have "(k - (7 - b)) div 8 < b \<longleftrightarrow> k < 7 * b + 7"
      using False b by (auto simp: div_less_iff_less_mult)
    moreover have "8 * (j div 8) + j mod 8 = j" for j :: nat by simp
    ultimately show ?thesis
      using False by (auto simp: val_def bit_or_iff bit_push_bit_iff bit_ucast_iff bit_drop_bit_eq fb
          bit_le_word le_bytes_nth dest: bit_imp_le_length)
  qed
  have top: "bit (push_bit ((b + 1) * 7) (- 1 :: u64)) k \<longleftrightarrow> 7 * b + 7 \<le> k" if "k < 64" for k
    using that by (simp only: bit_push_bit_iff bit_minus_1_iff possible_bit_word) auto
  have "(if ?buf ! b AND 0x80 \<noteq> 0 then val OR push_bit ((b + 1) * 7) (- 1) else val) = v"
  proof (rule bit_word_eqI)
    fix k assume "k < LENGTH(64)"
    then have k: "k < 64" by simp
    have "bit v k = bit v 63" if "7 * b + 7 \<le> k"
      using sign [of k] that k by simp
    then show "bit (if ?buf ! b AND 0x80 \<noteq> 0 then val OR push_bit ((b + 1) * 7) (- 1) else val) k = bit v k"
      unfolding bit_byte_128 last
      by (cases "bit v 63"; cases "7 * b + 7 \<le> k") (simp_all only: if_True if_False bit_or_iff val top [OF k], auto)
  qed
  from this [unfolded val_def] b show ?thesis
    by (simp add: decode_def ones Let_def from_little_endian_def split: if_splits)
qed

lemma decode_long: "decode ((0xFF # le_bytes 8 v) @ rest) = Some (v, 9)"
  by (simp add: decode_def trailing_ones_255 Let_def from_little_endian_def le_word_le_bytes
      del: le_bytes.simps)

definition encoded_size :: "u64 \<Rightarrow> nat" where
  "encoded_size bits = (if bits < 57 then unat ((bits - 1) div 7) + 1 else 9)"

lemma length_encode: "length (encode clz0 v) = encoded_size (encode_bits clz0 v)"
  by (simp add: encode_def encoded_size_def Let_def to_little_endian_def)

lemma encode_bytes:
  assumes "7 \<le> unat bits" "bits < (57 :: u64)"
  shows "unat ((bits - 1) div 7) = (unat bits - 1) div 7" "(unat bits - 1) div 7 \<le> 7"
proof -
  have "unat (bits - 1) = unat bits - 1"
    using assms(1) by (subst unat_sub) (simp_all add: word_le_nat_alt)
  then show "unat ((bits - 1) div 7) = (unat bits - 1) div 7"
    by (simp add: unat_div)
  show "(unat bits - 1) div 7 \<le> 7"
    using assms(2) by (simp add: word_less_nat_alt)
qed

lemma decode_encode: "decode (encode clz0 v @ rest) = Some (v, length (encode clz0 v))"
proof (cases "encode_bits clz0 v < 57")
  case True
  let ?bits = "encode_bits clz0 v"
  let ?b = "unat ((?bits - 1) div 7)"
  note b = encode_bytes [OF encode_bits_ge True]
  have "?b \<le> 7"
    unfolding b(1) by (rule b(2))
  moreover have "bit v k = bit v 63" if "7 * ?b + 6 \<le> k" "k < 64" for k
  proof (rule encode_bits_width [OF _ that(2)])
    have "(unat ?bits - 1) mod 7 \<le> 6" by simp
    moreover have "unat ?bits - 1 = 7 * ?b + (unat ?bits - 1) mod 7"
      unfolding b(1) by simp
    ultimately show "unat ?bits - 1 \<le> k"
      using that(1) by linarith
  qed
  ultimately have "decode ((ucast (push_bit (?b + 1) v OR (push_bit ?b 1 - 1)) # le_bytes ?b (drop_bit (7 - ?b) v)) @ rest)
      = Some (v, ?b + 1)"
    by (rule decode_short)
  moreover have "encode clz0 v =
      ucast (push_bit (?b + 1) v OR (push_bit ?b 1 - 1)) # le_bytes ?b (drop_bit (7 - ?b) v)"
    by (simp only: encode_def Let_def to_little_endian_def True if_True)
  ultimately show ?thesis
    by (simp only: length_Cons length_le_bytes Suc_eq_plus1)
next
  case False
  then show ?thesis
    using decode_long [of v rest] by (simp add: encode_def Let_def to_little_endian_def del: le_bytes.simps)
qed

lemma encoded_size_le: "1 \<le> encoded_size (encode_bits clz0 v) \<and> encoded_size (encode_bits clz0 v) \<le> 9"
  using encode_bytes [OF encode_bits_ge, of clz0 v] by (auto simp: encoded_size_def)

lemma decode_bound: "decode buf = Some (v, n) \<Longrightarrow> 1 \<le> n \<and> n \<le> length buf"
  by (auto simp: decode_def Let_def split: list.splits if_splits)

lemma bits_64_lt: "bit (v :: u64) k \<Longrightarrow> k < 64"
  using bit_imp_le_length [of v k] by simp

lemma le_bytes_reverse: "le_bytes 8 (reverse_byte_order 8 (v :: u64)) = rev (le_bytes 8 v)"
proof (rule nth_equalityI)
  fix i assume "i < length (le_bytes 8 (reverse_byte_order 8 v))"
  then have i: "i < 8" by simp
  show "le_bytes 8 (reverse_byte_order 8 v) ! i = rev (le_bytes 8 v) ! i"
  proof (rule bit_word_eqI)
    fix k assume "k < LENGTH(8)"
    then have k: "k < 8" by simp
    then have "bit (reverse_byte_order 8 v) (8 * i + k) \<longleftrightarrow> bit v (8 * (7 - i) + k)"
      using i bits_64_lt by (subst bit_reverse_byte_order) auto
    then show "bit (le_bytes 8 (reverse_byte_order 8 v) ! i) k = bit (rev (le_bytes 8 v) ! i) k"
      using i k by (simp add: rev_nth le_bytes_nth bit_ucast_iff bit_drop_bit_eq)
  qed
qed simp

text \<open>C15: the compact integer coding is a round trip for every 64-bit value, with anything behind it
  and whatever \<open>__builtin_clzl(0)\<close> returns, takes one to nine bytes, and the decoder reports the
  number of bytes it has consumed, which is never more than the buffer holds.\<close>

theorem integral_coding_roundtrip:
  "decode (encode clz0 v @ rest) = Some (v, length (encode clz0 v)) \<and>
   length (encode clz0 v) \<in> {1..9} \<and>
   (case decode buf of None \<Rightarrow> True | Some (_, n) \<Rightarrow> n \<in> {1..length buf})"
  using decode_encode encoded_size_le [of clz0 v] decode_bound [of buf]
  by (auto simp: length_encode split: option.splits)

text \<open>The value written in network order is the little-endian value with its bytes reversed, and
  converting back gives the value.\<close>

theorem big_endian_reverses:
  "le_bytes 8 (to_big_endian v) = rev (le_bytes 8 v) \<and> from_big_endian (to_big_endian v) = v"
proof -
  have "le_bytes 8 (from_big_endian (to_big_endian v)) = le_bytes 8 v"
    unfolding to_big_endian_def from_big_endian_def le_bytes_reverse by simp
  then have "le_word (le_bytes 8 (from_big_endian (to_big_endian v))) = (le_word (le_bytes 8 v) :: u64)"
    by simp
  then have "from_big_endian (to_big_endian v) = v"
    by (simp add: le_word_le_bytes del: le_bytes.simps)
  then show ?thesis
    by (simp add: to_big_endian_def le_bytes_reverse)
qed

end
