(* ===== verification/Blake2s.thy ===== *)
theory Blake2s
  imports Streams
begin

text \<open>
  The reference BLAKE2s of \<open>blake2/ref/blake2s-ref.c\<close> with the helpers of \<open>blake2-impl.h\<close>: the
  compression function, the streaming interface with its 64-byte buffer, and the one-shot function.
  A fixed-size array is a list of that length; \<open>size_t\<close> lengths are naturals.  The buffer keeps the
  stale bytes behind \<open>buflen\<close>, as in the source; the abstraction \<open>pending\<close> forgets them, and the
  streaming function refines absorption into it, so that the digest does not depend on how a message
  is cut into updates.
\<close>

subsection \<open>Words\<close>

definition load32 :: "byte_array \<Rightarrow> u32" where
  "load32 p = ucast (p ! 0) OR push_bit 8 (ucast (p ! 1)) OR push_bit 16 (ucast (p ! 2)) OR push_bit 24 (ucast (p ! 3))"

definition store32 :: "u32 \<Rightarrow> byte_array" where
  "store32 w = [ucast w, ucast (drop_bit 8 w), ucast (drop_bit 16 w), ucast (drop_bit 24 w)]"

definition store16 :: "u16 \<Rightarrow> byte_array" where
  "store16 w = [ucast w, ucast (drop_bit 8 w)]"

definition rotr32 :: "u32 \<Rightarrow> nat \<Rightarrow> u32" where
  "rotr32 w c = drop_bit c w OR push_bit (32 - c) w"

text \<open>\<open>memcpy(dst + off, src, n)\<close> into a fixed-size array.\<close>

definition memcpy_at :: "byte_array \<Rightarrow> nat \<Rightarrow> byte_array \<Rightarrow> byte_array" where
  "memcpy_at dst off data = take off dst @ data @ drop (off + length data) dst"

subsection \<open>State and parameters\<close>

abbreviation (input) BLAKE2S_BLOCKBYTES :: nat where "BLAKE2S_BLOCKBYTES \<equiv> 64"
abbreviation (input) BLAKE2S_OUTBYTES :: nat where "BLAKE2S_OUTBYTES \<equiv> 32"
abbreviation (input) BLAKE2S_KEYBYTES :: nat where "BLAKE2S_KEYBYTES \<equiv> 32"

record blake2s_state =
  bh :: "u32 list"
  bt0 :: u32
  bt1 :: u32
  bf0 :: u32
  bf1 :: u32
  bbuf :: byte_array
  bbuflen :: nat
  boutlen :: nat
  blast_node :: u8

record blake2s_param =
  digest_length :: u8
  key_length :: u8
  fanout :: u8
  depth :: u8
  leaf_length :: u32
  node_offset :: u32
  xof_length :: u16
  node_depth :: u8
  inner_length :: u8
  salt :: byte_array
  personal :: byte_array

text \<open>The bytes of the packed parameter block.\<close>

definition param_bytes :: "blake2s_param \<Rightarrow> byte_array" where
  "param_bytes P =
     [digest_length P, key_length P, fanout P, depth P] @ store32 (leaf_length P) @
     store32 (node_offset P) @ store16 (xof_length P) @ [node_depth P, inner_length P] @
     salt P @ personal P"

definition blake2s_IV :: "u32 list" where
  "blake2s_IV =
     [0x6A09E667, 0xBB67AE85, 0x3C6EF372, 0xA54FF53A,
      0x510E527F, 0x9B05688C, 0x1F83D9AB, 0x5BE0CD19]"

definition blake2s_sigma :: "nat list list" where
  "blake2s_sigma =
     [[ 0,  1,  2,  3,  4,  5,  6,  7,  8,  9, 10, 11, 12, 13, 14, 15],
      [14, 10,  4,  8,  9, 15, 13,  6,  1, 12,  0,  2, 11,  7,  5,  3],
      [11,  8, 12,  0,  5,  2, 15, 13, 10, 14,  3,  6,  7,  1,  9,  4],
      [ 7,  9,  3,  1, 13, 12, 11, 14,  2,  6,  5, 10,  4,  0, 15,  8],
      [ 9,  0,  5,  7,  2,  4, 10, 15, 14,  1, 11, 12,  6,  8,  3, 13],
      [ 2, 12,  6, 10,  0, 11,  8,  3,  4, 13,  7,  5, 15, 14,  1,  9],
      [12,  5,  1, 15, 14, 13,  4, 10,  0,  7,  6,  3,  9,  2,  8, 11],
      [13, 11,  7, 14, 12,  1,  3,  9,  5,  0, 15,  4,  8,  6,  2, 10],
      [ 6, 15, 14,  9, 11,  3,  0,  8, 12,  2, 13,  7,  1,  4, 10,  5],
      [10,  2,  8,  4,  7,  6,  1,  5, 15, 11,  9, 14,  3, 12, 13,  0]]"

definition blake2s_set_lastnode :: "blake2s_state \<Rightarrow> blake2s_state" where
  "blake2s_set_lastnode S = S\<lparr>bf1 := - 1\<rparr>"

definition blake2s_is_lastblock :: "blake2s_state \<Rightarrow> bool" where
  "blake2s_is_lastblock S \<longleftrightarrow> bf0 S \<noteq> 0"

definition blake2s_set_lastblock :: "blake2s_state \<Rightarrow> blake2s_state" where
  "blake2s_set_lastblock S =
     (let S = (if blast_node S \<noteq> 0 then blake2s_set_lastnode S else S) in S\<lparr>bf0 := - 1\<rparr>)"

definition blake2s_increment_counter :: "blake2s_state \<Rightarrow> u32 \<Rightarrow> blake2s_state" where
  "blake2s_increment_counter S inc =
     (let S = S\<lparr>bt0 := bt0 S + inc\<rparr> in S\<lparr>bt1 := bt1 S + (if bt0 S < inc then 1 else 0)\<rparr>)"

definition blake2s_init0 :: blake2s_state where
  "blake2s_init0 =
     \<lparr>bh = blake2s_IV, bt0 = 0, bt1 = 0, bf0 = 0, bf1 = 0, bbuf = replicate BLAKE2S_BLOCKBYTES 0,
      bbuflen = 0, boutlen = 0, blast_node = 0\<rparr>"

definition blake2s_init_param :: "blake2s_param \<Rightarrow> blake2s_state" where
  "blake2s_init_param P =
     blake2s_init0
       \<lparr>bh := map (\<lambda>i. bh blake2s_init0 ! i XOR load32 (drop (i * 4) (param_bytes P))) [0..<8],
        boutlen := unat (digest_length P)\<rparr>"

definition blake2s_init :: "nat \<Rightarrow> blake2s_state option" where
  "blake2s_init outlen =
     (if outlen = 0 \<or> BLAKE2S_OUTBYTES < outlen then None
      else Some (blake2s_init_param
        \<lparr>digest_length = of_nat outlen, key_length = 0, fanout = 1, depth = 1, leaf_length = 0,
         node_offset = 0, xof_length = 0, node_depth = 0, inner_length = 0,
         salt = replicate 8 0, personal = replicate 8 0\<rparr>))"

subsection \<open>Compression\<close>

definition blake2s_G :: "u32 list \<Rightarrow> nat \<Rightarrow> nat \<Rightarrow> nat \<Rightarrow> nat \<Rightarrow> nat \<Rightarrow> nat \<Rightarrow> u32 list \<Rightarrow> u32 list" where
  "blake2s_G m r i a b c d v =
     (let v = v[a := v ! a + v ! b + m ! (blake2s_sigma ! r ! (2 * i))];
          v = v[d := rotr32 (v ! d XOR v ! a) 16];
          v = v[c := v ! c + v ! d];
          v = v[b := rotr32 (v ! b XOR v ! c) 12];
          v = v[a := v ! a + v ! b + m ! (blake2s_sigma ! r ! (2 * i + 1))];
          v = v[d := rotr32 (v ! d XOR v ! a) 8];
          v = v[c := v ! c + v ! d];
          v = v[b := rotr32 (v ! b XOR v ! c) 7]
      in v)"

definition blake2s_ROUND :: "u32 list \<Rightarrow> nat \<Rightarrow> u32 list \<Rightarrow> u32 list" where
  "blake2s_ROUND m r v =
     (let v = blake2s_G m r 0 0 4  8 12 v;
          v = blake2s_G m r 1 1 5  9 13 v;
          v = blake2s_G m r 2 2 6 10 14 v;
          v = blake2s_G m r 3 3 7 11 15 v;
          v = blake2s_G m r 4 0 5 10 15 v;
          v = blake2s_G m r 5 1 6 11 12 v;
          v = blake2s_G m r 6 2 7  8 13 v;
          v = blake2s_G m r 7 3 4  9 14 v
      in v)"

definition blake2s_compress :: "blake2s_state \<Rightarrow> byte_array \<Rightarrow> blake2s_state" where
  "blake2s_compress S blk =
     (let m = map (\<lambda>i. load32 (drop (i * 4) blk)) [0..<16];
          v = bh S @ [blake2s_IV ! 0, blake2s_IV ! 1, blake2s_IV ! 2, blake2s_IV ! 3,
                      bt0 S XOR blake2s_IV ! 4, bt1 S XOR blake2s_IV ! 5,
                      bf0 S XOR blake2s_IV ! 6, bf1 S XOR blake2s_IV ! 7];
          v = fold (blake2s_ROUND m) [0..<10] v
      in S\<lparr>bh := map (\<lambda>i. bh S ! i XOR v ! i XOR v ! (i + 8)) [0..<8]\<rparr>)"

subsection \<open>Streaming\<close>

text \<open>The loop over whole blocks keeps the last block, full or not, for later.\<close>

function blake2s_blocks :: "blake2s_state \<Rightarrow> byte_array \<Rightarrow> blake2s_state \<times> byte_array" where
  "blake2s_blocks S inp =
     (if BLAKE2S_BLOCKBYTES < length inp
      then blake2s_blocks
        (blake2s_compress (blake2s_increment_counter S (of_nat BLAKE2S_BLOCKBYTES))
          (take BLAKE2S_BLOCKBYTES inp))
        (drop BLAKE2S_BLOCKBYTES inp)
      else (S, inp))"
  by auto
termination by (relation "measure (\<lambda>(S, inp). length inp)") auto

declare blake2s_blocks.simps [simp del]

definition blake2s_update :: "blake2s_state \<Rightarrow> byte_array \<Rightarrow> blake2s_state" where
  "blake2s_update S inp =
     (if 0 < length inp
      then (let left = bbuflen S;
                fill = BLAKE2S_BLOCKBYTES - left;
                (S, inp) =
                  (if fill < length inp
                   then (let S = S\<lparr>bbuflen := 0\<rparr>;
                             S = S\<lparr>bbuf := memcpy_at (bbuf S) left (take fill inp)\<rparr>;
                             S = blake2s_increment_counter S (of_nat BLAKE2S_BLOCKBYTES);
                             S = blake2s_compress S (bbuf S)
                         in blake2s_blocks S (drop fill inp))
                   else (S, inp));
                S = S\<lparr>bbuf := memcpy_at (bbuf S) (bbuflen S) inp\<rparr>
            in S\<lparr>bbuflen := bbuflen S + length inp\<rparr>)
      else S)"

definition blake2s_final :: "blake2s_state \<Rightarrow> nat \<Rightarrow> (byte_array \<times> blake2s_state) option" where
  "blake2s_final S outlen =
     (if outlen < boutlen S then None
      else if blake2s_is_lastblock S then None
      else (let S = blake2s_increment_counter S (of_nat (bbuflen S));
                S = blake2s_set_lastblock S;
                S = S\<lparr>bbuf := memcpy_at (bbuf S) (bbuflen S) (replicate (BLAKE2S_BLOCKBYTES - bbuflen S) 0)\<rparr>;
                S = blake2s_compress S (bbuf S);
                buffer = concat (map store32 (bh S))
            in Some (take outlen buffer, S)))"

definition blake2s_init_key :: "nat \<Rightarrow> byte_array \<Rightarrow> blake2s_state option" where
  "blake2s_init_key outlen key =
     (if outlen = 0 \<or> BLAKE2S_OUTBYTES < outlen then None
      else if length key = 0 \<or> BLAKE2S_KEYBYTES < length key then None
      else let S = blake2s_init_param
             \<lparr>digest_length = of_nat outlen, key_length = of_nat (length key), fanout = 1, depth = 1,
              leaf_length = 0, node_offset = 0, xof_length = 0, node_depth = 0, inner_length = 0,
              salt = replicate 8 0, personal = replicate 8 0\<rparr>;
               block = memcpy_at (replicate BLAKE2S_BLOCKBYTES 0) 0 key
           in Some (blake2s_update S block))"

definition blake2s :: "nat \<Rightarrow> byte_array \<Rightarrow> byte_array \<Rightarrow> byte_array option" where
  "blake2s outlen inp key =
     (if outlen = 0 \<or> BLAKE2S_OUTBYTES < outlen then None
      else if BLAKE2S_KEYBYTES < length key then None
      else Option.bind (if 0 < length key then blake2s_init_key outlen key else blake2s_init outlen)
        (\<lambda>S. map_option fst (blake2s_final (blake2s_update S inp) outlen)))"

subsection \<open>The stream refines absorption of a message\<close>

text \<open>The invariant of the buffer, and what a state stands for: the chaining part and the bytes not
  yet compressed.\<close>

definition blake2s_inv :: "blake2s_state \<Rightarrow> bool" where
  "blake2s_inv S \<longleftrightarrow> length (bbuf S) = BLAKE2S_BLOCKBYTES \<and> bbuflen S \<le> BLAKE2S_BLOCKBYTES"

definition chaining :: "blake2s_state \<Rightarrow> blake2s_state" where
  "chaining S = S\<lparr>bbuf := [], bbuflen := 0\<rparr>"

definition pending :: "blake2s_state \<Rightarrow> byte_array" where
  "pending S = take (bbuflen S) (bbuf S)"

definition blake2s_abs :: "blake2s_state \<Rightarrow> blake2s_state \<times> byte_array" where
  "blake2s_abs S = (chaining S, pending S)"

definition absorb :: "blake2s_state \<times> byte_array \<Rightarrow> byte_array \<Rightarrow> blake2s_state \<times> byte_array" where
  "absorb a msg = blake2s_blocks (fst a) (snd a @ msg)"

definition digest :: "blake2s_state \<times> byte_array \<Rightarrow> nat \<Rightarrow> byte_array option" where
  "digest a outlen =
     (if outlen < boutlen (fst a) \<or> blake2s_is_lastblock (fst a) then None
      else Some (take outlen (concat (map store32 (bh (blake2s_compress
        (blake2s_set_lastblock (blake2s_increment_counter (fst a) (of_nat (length (snd a)))))
        (snd a @ replicate (BLAKE2S_BLOCKBYTES - length (snd a)) 0)))))))"

lemma compress_frame [simp]:
  "bbuf (blake2s_compress S b) = bbuf S" "bbuflen (blake2s_compress S b) = bbuflen S"
  "boutlen (blake2s_compress S b) = boutlen S" "bf0 (blake2s_compress S b) = bf0 S"
  "bf1 (blake2s_compress S b) = bf1 S" "bt0 (blake2s_compress S b) = bt0 S"
  "bt1 (blake2s_compress S b) = bt1 S" "blast_node (blake2s_compress S b) = blast_node S"
  by (simp_all add: blake2s_compress_def Let_def)

lemma increment_frame [simp]:
  "bbuf (blake2s_increment_counter S n) = bbuf S" "bbuflen (blake2s_increment_counter S n) = bbuflen S"
  "boutlen (blake2s_increment_counter S n) = boutlen S" "bf0 (blake2s_increment_counter S n) = bf0 S"
  "bh (blake2s_increment_counter S n) = bh S" "blast_node (blake2s_increment_counter S n) = blast_node S"
  by (simp_all add: blake2s_increment_counter_def Let_def)

lemma set_lastblock_frame [simp]:
  "bbuf (blake2s_set_lastblock S) = bbuf S" "bbuflen (blake2s_set_lastblock S) = bbuflen S"
  by (simp_all add: blake2s_set_lastblock_def blake2s_set_lastnode_def Let_def)

lemma bh_compress_buf [simp]:
  "bh (blake2s_compress (S\<lparr>bbuf := x\<rparr>) b) = bh (blake2s_compress S b)"
  "bh (blake2s_compress (S\<lparr>bbuflen := n\<rparr>) b) = bh (blake2s_compress S b)"
  by (simp_all add: blake2s_compress_def Let_def)

lemma chaining_frame [simp]:
  "chaining (S\<lparr>bbuf := x\<rparr>) = chaining S" "chaining (S\<lparr>bbuflen := n\<rparr>) = chaining S"
  "boutlen (chaining S) = boutlen S" "bf0 (chaining S) = bf0 S" "bbuflen (chaining S) = 0" "bbuf (chaining S) = []"
  by (simp_all add: chaining_def)

lemma chaining_compress: "chaining (blake2s_compress S b) = blake2s_compress (chaining S) b"
  by (simp add: chaining_def blake2s_compress_def Let_def)

lemma chaining_increment: "chaining (blake2s_increment_counter S n) = blake2s_increment_counter (chaining S) n"
  by (simp add: chaining_def blake2s_increment_counter_def Let_def)

lemma chaining_set_lastblock: "chaining (blake2s_set_lastblock S) = blake2s_set_lastblock (chaining S)"
  by (simp add: chaining_def blake2s_set_lastblock_def blake2s_set_lastnode_def Let_def)

lemma bh_chaining: "bh (blake2s_compress (chaining S) b) = bh (blake2s_compress S b)"
  by (simp add: chaining_def)

lemma blocks_chaining:
  "blake2s_blocks (chaining S) inp = (chaining (fst (blake2s_blocks S inp)), snd (blake2s_blocks S inp))"
proof (induction S inp rule: blake2s_blocks.induct)
  case (1 S inp)
  then show ?case
    by (subst (1 2 3) blake2s_blocks.simps) (simp add: chaining_compress chaining_increment)
qed

lemma blocks_frame:
  "bbuf (fst (blake2s_blocks S inp)) = bbuf S \<and> bbuflen (fst (blake2s_blocks S inp)) = bbuflen S"
proof (induction S inp rule: blake2s_blocks.induct)
  case (1 S inp)
  then show ?case
    by (subst (1 2) blake2s_blocks.simps) simp
qed

lemma blocks_rest: "length (snd (blake2s_blocks S inp)) \<le> BLAKE2S_BLOCKBYTES"
proof (induction S inp rule: blake2s_blocks.induct)
  case (1 S inp)
  then show ?case
    by (subst blake2s_blocks.simps) simp
qed

text \<open>Cutting the message does not matter.\<close>

lemma blocks_append:
  "blake2s_blocks (fst (blake2s_blocks S x)) (snd (blake2s_blocks S x) @ y) = blake2s_blocks S (x @ y)"
proof (induction S x rule: blake2s_blocks.induct)
  case (1 S x)
  show ?case
  proof (cases "BLAKE2S_BLOCKBYTES < length x")
    case True
    with 1 show ?thesis
      by (subst (3) blake2s_blocks.simps, subst (1 2) blake2s_blocks.simps [of S x]) simp
  next
    case False
    then show ?thesis
      by (subst (1 2) blake2s_blocks.simps [of S x]) simp
  qed
qed

lemma absorb_append: "absorb (absorb a x) y = absorb a (x @ y)"
  by (simp add: absorb_def blocks_append)

lemma length_memcpy_at: "off + length data \<le> length dst \<Longrightarrow> length (memcpy_at dst off data) = length dst"
  by (simp add: memcpy_at_def)

lemma take_memcpy_at:
  "off \<le> length dst \<Longrightarrow> take (off + length data) (memcpy_at dst off data) = take off dst @ data"
  by (simp add: memcpy_at_def min_def)

lemma length_pending: "blake2s_inv S \<Longrightarrow> length (pending S) = bbuflen S"
  by (simp add: blake2s_inv_def pending_def)

lemma memcpy_full:
  "off + length data = length dst \<Longrightarrow> memcpy_at dst off data = take off dst @ data"
  by (simp add: memcpy_at_def)

text \<open>Storing the rest of the input behind the pending bytes.\<close>

lemma store_rest:
  assumes "blake2s_inv S" "bbuflen S + length inp \<le> BLAKE2S_BLOCKBYTES"
  defines "S' \<equiv> S\<lparr>bbuf := memcpy_at (bbuf S) (bbuflen S) inp, bbuflen := bbuflen S + length inp\<rparr>"
  shows "blake2s_inv S'" "blake2s_abs S' = (chaining S, pending S @ inp)"
  using assms by (simp_all add: blake2s_inv_def S'_def blake2s_abs_def pending_def length_memcpy_at take_memcpy_at)

lemma update_fits:
  assumes "blake2s_inv S" "bbuflen S + length inp \<le> BLAKE2S_BLOCKBYTES"
  shows "blake2s_inv (blake2s_update S inp)" "blake2s_abs (blake2s_update S inp) = (chaining S, pending S @ inp)"
proof -
  have "\<not> BLAKE2S_BLOCKBYTES - bbuflen S < length inp"
    using assms(2) by simp
  then show "blake2s_inv (blake2s_update S inp)"
    "blake2s_abs (blake2s_update S inp) = (chaining S, pending S @ inp)"
    using store_rest [OF assms] assms(1)
    by (cases "inp = []"; simp add: blake2s_update_def Let_def blake2s_abs_def)+
qed

lemma update_flushes:
  assumes inv: "blake2s_inv S" and len: "BLAKE2S_BLOCKBYTES < bbuflen S + length inp"
  shows "blake2s_inv (blake2s_update S inp)"
    "blake2s_abs (blake2s_update S inp) = blake2s_blocks (chaining S) (pending S @ inp)"
proof -
  let ?fill = "BLAKE2S_BLOCKBYTES - bbuflen S"
  define F where "F = S\<lparr>bbuflen := 0, bbuf := memcpy_at (bbuf S) (bbuflen S) (take ?fill inp)\<rparr>"
  define C where "C = blake2s_compress (blake2s_increment_counter F 64) (bbuf F)"
  define B where "B = blake2s_blocks C (drop ?fill inp)"
  have le: "bbuflen S \<le> 64" "length (bbuf S) = 64"
    using inv by (simp_all add: blake2s_inv_def)
  have buf: "bbuf F = take 64 (pending S @ inp)" and rest: "drop ?fill inp = drop 64 (pending S @ inp)"
    using le len by (simp_all add: F_def memcpy_full pending_def)
  have "length (bbuf F) = 64"
    using le len by (simp add: buf length_pending [OF inv])
  moreover have frame: "bbuf (fst B) = bbuf F" "bbuflen (fst B) = 0"
    using blocks_frame [of C "drop ?fill inp"] by (simp_all add: B_def C_def F_def)
  ultimately have invB: "blake2s_inv (fst B)"
    by (simp add: blake2s_inv_def)
  have more: "inp \<noteq> []" "?fill < length inp"
    using len le by auto
  have upd: "blake2s_update S inp =
      (fst B)\<lparr>bbuf := memcpy_at (bbuf (fst B)) (bbuflen (fst B)) (snd B), bbuflen := bbuflen (fst B) + length (snd B)\<rparr>"
    using more by (simp add: blake2s_update_def Let_def B_def C_def F_def case_prod_beta)
  have sndB: "bbuflen (fst B) + length (snd B) \<le> 64"
    using blocks_rest [of C "drop ?fill inp", folded B_def] by (simp add: frame)
  show "blake2s_inv (blake2s_update S inp)"
    unfolding upd by (rule store_rest(1) [OF invB sndB])
  have cond: "64 < length (pending S @ inp)"
    using len by (simp add: length_pending [OF inv])
  have "chaining C = blake2s_compress (blake2s_increment_counter (chaining S) 64) (take 64 (pending S @ inp))"
    unfolding C_def chaining_compress chaining_increment buf by (simp add: F_def)
  then have "blake2s_blocks (chaining S) (pending S @ inp) = blake2s_blocks (chaining C) (drop ?fill inp)"
    unfolding rest by (subst blake2s_blocks.simps) (simp only: cond if_True of_nat_numeral)
  also have "\<dots> = (chaining (fst B), snd B)"
    by (simp add: blocks_chaining B_def)
  finally show "blake2s_abs (blake2s_update S inp) = blake2s_blocks (chaining S) (pending S @ inp)"
    unfolding upd store_rest(2) [OF invB sndB] by (simp add: pending_def frame)
qed

lemma update_refines:
  assumes "blake2s_inv S"
  shows "blake2s_inv (blake2s_update S inp) \<and> blake2s_abs (blake2s_update S inp) = absorb (blake2s_abs S) inp"
proof (cases "bbuflen S + length inp \<le> BLAKE2S_BLOCKBYTES")
  case True
  then show ?thesis
    using update_fits [OF assms True] length_pending [OF assms]
    by (simp add: absorb_def blake2s_abs_def) (subst blake2s_blocks.simps, simp)
next
  case False
  then show ?thesis
    using update_flushes [OF assms] by (simp add: absorb_def) (simp add: blake2s_abs_def)
qed

lemma final_refines:
  assumes "blake2s_inv S"
  shows "map_option fst (blake2s_final S outlen) = digest (blake2s_abs S) outlen"
proof -
  let ?S1 = "blake2s_set_lastblock (blake2s_increment_counter S (of_nat (bbuflen S)))"
  have "bh (blake2s_compress ?S1 b) = bh (blake2s_compress (chaining ?S1) b)" for b
    by (simp add: bh_chaining)
  moreover have "memcpy_at (bbuf S) (bbuflen S) (replicate (64 - bbuflen S) 0) = pending S @ replicate (64 - bbuflen S) 0"
    using assms by (simp add: blake2s_inv_def memcpy_full pending_def)
  ultimately show ?thesis
    using length_pending [OF assms]
    by (simp add: blake2s_final_def digest_def blake2s_abs_def Let_def blake2s_is_lastblock_def
        chaining_increment chaining_set_lastblock)
qed

lemma init_param_inv: "blake2s_inv (blake2s_init_param P)"
  by (simp add: blake2s_inv_def blake2s_init_param_def blake2s_init0_def)

lemma update_append_final:
  assumes "blake2s_inv S"
  shows "map_option fst (blake2s_final (blake2s_update (blake2s_update S a) b) outlen) =
    map_option fst (blake2s_final (blake2s_update S (a @ b)) outlen)"
  using assms update_refines by (simp add: final_refines absorb_append)

text \<open>A call without key and with a digest of at most 32 bytes succeeds.\<close>

lemma blocks_flags:
  "boutlen (fst (blake2s_blocks S inp)) = boutlen S \<and> bf0 (fst (blake2s_blocks S inp)) = bf0 S"
proof (induction S inp rule: blake2s_blocks.induct)
  case (1 S inp)
  then show ?case
    by (subst (1 2) blake2s_blocks.simps) simp
qed

lemma length_words: "length (concat (map store32 ws)) = 4 * length ws"
  by (induction ws) (simp_all add: store32_def)

lemma length_bh_compress [simp]: "length (bh (blake2s_compress S b)) = 8"
  by (simp add: blake2s_compress_def Let_def)

lemma blake2s_total:
  assumes "0 < n" "n \<le> BLAKE2S_OUTBYTES"
  shows "\<exists>h. blake2s n inp [] = Some h \<and> length h = n"
proof -
  obtain S where S: "blake2s_init n = Some S" "blake2s_inv S" "boutlen S = n" "bf0 S = 0"
    using assms by (auto simp: blake2s_init_def blake2s_inv_def blake2s_init_param_def blake2s_init0_def unat_of_nat)
  have "blake2s n inp [] = digest (absorb (blake2s_abs S) inp) n"
    using assms S update_refines [OF S(2)] by (simp add: blake2s_def final_refines)
  then show ?thesis
    using assms(2) S(3,4) blocks_flags
    by (simp add: digest_def absorb_def blake2s_abs_def blake2s_is_lastblock_def length_words)
qed

text \<open>C16: the streaming BLAKE2s refines absorption of the concatenated message: every update keeps the
  buffer invariant and absorbs its bytes, cutting the message differently gives the same state, and
  the final step returns the digest of what was absorbed.\<close>

theorem blake2s_stream_refines:
  assumes "blake2s_inv S"
  shows "blake2s_inv (blake2s_update S inp) \<and>
    blake2s_abs (blake2s_update S inp) = absorb (blake2s_abs S) inp \<and>
    absorb (absorb (blake2s_abs S) x) y = absorb (blake2s_abs S) (x @ y) \<and>
    map_option fst (blake2s_final S outlen) = digest (blake2s_abs S) outlen"
  using assms by (simp add: update_refines absorb_append final_refines)

theorem blake2s_stream_refines_witness:
  "blake2s_inv blake2s_init0 \<and>
    blake2s_abs (blake2s_update blake2s_init0 [1, 2, 3]) = absorb (blake2s_abs blake2s_init0) [1, 2, 3]"
proof -
  have "blake2s_inv blake2s_init0"
    by (simp add: blake2s_inv_def blake2s_init0_def)
  then show ?thesis
    using blake2s_stream_refines [of blake2s_init0] by blast
qed

end
