(* ===== verification/Blake2sp.thy ===== *)
theory Blake2sp
  imports Blake2s
begin

text \<open>
  The tree hash BLAKE2sp of \<open>blake2/ref/blake2sp-ref.c\<close>, which the node uses for pool and address
  hashes: eight leaves take the blocks of the message in turn, a root hashes the leaf digests.  Both
  the one-shot function and the streaming interface with its 512-byte buffer are modelled.  A leaf
  whose final step reported an error would leave its digest uninitialised; the model returns nothing
  there, and the lemmas show that this never happens.
\<close>

abbreviation (input) PARALLELISM_DEGREE :: nat where "PARALLELISM_DEGREE \<equiv> 8"

record blake2sp_state =
  pS :: "blake2s_state list"
  pR :: blake2s_state
  pbuf :: byte_array
  pbuflen :: nat
  poutlen :: nat

definition blake2sp_init_leaf_param :: "blake2s_param \<Rightarrow> blake2s_state" where
  "blake2sp_init_leaf_param P = (blake2s_init_param P)\<lparr>boutlen := unat (inner_length P)\<rparr>"

definition blake2sp_init_leaf :: "nat \<Rightarrow> nat \<Rightarrow> nat \<Rightarrow> blake2s_state" where
  "blake2sp_init_leaf outlen keylen offset =
     blake2sp_init_leaf_param
       \<lparr>digest_length = of_nat outlen, key_length = of_nat keylen, fanout = of_nat PARALLELISM_DEGREE,
        depth = 2, leaf_length = 0, node_offset = of_nat offset, xof_length = 0, node_depth = 0,
        inner_length = of_nat BLAKE2S_OUTBYTES, salt = replicate 8 0, personal = replicate 8 0\<rparr>"

definition blake2sp_init_root :: "nat \<Rightarrow> nat \<Rightarrow> blake2s_state" where
  "blake2sp_init_root outlen keylen =
     blake2s_init_param
       \<lparr>digest_length = of_nat outlen, key_length = of_nat keylen, fanout = of_nat PARALLELISM_DEGREE,
        depth = 2, leaf_length = 0, node_offset = 0, xof_length = 0, node_depth = 1,
        inner_length = of_nat BLAKE2S_OUTBYTES, salt = replicate 8 0, personal = replicate 8 0\<rparr>"

text \<open>The eight leaves with the last one marked, and the key block every leaf starts with.\<close>

definition blake2sp_leaves :: "nat \<Rightarrow> nat \<Rightarrow> blake2s_state list" where
  "blake2sp_leaves outlen keylen =
     (let S = map (blake2sp_init_leaf outlen keylen) [0..<PARALLELISM_DEGREE]
      in S[PARALLELISM_DEGREE - 1 := (S ! (PARALLELISM_DEGREE - 1))\<lparr>blast_node := 1\<rparr>])"

definition blake2sp_key_block :: "byte_array \<Rightarrow> byte_array" where
  "blake2sp_key_block key = memcpy_at (replicate BLAKE2S_BLOCKBYTES 0) 0 key"

definition blake2sp_init :: "nat \<Rightarrow> blake2sp_state option" where
  "blake2sp_init outlen =
     (if outlen = 0 \<or> BLAKE2S_OUTBYTES < outlen then None
      else Some \<lparr>pS = blake2sp_leaves outlen 0, pR = (blake2sp_init_root outlen 0)\<lparr>blast_node := 1\<rparr>,
        pbuf = replicate (PARALLELISM_DEGREE * BLAKE2S_BLOCKBYTES) 0, pbuflen = 0, poutlen = outlen\<rparr>)"

definition blake2sp_init_key :: "nat \<Rightarrow> byte_array \<Rightarrow> blake2sp_state option" where
  "blake2sp_init_key outlen key =
     (if outlen = 0 \<or> BLAKE2S_OUTBYTES < outlen then None
      else if length key = 0 \<or> BLAKE2S_KEYBYTES < length key then None
      else Some \<lparr>pS = map (\<lambda>L. blake2s_update L (blake2sp_key_block key)) (blake2sp_leaves outlen (length key)),
        pR = (blake2sp_init_root outlen (length key))\<lparr>blast_node := 1\<rparr>,
        pbuf = replicate (PARALLELISM_DEGREE * BLAKE2S_BLOCKBYTES) 0, pbuflen = 0, poutlen = outlen\<rparr>)"

text \<open>The loop of leaf \<open>i\<close> over the whole 512-byte stripes of the input; what is left of the input
  comes back with the leaf.\<close>

function leaf_loop :: "nat \<Rightarrow> blake2s_state \<Rightarrow> byte_array \<Rightarrow> blake2s_state \<times> byte_array" where
  "leaf_loop i L inp =
     (if PARALLELISM_DEGREE * BLAKE2S_BLOCKBYTES \<le> length inp
      then leaf_loop i
        (blake2s_update L (take BLAKE2S_BLOCKBYTES (drop (i * BLAKE2S_BLOCKBYTES) inp)))
        (drop (PARALLELISM_DEGREE * BLAKE2S_BLOCKBYTES) inp)
      else (L, inp))"
  by auto
termination by (relation "measure (\<lambda>(i, L, inp). length inp)") auto

declare leaf_loop.simps [simp del]

text \<open>Every leaf absorbs its block of a 512-byte stripe.\<close>

definition leaves_stripe :: "blake2s_state list \<Rightarrow> byte_array \<Rightarrow> blake2s_state list" where
  "leaves_stripe Ls b =
     map (\<lambda>i. blake2s_update (Ls ! i) (take BLAKE2S_BLOCKBYTES (drop (i * BLAKE2S_BLOCKBYTES) b)))
       [0..<PARALLELISM_DEGREE]"

text \<open>The part of an update behind the buffer: the whole stripes go to the leaves, the rest is kept.\<close>

definition sp_absorb :: "blake2sp_state \<Rightarrow> nat \<Rightarrow> byte_array \<Rightarrow> blake2sp_state" where
  "sp_absorb S left inp =
     (let S = S\<lparr>pS := map (\<lambda>i. fst (leaf_loop i (pS S ! i) inp)) [0..<PARALLELISM_DEGREE]\<rparr>;
          inp = drop (length inp - length inp mod (PARALLELISM_DEGREE * BLAKE2S_BLOCKBYTES)) inp;
          S = (if 0 < length inp then S\<lparr>pbuf := memcpy_at (pbuf S) left inp\<rparr> else S)
      in S\<lparr>pbuflen := left + length inp\<rparr>)"

definition blake2sp_update :: "blake2sp_state \<Rightarrow> byte_array \<Rightarrow> blake2sp_state" where
  "blake2sp_update S inp =
     (let left = pbuflen S;
          fill = PARALLELISM_DEGREE * BLAKE2S_BLOCKBYTES - left
      in if left \<noteq> 0 \<and> fill \<le> length inp
         then (let b = memcpy_at (pbuf S) left (take fill inp)
               in sp_absorb (S\<lparr>pbuf := b, pS := leaves_stripe (pS S) b\<rparr>) 0 (drop fill inp))
         else sp_absorb S left inp)"

text \<open>The last, possibly partial, block of leaf \<open>i\<close> and its digest.\<close>

definition leaf_final :: "nat \<Rightarrow> blake2s_state \<Rightarrow> byte_array \<Rightarrow> byte_array option" where
  "leaf_final i L rest =
     (let L = (if i * BLAKE2S_BLOCKBYTES < length rest
               then (let left = length rest - i * BLAKE2S_BLOCKBYTES;
                         len = (if left \<le> BLAKE2S_BLOCKBYTES then left else BLAKE2S_BLOCKBYTES)
                     in blake2s_update L (take len (drop (i * BLAKE2S_BLOCKBYTES) rest)))
               else L)
      in map_option fst (blake2s_final L BLAKE2S_OUTBYTES))"

definition root_final :: "blake2s_state \<Rightarrow> byte_array list \<Rightarrow> nat \<Rightarrow> byte_array option" where
  "root_final R hashes outlen =
     map_option fst (blake2s_final (fold (\<lambda>hash R. blake2s_update R hash) hashes R) outlen)"

definition blake2sp_final :: "blake2sp_state \<Rightarrow> nat \<Rightarrow> byte_array option" where
  "blake2sp_final S outlen =
     (if outlen < poutlen S then None
      else Option.bind
        (those (map (\<lambda>i. leaf_final i (pS S ! i) (take (pbuflen S) (pbuf S))) [0..<PARALLELISM_DEGREE]))
        (\<lambda>hashes. root_final (pR S) hashes (poutlen S)))"

definition blake2sp :: "nat \<Rightarrow> byte_array \<Rightarrow> byte_array \<Rightarrow> byte_array option" where
  "blake2sp outlen inp key =
     (if outlen = 0 \<or> BLAKE2S_OUTBYTES < outlen then None
      else if BLAKE2S_KEYBYTES < length key then None
      else let S = blake2sp_leaves outlen (length key);
               S = (if 0 < length key then map (\<lambda>L. blake2s_update L (blake2sp_key_block key)) S else S)
           in Option.bind
                (those (map (\<lambda>i. let (L, rest) = leaf_loop i (S ! i) inp in leaf_final i L rest)
                  [0..<PARALLELISM_DEGREE]))
                (\<lambda>hashes. root_final ((blake2sp_init_root outlen (length key))\<lparr>blast_node := 1\<rparr>) hashes outlen))"

subsection \<open>The stream and the one-shot function\<close>

text \<open>What both do to the leaves: absorb the message in stripes of 512 bytes.\<close>

function stripes :: "blake2s_state list \<Rightarrow> byte_array \<Rightarrow> blake2s_state list \<times> byte_array" where
  "stripes Ls msg =
     (if 512 \<le> length msg then stripes (leaves_stripe Ls (take 512 msg)) (drop 512 msg) else (Ls, msg))"
  by auto
termination by (relation "measure (\<lambda>(Ls, msg). length msg)") auto

declare stripes.simps [simp del]

lemma length_leaves_stripe [simp]: "length (leaves_stripe Ls b) = 8"
  by (simp add: leaves_stripe_def)

lemma stripes_append: "stripes (fst (stripes Ls x)) (snd (stripes Ls x) @ y) = stripes Ls (x @ y)"
proof (induction Ls x rule: stripes.induct)
  case (1 Ls x)
  show ?case
  proof (cases "512 \<le> length x")
    case True
    with 1 show ?thesis
      by (subst (3) stripes.simps, subst (1 2) stripes.simps [of Ls x]) simp
  next
    case False
    then show ?thesis
      by (subst (1 2) stripes.simps [of Ls x]) simp
  qed
qed

lemma stripes_small: "length msg < 512 \<Longrightarrow> stripes Ls msg = (Ls, msg)"
  by (subst stripes.simps) simp

lemma stripes_rest: "snd (stripes Ls msg) = drop (length msg - length msg mod 512) msg"
proof (induction Ls msg rule: stripes.induct)
  case (1 Ls msg)
  show ?case
  proof (cases "512 \<le> length msg")
    case True
    let ?k = "length (drop 512 msg) - length (drop 512 msg) mod 512"
    have k: "length msg - length msg mod 512 = ?k + 512"
      using True mod_less_eq_dividend [of "length msg - 512" 512] by (simp add: le_mod_geq)
    have "snd (stripes Ls msg) = drop ?k (drop 512 msg)"
      using True 1 by (subst stripes.simps) simp
    also have "\<dots> = drop (?k + 512) msg"
      by (rule drop_drop)
    finally show ?thesis unfolding k .
  qed (simp add: stripes_small)
qed

lemma length_stripes_rest: "length (snd (stripes Ls msg)) < 512"
  by (simp add: stripes_rest)

lemma leaf_loop_stripes:
  "length Ls = 8 \<Longrightarrow> i < 8 \<Longrightarrow> leaf_loop i (Ls ! i) msg = (fst (stripes Ls msg) ! i, snd (stripes Ls msg))"
proof (induction Ls msg rule: stripes.induct)
  case (1 Ls msg)
  show ?case
  proof (cases "512 \<le> length msg")
    case True
    have "leaves_stripe Ls (take 512 msg) ! i = blake2s_update (Ls ! i) (take 64 (drop (i * 64) msg))"
      using "1.prems" by (simp add: leaves_stripe_def drop_take min_def)
    with True 1 show ?thesis
      by (subst leaf_loop.simps, subst (1 2) stripes.simps) simp
  next
    case False
    then show ?thesis
      by (subst leaf_loop.simps) (simp add: stripes_small)
  qed
qed

lemma length_stripes: "length Ls = 8 \<Longrightarrow> length (fst (stripes Ls msg)) = 8"
proof (induction Ls msg rule: stripes.induct)
  case (1 Ls msg)
  then show ?case by (subst stripes.simps) simp
qed

lemma leaves_loop_stripes:
  "length Ls = 8 \<Longrightarrow> map (\<lambda>i. fst (leaf_loop i (Ls ! i) msg)) [0..<8] = fst (stripes Ls msg)"
  by (rule nth_equalityI) (simp_all add: leaf_loop_stripes length_stripes)

definition blake2sp_inv :: "blake2sp_state \<Rightarrow> bool" where
  "blake2sp_inv S \<longleftrightarrow> length (pS S) = 8 \<and> length (pbuf S) = 512 \<and> pbuflen S < 512"

definition sp_pending :: "blake2sp_state \<Rightarrow> byte_array" where
  "sp_pending S = take (pbuflen S) (pbuf S)"

text \<open>Keeping the rest of the input behind the bytes already buffered.\<close>

lemma sp_store_rest:
  assumes "length (pS S) = 8" "length (pbuf S) = 512" "left + length inp < 512"
  defines "S' \<equiv> (if 0 < length inp then S\<lparr>pbuf := memcpy_at (pbuf S) left inp\<rparr> else S)\<lparr>pbuflen := left + length inp\<rparr>"
  shows "blake2sp_inv S'" "pS S' = pS S" "pR S' = pR S" "poutlen S' = poutlen S"
    "sp_pending S' = take left (pbuf S) @ inp"
  using assms
  by (auto simp: blake2sp_inv_def S'_def sp_pending_def length_memcpy_at take_memcpy_at)

lemma sp_absorb_stripes:
  assumes "length (pS S) = 8" "length (pbuf S) = 512" "left = 0 \<or> left + length inp < 512"
  defines "S' \<equiv> sp_absorb S left inp"
  shows "blake2sp_inv S' \<and> pS S' = fst (stripes (pS S) inp) \<and>
    sp_pending S' = take left (pbuf S) @ snd (stripes (pS S) inp) \<and> pR S' = pR S \<and> poutlen S' = poutlen S"
proof -
  let ?S1 = "S\<lparr>pS := fst (stripes (pS S) inp)\<rparr>" and ?rest = "snd (stripes (pS S) inp)"
  have "left + length ?rest < 512"
    using assms(3) length_stripes_rest [of "pS S" inp]
    by (auto simp: stripes_small)
  from sp_store_rest [OF _ _ this, of ?S1] show ?thesis
    using assms(1,2) by (simp add: S'_def sp_absorb_def Let_def leaves_loop_stripes length_stripes
        stripes_rest [of "pS S", symmetric])
qed

lemma sp_update_stripes:
  assumes inv: "blake2sp_inv S"
  shows "blake2sp_inv (blake2sp_update S inp) \<and>
    (pS (blake2sp_update S inp), sp_pending (blake2sp_update S inp)) = stripes (pS S) (sp_pending S @ inp) \<and>
    pR (blake2sp_update S inp) = pR S \<and> poutlen (blake2sp_update S inp) = poutlen S"
proof -
  let ?left = "pbuflen S" and ?fill = "512 - pbuflen S"
  have S: "length (pS S) = 8" "length (pbuf S) = 512" "?left < 512"
    using inv by (simp_all add: blake2sp_inv_def)
  show ?thesis
  proof (cases "?left \<noteq> 0 \<and> ?fill \<le> length inp")
    case True
    let ?buf = "memcpy_at (pbuf S) ?left (take ?fill inp)"
    let ?S1 = "S\<lparr>pbuf := ?buf, pS := leaves_stripe (pS S) ?buf\<rparr>"
    have buf: "?buf = take 512 (sp_pending S @ inp)" and rest: "drop ?fill inp = drop 512 (sp_pending S @ inp)"
      using S True by (simp_all add: memcpy_full sp_pending_def)
    have upd: "blake2sp_update S inp = sp_absorb ?S1 0 (drop ?fill inp)"
      using True by (simp add: blake2sp_update_def Let_def)
    have str: "stripes (pS S) (sp_pending S @ inp) = stripes (leaves_stripe (pS S) ?buf) (drop ?fill inp)"
    proof -
      have "512 \<le> length (sp_pending S @ inp)"
        using S True by (simp add: sp_pending_def) linarith
      then show ?thesis
        unfolding buf rest by (subst stripes.simps) (simp only: if_True)
    qed
    have "length ?buf = 512"
      using S True by (simp add: length_memcpy_at)
    then show ?thesis
      using sp_absorb_stripes [of ?S1 0 "drop ?fill inp"] by (simp add: upd str)
  next
    case False
    have upd: "blake2sp_update S inp = sp_absorb S ?left inp"
      using False by (auto simp: blake2sp_update_def Let_def)
    have small: "?left = 0 \<or> ?left + length inp < 512"
      using False by auto
    have "stripes (pS S) (sp_pending S @ inp) = (fst (stripes (pS S) inp), sp_pending S @ snd (stripes (pS S) inp))"
      using small S by (auto simp: stripes_small sp_pending_def)
    then show ?thesis
      using sp_absorb_stripes [OF S(1,2) small] by (simp add: upd sp_pending_def)
  qed
qed

lemma sp_updates_stripes:
  "blake2sp_inv S \<Longrightarrow>
    let S' = fold (\<lambda>c S. blake2sp_update S c) cs S in
    blake2sp_inv S' \<and> (pS S', sp_pending S') = stripes (pS S) (sp_pending S @ concat cs) \<and>
    pR S' = pR S \<and> poutlen S' = poutlen S"
proof (induction cs arbitrary: S)
  case Nil
  then show ?case
    by (simp add: blake2sp_inv_def stripes_small sp_pending_def)
next
  case (Cons c cs)
  let ?S1 = "blake2sp_update S c"
  have 1: "blake2sp_inv ?S1" "(pS ?S1, sp_pending ?S1) = stripes (pS S) (sp_pending S @ c)"
    "pR ?S1 = pR S" "poutlen ?S1 = poutlen S"
    using sp_update_stripes [OF Cons.prems, of c] by simp_all
  have "stripes (pS ?S1) (sp_pending ?S1 @ concat cs) = stripes (pS S) (sp_pending S @ c @ concat cs)"
    using stripes_append [of "pS S" "sp_pending S @ c" "concat cs"] by (simp flip: 1(2))
  with Cons.IH [OF 1(1)] 1(3,4) show ?case
    by (simp add: Let_def)
qed

lemma length_blake2sp_leaves [simp]: "length (blake2sp_leaves outlen keylen) = 8"
  by (simp add: blake2sp_leaves_def)

text \<open>The digest of the one-shot function over the stripes.\<close>

lemma leaf_digests:
  "length Ls = 8 \<Longrightarrow>
    map (\<lambda>i. let (L, rest) = leaf_loop i (Ls ! i) inp in leaf_final i L rest) [0..<8] =
    map (\<lambda>i. leaf_final i (fst (stripes Ls inp) ! i) (snd (stripes Ls inp))) [0..<8]"
  by (simp add: leaf_loop_stripes)

lemma sp_stream:
  assumes "blake2sp_inv S" "sp_pending S = []" "outlen = poutlen S"
  shows "blake2sp_final (fold (\<lambda>c S. blake2sp_update S c) cs S) outlen =
    Option.bind
      (those (map (\<lambda>i. let (L, rest) = leaf_loop i (pS S ! i) (concat cs) in leaf_final i L rest) [0..<8]))
      (\<lambda>hashes. root_final (pR S) hashes outlen)"
proof -
  let ?S = "fold (\<lambda>c S. blake2sp_update S c) cs S"
  have S: "(pS ?S, sp_pending ?S) = stripes (pS S) (concat cs)" "pR ?S = pR S" "poutlen ?S = poutlen S"
    using sp_updates_stripes [OF assms(1), of cs] assms(2) by (simp_all add: Let_def)
  have "length (pS S) = 8"
    using assms(1) by (simp add: blake2sp_inv_def)
  then show ?thesis
    unfolding leaf_digests [OF \<open>length (pS S) = 8\<close>] S(1) [symmetric]
    by (simp add: blake2sp_final_def S(2,3) assms(3) sp_pending_def)
qed

text \<open>Every leaf and the root produce a digest.\<close>

lemma blake2s_final_ok: "bf0 S = 0 \<Longrightarrow> boutlen S \<le> outlen \<Longrightarrow> \<exists>d S'. blake2s_final S outlen = Some (d, S')"
  by (simp add: blake2s_final_def blake2s_is_lastblock_def Let_def)

lemma blocks_frame2:
  "bf0 (fst (blake2s_blocks S inp)) = bf0 S \<and> boutlen (fst (blake2s_blocks S inp)) = boutlen S"
proof (induction S inp rule: blake2s_blocks.induct)
  case (1 S inp)
  then show ?case
    by (subst (1 2) blake2s_blocks.simps) simp
qed

lemma update_frame [simp]:
  "bf0 (blake2s_update S inp) = bf0 S" "boutlen (blake2s_update S inp) = boutlen S"
  by (simp_all add: blake2s_update_def Let_def case_prod_beta blocks_frame2)

definition open_state :: "nat \<Rightarrow> blake2s_state \<Rightarrow> bool" where
  "open_state n S \<longleftrightarrow> bf0 S = 0 \<and> boutlen S = n"

lemma open_update [simp]: "open_state n (blake2s_update S inp) = open_state n S"
  by (simp add: open_state_def)

lemma open_leaf_loop: "open_state n L \<Longrightarrow> open_state n (fst (leaf_loop i L inp))"
proof (induction i L inp rule: leaf_loop.induct)
  case (1 i L inp)
  then show ?case by (subst leaf_loop.simps) simp
qed

lemma open_leaves:
  "L \<in> set (blake2sp_leaves outlen keylen) \<Longrightarrow> open_state 32 L"
  by (auto simp: blake2sp_leaves_def open_state_def blake2sp_init_leaf_def
      blake2sp_init_leaf_param_def blake2s_init_param_def blake2s_init0_def Let_def
      dest!: set_update_subset_insert [THEN subsetD])

lemma length_digest: "open_state n S \<Longrightarrow> n \<le> outlen \<Longrightarrow> outlen \<le> 32 \<Longrightarrow>
    \<exists>d S'. blake2s_final S outlen = Some (d, S') \<and> length d = outlen"
  by (simp add: open_state_def blake2s_final_def blake2s_is_lastblock_def Let_def blake2s_compress_def
      store32_def length_concat comp_def sum_list_triv)

lemma leaf_final_ok: "open_state 32 L \<Longrightarrow> leaf_final i L rest \<noteq> None"
proof -
  assume "open_state 32 L"
  then have "\<exists>d S'. blake2s_final (if c then blake2s_update L x else L) 32 = Some (d, S')" for c x
    using length_digest [of 32 "if c then blake2s_update L x else L" 32] by auto
  then show ?thesis
    unfolding leaf_final_def Let_def by (metis option.map_disc_iff option.distinct(1))
qed

lemma those_map_Some: "(\<And>x. x \<in> set xs \<Longrightarrow> f x \<noteq> None) \<Longrightarrow> \<exists>ys. those (map f xs) = Some ys"
  by (induction xs) (fastforce split: option.splits)+

lemma root_final_ok:
  assumes "open_state outlen R" "outlen \<le> 32"
  shows "\<exists>d. root_final R hashes outlen = Some d \<and> length d = outlen"
proof -
  have "open_state outlen (fold (\<lambda>hash R. blake2s_update R hash) hashes R)"
    using assms(1) by (induction hashes arbitrary: R) simp_all
  then show ?thesis
    using length_digest [OF _ order_refl assms(2)] by (force simp: root_final_def)
qed

lemma blake2sp_defined:
  assumes "0 < outlen" "outlen \<le> 32" "length key \<le> 32"
  shows "\<exists>d. blake2sp outlen inp key = Some d \<and> length d = outlen"
proof -
  define S where "S = (if 0 < length key
    then map (\<lambda>L. blake2s_update L (blake2sp_key_block key)) (blake2sp_leaves outlen (length key))
    else blake2sp_leaves outlen (length key))"
  have "open_state 32 (S ! i)" if "i < 8" for i
    using that open_leaves [OF nth_mem] by (simp add: S_def)
  then have "leaf_final i (fst (leaf_loop i (S ! i) inp)) (snd (leaf_loop i (S ! i) inp)) \<noteq> None" if "i < 8" for i
    using that by (intro leaf_final_ok open_leaf_loop)
  then obtain hashes where "those (map (\<lambda>i. let (L, rest) = leaf_loop i (S ! i) inp in leaf_final i L rest) [0..<8])
      = Some hashes"
    using those_map_Some [of "[0..<8]" "\<lambda>i. let (L, rest) = leaf_loop i (S ! i) inp in leaf_final i L rest"]
    by (auto simp: Let_def case_prod_beta)
  moreover have "open_state outlen ((blake2sp_init_root outlen (length key))\<lparr>blast_node := 1\<rparr>)"
    using assms(2) by (simp add: open_state_def blake2sp_init_root_def blake2s_init_param_def
        blake2s_init0_def unat_of_nat take_bit_nat_eq_self)
  moreover have "blake2sp outlen inp key =
      Option.bind (those (map (\<lambda>i. let (L, rest) = leaf_loop i (S ! i) inp in leaf_final i L rest) [0..<8]))
        (\<lambda>hashes. root_final ((blake2sp_init_root outlen (length key))\<lparr>blast_node := 1\<rparr>) hashes outlen)"
    using assms by (simp add: blake2sp_def Let_def S_def)
  ultimately show ?thesis
    using assms root_final_ok by simp
qed

text \<open>C17: the one-shot BLAKE2sp equals the streaming interface on every way to cut the message into
  updates, with and without a key, the rejected parameters included; and it returns a digest of the
  requested length exactly for a digest length of 1 to 32 and a key of at most 32 bytes.\<close>

theorem blake2sp_oneshot_stream:
  "blake2sp outlen (concat cs) key =
     Option.bind (if key = [] then blake2sp_init outlen else blake2sp_init_key outlen key)
       (\<lambda>S. blake2sp_final (fold (\<lambda>c S. blake2sp_update S c) cs S) outlen) \<and>
   (case blake2sp outlen inp key of
      None \<Rightarrow> \<not> (0 < outlen \<and> outlen \<le> 32 \<and> length key \<le> 32)
    | Some d \<Rightarrow> length d = outlen \<and> 0 < outlen \<and> outlen \<le> 32 \<and> length key \<le> 32)"
proof (cases "0 < outlen \<and> outlen \<le> 32 \<and> length key \<le> 32")
  case True
  then show ?thesis
    using blake2sp_defined [of outlen key inp]
    by (auto simp: blake2sp_def blake2sp_init_def blake2sp_init_key_def Let_def sp_stream
        blake2sp_inv_def sp_pending_def)
next
  case False
  then show ?thesis
    by (auto simp: blake2sp_def blake2sp_init_def blake2sp_init_key_def)
qed

end
