(* ===== verification/Utils.thy ===== *)
theory Utils
  imports Prelude
begin

text \<open>
  The text helpers of \<open>csdb/include/csdb/internal/utils.h\<close> and \<open>csdb/src/utils.cpp\<close>: the
  conversion between byte arrays and hexadecimal strings, by which addresses, pool hashes and
  transaction ids are printed and parsed, and the path separator.  The lemmas show the two round
  trips and that parsing keeps the longest prefix of whole hexadecimal pairs.
\<close>

subsection \<open>Hexadecimal\<close>

text \<open>\<open>toupper\<close> of the C locale.\<close>

definition toupper :: "char \<Rightarrow> char" where
  "toupper c = (if 97 \<le> (of_char c :: nat) \<and> (of_char c :: nat) \<le> 122 then char_of (of_char c - 32 :: nat) else c)"

definition digit_from_hex :: "char \<Rightarrow> u8 option" where
  "digit_from_hex c =
     (let val = of_char (toupper c) :: nat in
      if 48 \<le> val \<and> val \<le> 57 then Some (of_nat (val - 48))
      else if 65 \<le> val \<and> val \<le> 70 then Some (of_nat (val - 65 + 10))
      else None)"

fun from_hex :: "string \<Rightarrow> byte_array" where
  "from_hex (a # b # it) =
     (case digit_from_hex a of None \<Rightarrow> [] | Some h \<Rightarrow>
      (case digit_from_hex b of None \<Rightarrow> [] | Some l \<Rightarrow> (push_bit 4 h OR l) # from_hex it))"
| "from_hex _ = []"

definition digit_to_hex :: "u8 \<Rightarrow> char" where
  "digit_to_hex val = char_of (if val < 10 then unat val + 48 else unat val - 10 + 65)"

primrec to_hex :: "byte_array \<Rightarrow> string" where
  "to_hex [] = []"
| "to_hex (b # it) = digit_to_hex (drop_bit 4 b AND 0x0F) # digit_to_hex (b AND 0x0F) # to_hex it"

subsection \<open>Paths\<close>

definition path_add_separator :: "string \<Rightarrow> string" where
  "path_add_separator path =
     (if path = [] then path
      else if last path \<noteq> CHR 0x5C \<and> last path \<noteq> CHR ''/'' then path @ ''/''
      else path)"

subsection \<open>Round trips\<close>

lemma digit_to_hex_code:
  "v < 16 \<Longrightarrow> of_char (digit_to_hex v) = (if unat v < 10 then unat v + 48 else unat v + 55)"
  by (auto simp: digit_to_hex_def word_less_nat_alt)

lemma digit_from_to_hex: "v < 16 \<Longrightarrow> digit_from_hex (digit_to_hex v) = Some v"
  by (auto simp: digit_from_hex_def toupper_def digit_to_hex_code Let_def word_less_nat_alt)

lemma nibble_lt: "(b :: u8) AND 0x0F < 16"
proof -
  have "b AND 0x0F = take_bit 4 b"
    by (simp add: take_bit_eq_mask mask_eq_exp_minus_1)
  then show ?thesis
    using take_bit_nat_less_exp [of 4 "unat b"]
    by (simp add: word_less_nat_alt unsigned_take_bit_eq)
qed

lemma nibbles_join: "push_bit 4 (drop_bit 4 b AND 0x0F) OR (b AND 0x0F) = (b :: u8)"
proof (rule bit_word_eqI)
  fix n assume "n < LENGTH(8)"
  then have "n < 8" by simp
  have m: "(0x0F :: u8) = mask 4"
    by (simp add: mask_eq_exp_minus_1)
  show "bit (push_bit 4 (drop_bit 4 b AND 0x0F) OR (b AND 0x0F)) n = bit b n"
    using \<open>n < 8\<close>
    by (auto simp: m bit_or_iff bit_and_iff bit_push_bit_iff bit_drop_bit_eq bit_mask_iff)
qed

lemma from_to_hex: "from_hex (to_hex bs) = bs"
  by (induction bs) (simp_all add: digit_from_to_hex nibble_lt nibbles_join [simplified])

text \<open>A character is a hexadecimal digit when it parses.\<close>

lemma digit_to_from_hex: "digit_from_hex c = Some v \<Longrightarrow> v < 16 \<and> digit_to_hex v = toupper c"
proof -
  assume c: "digit_from_hex c = Some v"
  let ?n = "of_char (toupper c) :: nat"
  have lt: "?n < 256" by simp
  consider (digit) "48 \<le> ?n" "?n \<le> 57" "v = of_nat (?n - 48)"
    | (letter) "65 \<le> ?n" "?n \<le> 70" "v = of_nat (?n - 65 + 10)"
    using c by (auto simp: digit_from_hex_def Let_def split: if_splits)
  then show ?thesis
  proof cases
    case digit
    then have "unat v = ?n - 48"
      by (simp only: unat_of_nat) (simp add: take_bit_nat_eq_self)
    moreover from digit have "?n - 48 < 10" by linarith
    ultimately show ?thesis
      using digit(1) by (simp add: digit_to_hex_def word_less_nat_alt)
  next
    case letter
    then have "unat v = ?n - 65 + 10"
      by (simp only: unat_of_nat) (simp add: take_bit_nat_eq_self)
    moreover from letter have "\<not> ?n - 55 < 10" "?n - 55 < 16" by linarith+
    ultimately show ?thesis
      using letter(1) by (simp add: digit_to_hex_def word_less_nat_alt)
  qed
qed

lemma nibbles_split:
  assumes "h < 16" "l < (16 :: u8)"
  shows "drop_bit 4 (push_bit 4 h OR l) AND 0x0F = h" "(push_bit 4 h OR l) AND 0x0F = l"
proof -
  have small: "\<not> bit x n" if "x < 16" "4 \<le> n" for x :: u8 and n
  proof -
    have "x = take_bit 4 x"
      using that(1)
      by (intro word_unat_eq_iff [THEN iffD2])
        (simp add: word_less_nat_alt unsigned_take_bit_eq take_bit_nat_eq_self)
    then show ?thesis using that(2) by (metis bit_take_bit_iff not_le)
  qed
  have m: "(0x0F :: u8) = mask 4"
    by (simp add: mask_eq_exp_minus_1)
  show "drop_bit 4 (push_bit 4 h OR l) AND 0x0F = h"
  proof (rule bit_word_eqI)
    fix n assume "n < LENGTH(8)"
    then show "bit (drop_bit 4 (push_bit 4 h OR l) AND 0x0F) n = bit h n"
      using small [OF assms(1), of n] small [OF assms(2), of "4 + n"]
      by (auto simp: m not_le [symmetric] bit_or_iff bit_and_iff bit_push_bit_iff bit_drop_bit_eq bit_mask_iff)
  qed
  show "(push_bit 4 h OR l) AND 0x0F = l"
  proof (rule bit_word_eqI)
    fix n assume "n < LENGTH(8)"
    then show "bit ((push_bit 4 h OR l) AND 0x0F) n = bit l n"
      using small [OF assms(2), of n]
      by (auto simp: m not_le [symmetric] bit_or_iff bit_and_iff bit_push_bit_iff bit_mask_iff)
  qed
qed

text \<open>Parsing keeps the longest prefix made of pairs of hexadecimal digits.\<close>

primrec hex_pairs :: "nat \<Rightarrow> string \<Rightarrow> bool" where
  "hex_pairs 0 s \<longleftrightarrow> True"
| "hex_pairs (Suc n) s \<longleftrightarrow>
     (case s of a # b # s' \<Rightarrow> digit_from_hex a \<noteq> None \<and> digit_from_hex b \<noteq> None \<and> hex_pairs n s'
      | _ \<Rightarrow> False)"

lemma to_from_hex:
  "to_hex (from_hex s) = map toupper (take (2 * length (from_hex s)) s)"
proof (induction s rule: from_hex.induct)
  case (1 a b it)
  then show ?case
    by (auto split: option.splits dest!: digit_to_from_hex simp: nibbles_split [simplified])
qed simp_all

lemma hex_pairs_short: "hex_pairs n [] \<longleftrightarrow> n = 0" "hex_pairs n [v] \<longleftrightarrow> n = 0"
  by (cases n; simp)+

lemma from_hex_longest: "hex_pairs n s \<longleftrightarrow> n \<le> length (from_hex s)"
proof (induction s arbitrary: n rule: from_hex.induct)
  case (1 a b it)
  then show ?case by (cases n) (auto split: option.splits)
qed (simp_all add: hex_pairs_short)

lemma path_add_separator_idem: "path_add_separator (path_add_separator p) = path_add_separator p"
  by (simp add: path_add_separator_def)

text \<open>Printing bytes in hexadecimal and parsing them back is the identity; parsing any text keeps
  exactly its longest prefix of hexadecimal pairs, and printing the result gives that prefix in
  upper case.\<close>

theorem hex_roundtrip:
  "from_hex (to_hex bs) = bs \<and>
   to_hex (from_hex s) = map toupper (take (2 * length (from_hex s)) s) \<and>
   (hex_pairs n s \<longleftrightarrow> n \<le> length (from_hex s))"
  by (simp add: from_to_hex to_from_hex from_hex_longest)

end
