(* ===== verification/Crypto.thy ===== *)
theory Crypto
  imports Blake2sp Utils
begin

text \<open>
  The hashing part of \<open>crypto/include/cscrypto/cscrypto.h\<close>, \<open>crypto/src/cscrypto.cpp\<close> and
  \<open>csdb/src/priv_crypto.cpp\<close>: fixed-size arrays, the hash (which is BLAKE2sp with a 32-byte digest,
  despite its name), addresses, and the second pair of hexadecimal routines of the repository, which
  is shown equal to the first where both are defined.
\<close>

subsection \<open>Hexadecimal and fixed-size arrays\<close>

definition byteToHex :: "u8 \<Rightarrow> char" where
  "byteToHex b = char_of (if b < 10 then unat b + 48 else unat b - 10 + 65)"

definition hexToByte :: "char \<Rightarrow> u8" where
  "hexToByte c =
     (let inp = of_char c :: nat in
      if 48 \<le> inp \<and> inp \<le> 57 then of_nat (inp - 48)
      else if 65 \<le> inp \<and> inp \<le> 70 then of_nat (inp - 65 + 10)
      else if 97 \<le> inp \<and> inp \<le> 102 then of_nat (inp - 97 + 10)
      else 0)"

definition bytesToHexString :: "byte_array \<Rightarrow> string" where
  "bytesToHexString bytes =
     concat (map (\<lambda>p. [byteToHex (drop_bit 4 p AND 0x0F), byteToHex (p AND 0x0F)]) bytes)"

definition hexStringToBytes :: "string \<Rightarrow> byte_array" where
  "hexStringToBytes hex =
     map (\<lambda>i. hexToByte (hex ! (2 * i)) * 16 + hexToByte (hex ! (2 * i + 1))) [0..<length hex div 2]"

definition FixedArray :: "nat \<Rightarrow> byte_array \<Rightarrow> byte_array" where
  "FixedArray sizeBytes source =
     (let len = min sizeBytes (length source) in take len source @ replicate (sizeBytes - len) 0)"

subsection \<open>Hashes\<close>

abbreviation (input) hash_size :: nat where "hash_size \<equiv> 32"
abbreviation (input) public_key_size :: nat where "public_key_size \<equiv> 32"

definition cscrypto_blake2s :: "byte_array \<Rightarrow> byte_array" where
  "cscrypto_blake2s data =
     (case blake2sp BLAKE2S_OUTBYTES data [] of None \<Rightarrow> replicate hash_size 0 | Some result \<Rightarrow> result)"

definition calc_hash :: "byte_array \<Rightarrow> byte_array" where
  "calc_hash buffer = cscrypto_blake2s buffer"

definition right160 :: "byte_array \<Rightarrow> byte_array" where
  "right160 h256 = take 20 (drop 12 h256)"

definition toAddress :: "byte_array \<Rightarrow> byte_array" where
  "toAddress publicKey = right160 (cscrypto_blake2s publicKey)"

subsection \<open>Properties\<close>

lemma length_calc_hash [simp]: "length (calc_hash data) = hash_size"
  using blake2sp_defined [of 32 "[]" data]
  by (auto simp: calc_hash_def cscrypto_blake2s_def)

lemma length_toAddress: "length (toAddress key) = 20"
  using length_calc_hash [of key] by (simp add: toAddress_def right160_def calc_hash_def)

lemma length_FixedArray: "length (FixedArray n source) = n"
  by (simp add: FixedArray_def Let_def min_def)

lemma bytesToHexString_to_hex: "bytesToHexString bs = to_hex bs"
  by (induction bs) (simp_all add: bytesToHexString_def byteToHex_def digit_to_hex_def)

lemma hexToByte_digit: "digit_from_hex c = Some v \<Longrightarrow> hexToByte c = v"
  by (auto simp: hexToByte_def digit_from_hex_def toupper_def Let_def split: if_splits)

lemma hexStringToBytes_Cons:
  "hexStringToBytes (a # b # s) = (hexToByte a * 16 + hexToByte b) # hexStringToBytes s"
proof -
  have "[0..<Suc (length s div 2)] = 0 # map Suc [0..<length s div 2]"
    by (simp add: map_Suc_upt upt_conv_Cons)
  then show ?thesis
    by (simp add: hexStringToBytes_def comp_def)
qed

lemma nibble_sum:
  assumes "h < 16" "l < (16 :: u8)"
  shows "h * 16 + l = push_bit 4 h OR l"
proof -
  have "\<not> bit l n" if "4 \<le> n" for n
  proof -
    have "l = take_bit 4 l"
      using assms(2) by (intro word_unat_eq_iff [THEN iffD2])
        (simp add: word_less_nat_alt unsigned_take_bit_eq take_bit_nat_eq_self)
    then show ?thesis using that by (metis bit_take_bit_iff not_le)
  qed
  then have "push_bit 4 h + l = push_bit 4 h OR l"
    by (intro disjunctive_add) (auto simp: bit_push_bit_iff)
  then show ?thesis
    by (simp add: push_bit_eq_mult mult.commute)
qed

text \<open>On text made of hexadecimal pairs the two parsers agree; elsewhere this one reads a zero digit
  where the other stops.\<close>

lemma hexStringToBytes_from_hex:
  "length s = 2 * length (from_hex s) \<Longrightarrow> hexStringToBytes s = from_hex s"
proof (induction s rule: from_hex.induct)
  case (1 a b it)
  then show ?case
    by (auto split: option.splits simp: hexStringToBytes_Cons hexToByte_digit
        intro!: nibble_sum digit_to_from_hex [THEN conjunct1])
qed (simp_all add: hexStringToBytes_def)

text \<open>The hash of every buffer has 32 bytes and the address of every key 20; the hexadecimal
  routines of the crypto library print exactly as those of the database and parse back what they
  print.\<close>

theorem crypto_hash_and_hex:
  "length (calc_hash data) = hash_size \<and> length (toAddress key) = 20 \<and>
   bytesToHexString bs = to_hex bs \<and> hexStringToBytes (bytesToHexString bs) = bs"
proof -
  have "length (to_hex bs) = 2 * length bs"
    by (induction bs) simp_all
  then show ?thesis
    by (simp add: length_toAddress bytesToHexString_to_hex hexStringToBytes_from_hex from_to_hex)
qed

end
