(* ===== verification/Values.thy ===== *)
theory Values
  imports Amount Streams Crypto "HOL-Library.List_Lexorder" "HOL-Library.Char_ord"
begin

text \<open>
  The value classes of the database: amounts on a stream (\<open>csdb/src/amount.cpp\<close>), user fields
  (\<open>csdb/src/user_field.cpp\<close>), addresses (\<open>csdb/src/address.cpp\<close>), currencies
  (\<open>csdb/src/currency.cpp\<close>) and pool hashes (the first part of \<open>csdb/src/pool.cpp\<close>).  The classes
  share their data copy-on-write, so a value of the model is the content; comparison of the pointers
  before the contents does not change the result.  \<open>std::vector\<close> and \<open>std::string\<close> compare
  lexicographically by unsigned bytes, which is the order of the library on lists.  Every class
  interprets the \<open>codec\<close> contract.
\<close>

subsection \<open>Orders of map keys\<close>

interpretation linorder_key: key_order "(<) :: 'a::linorder \<Rightarrow> 'a \<Rightarrow> bool"
  by unfold_locales auto

definition id_lt :: "u32 \<Rightarrow> u32 \<Rightarrow> bool" where
  "id_lt a b \<longleftrightarrow> sint a < sint b"

interpretation id_key: key_order id_lt
  unfolding id_lt_def by (rule key_order_image) (rule signed_word_eqI)

subsection \<open>Amounts\<close>

definition put_amount :: "amount \<Rightarrow> byte_array" where
  "put_amount a = put_int (integral a) @ put_int (fraction a)"

definition get_amount :: "byte_array \<Rightarrow> (amount \<times> byte_array) option" where
  "get_amount is = do {
     (i, is) \<leftarrow> get_u32 is;
     (f, is) \<leftarrow> get_u64 is;
     Some (\<lparr>integral = i, fraction = f\<rparr>, is) }"

interpretation amount_codec: codec "\<lambda>_. True" put_amount get_amount
proof
  show "get_amount (put_amount v @ rest) = Some (v, rest)" for v rest
    by (simp add: get_amount_def put_amount_def)
qed (unfold get_amount_def, intro local_intros)

subsection \<open>User fields\<close>

datatype user_field = UF_Unknown | UF_Integer u64 | UF_String string | UF_Amount amount

definition user_field_type :: "user_field \<Rightarrow> u8" where
  "user_field_type f = (case f of UF_Unknown \<Rightarrow> 0 | UF_Integer _ \<Rightarrow> 1 | UF_String _ \<Rightarrow> 2 | UF_Amount _ \<Rightarrow> 3)"

definition user_field_is_valid :: "user_field \<Rightarrow> bool" where
  "user_field_is_valid f \<longleftrightarrow> 0 \<noteq> user_field_type f"

definition user_field_of_bool :: "bool \<Rightarrow> user_field" where
  "user_field_of_bool value = UF_Integer (if value then 1 else 0)"

definition user_field_integer :: "user_field \<Rightarrow> u64" where
  "user_field_integer f = (case f of UF_Integer i \<Rightarrow> i | _ \<Rightarrow> 0)"

definition user_field_bool :: "user_field \<Rightarrow> bool" where
  "user_field_bool f \<longleftrightarrow> 0 \<noteq> user_field_integer f"

definition user_field_string :: "user_field \<Rightarrow> string" where
  "user_field_string f = (case f of UF_String s \<Rightarrow> s | _ \<Rightarrow> [])"

definition user_field_amount :: "user_field \<Rightarrow> amount" where
  "user_field_amount f = (case f of UF_Amount a \<Rightarrow> a | _ \<Rightarrow> amount_of_int 0)"

definition user_field_equal :: "user_field \<Rightarrow> user_field \<Rightarrow> bool" where
  "user_field_equal f g =
     (if user_field_type f \<noteq> user_field_type g then False
      else (case f of
          UF_Integer i \<Rightarrow> i = user_field_integer g
        | UF_String s \<Rightarrow> s = user_field_string g
        | UF_Amount a \<Rightarrow> amount_eq a (user_field_amount g)
        | UF_Unknown \<Rightarrow> True))"

definition put_user_field :: "user_field \<Rightarrow> byte_array" where
  "put_user_field f =
     (case f of
        UF_Integer i \<Rightarrow> put_int (user_field_type f) @ put_int i
      | UF_String s \<Rightarrow> put_int (user_field_type f) @ put_string s
      | UF_Amount a \<Rightarrow> put_int (user_field_type f) @ put_amount a
      | UF_Unknown \<Rightarrow> [])"

definition get_user_field :: "byte_array \<Rightarrow> (user_field \<times> byte_array) option" where
  "get_user_field is = do {
     (type, is) \<leftarrow> get_u8 is;
     (if type = 1 then do { (i, is) \<leftarrow> get_u64 is; Some (UF_Integer i, is) }
      else if type = 2 then do { (s, is) \<leftarrow> get_string is; Some (UF_String s, is) }
      else if type = 3 then do { (a, is) \<leftarrow> get_amount is; Some (UF_Amount a, is) }
      else None) }"

definition user_field_ok :: "user_field \<Rightarrow> bool" where
  "user_field_ok f = (case f of UF_Unknown \<Rightarrow> False | UF_String s \<Rightarrow> length s < 2 ^ 32 | _ \<Rightarrow> True)"

lemma user_field_equal_iff: "user_field_equal f g \<longleftrightarrow> f = g"
  by (cases f; cases g) (auto simp: user_field_equal_def user_field_type_def user_field_integer_def
      user_field_string_def user_field_amount_def amount_eq_def)

interpretation user_field_codec: codec user_field_ok put_user_field get_user_field
proof
  show "get_user_field (put_user_field v @ rest) = Some (v, rest)" if "user_field_ok v" for v rest
    using that by (cases v) (simp_all add: user_field_ok_def get_user_field_def put_user_field_def
        user_field_type_def string_codec.get_put amount_codec.get_put)
qed (unfold get_user_field_def, intro local_intros string_codec.get_local amount_codec.get_local)

text \<open>The map of user fields, which transactions and pools carry.\<close>

type_synonym user_fields = "(u32 \<times> user_field) list"

abbreviation put_user_fields :: "user_fields \<Rightarrow> byte_array" where
  "put_user_fields \<equiv> put_map put_int put_user_field"

abbreviation get_user_fields :: "byte_array \<Rightarrow> (user_fields \<times> byte_array) option" where
  "get_user_fields \<equiv> get_map id_lt get_int get_user_field"

abbreviation user_fields_ok :: "user_fields \<Rightarrow> bool" where
  "user_fields_ok \<equiv> map_ok id_lt (\<lambda>_. True) user_field_ok"

interpretation user_fields_codec:
  map_codec id_lt "\<lambda>_. True" "put_int :: u32 \<Rightarrow> byte_array" get_int user_field_ok put_user_field get_user_field
  by unfold_locales

subsection \<open>Addresses\<close>

datatype address = Address (public_key: byte_array)

definition address_is_valid :: "address \<Rightarrow> bool" where
  "address_is_valid a \<longleftrightarrow> length (public_key a) = public_key_size"

definition address_eq :: "address \<Rightarrow> address \<Rightarrow> bool" where
  "address_eq a b \<longleftrightarrow> public_key a = public_key b"

definition address_lt :: "address \<Rightarrow> address \<Rightarrow> bool" where
  "address_lt a b \<longleftrightarrow> public_key a < public_key b"

definition address_to_string :: "address \<Rightarrow> string" where
  "address_to_string a = to_hex (public_key a)"

definition address_from_string :: "string \<Rightarrow> address" where
  "address_from_string val =
     (let data = from_hex val in if public_key_size = length data then Address data else Address [])"

definition address_from_public_key :: "byte_array \<Rightarrow> address" where
  "address_from_public_key key = (if public_key_size = length key then Address key else Address [])"

definition put_address :: "address \<Rightarrow> byte_array" where
  "put_address a = put_byte_array (public_key a)"

definition get_address :: "byte_array \<Rightarrow> (address \<times> byte_array) option" where
  "get_address is = do { (data, is) \<leftarrow> get_byte_array is; Some (Address data, is) }"

interpretation address_codec: codec "\<lambda>a. length (public_key a) < 2 ^ 64" put_address get_address
proof
  show "get_address (put_address v @ rest) = Some (v, rest)" if "length (public_key v) < 2 ^ 64" for v rest
    using that by (simp add: get_address_def put_address_def bytes_codec.get_put)
qed (unfold get_address_def, intro local_intros bytes_codec.get_local)

instantiation address :: linorder
begin

definition less_address :: "address \<Rightarrow> address \<Rightarrow> bool" where
  "less_address = address_lt"

definition less_eq_address :: "address \<Rightarrow> address \<Rightarrow> bool" where
  "less_eq_address a b \<longleftrightarrow> address_lt a b \<or> a = b"

instance
proof
  fix x y :: address
  show "x \<le> y \<or> y \<le> x"
    using address.expand [of x y] neq_iff [of "public_key x" "public_key y"]
    by (auto simp: less_eq_address_def address_lt_def)
qed (auto simp: less_address_def less_eq_address_def address_lt_def)

end

subsection \<open>Currencies\<close>

datatype currency = Currency (currency_name: string)

definition currency_is_valid :: "currency \<Rightarrow> bool" where
  "currency_is_valid c \<longleftrightarrow> currency_name c \<noteq> []"

definition currency_eq :: "currency \<Rightarrow> currency \<Rightarrow> bool" where
  "currency_eq c d \<longleftrightarrow> currency_name c = currency_name d"

definition currency_lt :: "currency \<Rightarrow> currency \<Rightarrow> bool" where
  "currency_lt c d \<longleftrightarrow> currency_name c < currency_name d"

definition put_currency :: "currency \<Rightarrow> byte_array" where
  "put_currency c = put_string (currency_name c)"

definition get_currency :: "byte_array \<Rightarrow> (currency \<times> byte_array) option" where
  "get_currency is = do { (name, is) \<leftarrow> get_string is; Some (Currency name, is) }"

interpretation currency_codec: codec "\<lambda>c. length (currency_name c) < 2 ^ 32" put_currency get_currency
proof
  show "get_currency (put_currency v @ rest) = Some (v, rest)" if "length (currency_name v) < 2 ^ 32" for v rest
    using that by (simp add: get_currency_def put_currency_def string_codec.get_put)
qed (unfold get_currency_def, intro local_intros string_codec.get_local)

interpretation currency_key: key_order currency_lt
  unfolding currency_lt_def by (rule key_order_image) (rule currency.expand)

subsection \<open>Pool hashes\<close>

datatype pool_hash = PoolHash (hash_value: byte_array)

definition pool_hash_is_empty :: "pool_hash \<Rightarrow> bool" where
  "pool_hash_is_empty p \<longleftrightarrow> hash_value p = []"

definition pool_hash_to_string :: "pool_hash \<Rightarrow> string" where
  "pool_hash_to_string p = to_hex (hash_value p)"

definition pool_hash_from_binary :: "byte_array \<Rightarrow> pool_hash" where
  "pool_hash_from_binary data =
     (let sz = length data in if 0 = sz \<or> hash_size = sz then PoolHash data else PoolHash [])"

definition pool_hash_eq :: "pool_hash \<Rightarrow> pool_hash \<Rightarrow> bool" where
  "pool_hash_eq p q \<longleftrightarrow> hash_value p = hash_value q"

definition pool_hash_lt :: "pool_hash \<Rightarrow> pool_hash \<Rightarrow> bool" where
  "pool_hash_lt p q \<longleftrightarrow> hash_value p < hash_value q"

definition pool_hash_from_string :: "string \<Rightarrow> pool_hash" where
  "pool_hash_from_string str =
     (let hash = from_hex str; sz = length hash
      in if 0 = sz \<or> hash_size = sz then PoolHash hash else PoolHash [])"

definition calc_from_data :: "byte_array \<Rightarrow> pool_hash" where
  "calc_from_data data = PoolHash (calc_hash data)"

definition put_pool_hash :: "pool_hash \<Rightarrow> byte_array" where
  "put_pool_hash p = put_byte_array (hash_value p)"

definition get_pool_hash :: "byte_array \<Rightarrow> (pool_hash \<times> byte_array) option" where
  "get_pool_hash is = do { (v, is) \<leftarrow> get_byte_array is; Some (PoolHash v, is) }"

interpretation pool_hash_codec: codec "\<lambda>p. length (hash_value p) < 2 ^ 64" put_pool_hash get_pool_hash
proof
  show "get_pool_hash (put_pool_hash v @ rest) = Some (v, rest)" if "length (hash_value v) < 2 ^ 64" for v rest
    using that by (simp add: get_pool_hash_def put_pool_hash_def bytes_codec.get_put)
qed (unfold get_pool_hash_def, intro local_intros bytes_codec.get_local)

end
