(* ===== verification/Transaction.thy ===== *)
theory Transaction
  imports Values
begin

text \<open>
  Transactions and their identifiers: \<open>csdb/src/transaction.cpp\<close> and \<open>csdb/src/transaction_p.h\<close>.
  A transaction is a record of the fields of \<open>Transaction::priv\<close>; a setter of a read-only transaction
  does nothing.  The private data is copied by a constructor that drops the identifier and the
  read-only flag, which is what copy-on-write runs before a write to shared data;
  \<open>transaction_unsealed\<close> is the invariant under which that copy is the transaction itself.
\<close>

subsection \<open>Identifiers\<close>

record transaction_id =
  id_pool_hash :: pool_hash
  id_index :: u64

definition transaction_id_default :: transaction_id where
  "transaction_id_default = \<lparr>id_pool_hash = PoolHash [], id_index = 0\<rparr>"

definition transaction_id_is_valid :: "transaction_id \<Rightarrow> bool" where
  "transaction_id_is_valid i \<longleftrightarrow> \<not> pool_hash_is_empty (id_pool_hash i)"

definition transaction_id_eq :: "transaction_id \<Rightarrow> transaction_id \<Rightarrow> bool" where
  "transaction_id_eq i j \<longleftrightarrow> pool_hash_eq (id_pool_hash i) (id_pool_hash j) \<and> id_index i = id_index j"

definition transaction_id_lt :: "transaction_id \<Rightarrow> transaction_id \<Rightarrow> bool" where
  "transaction_id_lt i j =
     (if pool_hash_eq (id_pool_hash i) (id_pool_hash j) then id_index i < id_index j
      else pool_hash_lt (id_pool_hash i) (id_pool_hash j))"

definition put_transaction_id :: "transaction_id \<Rightarrow> byte_array" where
  "put_transaction_id i = put_pool_hash (id_pool_hash i) @ put_int (id_index i)"

definition get_transaction_id :: "byte_array \<Rightarrow> (transaction_id \<times> byte_array) option" where
  "get_transaction_id is = do {
     (p, is) \<leftarrow> get_pool_hash is;
     (i, is) \<leftarrow> get_u64 is;
     Some (\<lparr>id_pool_hash = p, id_index = i\<rparr>, is) }"

text \<open>\<open>os << std::hex << std::setfill('0') << std::setw(8) << index\<close>.\<close>

definition hex_digit_lower :: "nat \<Rightarrow> char" where
  "hex_digit_lower d = char_of (if d < 10 then d + 48 else d - 10 + 97)"

fun print_hex :: "nat \<Rightarrow> string" where
  "print_hex n = (if n < 16 then [hex_digit_lower n] else print_hex (n div 16) @ [hex_digit_lower (n mod 16)])"

declare print_hex.simps [simp del]

definition pad8 :: "string \<Rightarrow> string" where
  "pad8 s = replicate (8 - length s) (CHR ''0'') @ s"

definition transaction_id_to_string :: "transaction_id \<Rightarrow> string" where
  "transaction_id_to_string i =
     pool_hash_to_string (id_pool_hash i) @ '':'' @ pad8 (print_hex (unat (id_index i)))"

text \<open>\<open>strtoumax\<close> in base 10: white space, a sign, digits; saturation on overflow.  The result is the
  number and the text behind it, which is the whole text when there is no number.\<close>

definition isspace :: "char \<Rightarrow> bool" where
  "isspace c \<longleftrightarrow> (let n = of_char c :: nat in n = 32 \<or> 9 \<le> n \<and> n \<le> 13)"

definition isdigit :: "char \<Rightarrow> bool" where
  "isdigit c \<longleftrightarrow> (let n = of_char c :: nat in 48 \<le> n \<and> n \<le> 57)"

fun read_digits :: "nat \<Rightarrow> string \<Rightarrow> nat \<times> string" where
  "read_digits acc [] = (acc, [])"
| "read_digits acc (c # s) = (if isdigit c then read_digits (acc * 10 + (of_char c - 48)) s else (acc, c # s))"

definition strtoumax :: "string \<Rightarrow> u64 \<times> string" where
  "strtoumax s =
     (let t = dropWhile isspace s;
          (neg, t) = (if t \<noteq> [] \<and> hd t = CHR ''-'' then (True, tl t)
                      else if t \<noteq> [] \<and> hd t = CHR ''+'' then (False, tl t) else (False, t))
      in if t \<noteq> [] \<and> isdigit (hd t)
         then (let (n, rest) = read_digits 0 t
               in (if 2 ^ 64 \<le> n then - 1 else if neg then - of_nat n else of_nat n, rest))
         else (0, s))"

definition transaction_id_from_string :: "string \<Rightarrow> transaction_id" where
  "transaction_id_from_string str =
     (let res = transaction_id_default; pre = takeWhile (\<lambda>c. c \<noteq> CHR '':'') str in
      if length pre < length str
      then (let ph = pool_hash_from_string pre in
            if \<not> pool_hash_is_empty ph
            then (let start = takeWhile (\<lambda>c. c \<noteq> CHR 0x00) (drop (length pre + 1) str) in
                  if start \<noteq> []
                  then (let (idx, end) = strtoumax start in
                        if end \<noteq> start \<and> end = [] then res\<lparr>id_pool_hash := ph, id_index := idx\<rparr> else res)
                  else res)
            else res)
      else res)"

subsection \<open>Transactions\<close>

record transaction =
  tr_read_only :: bool
  tr_id :: transaction_id
  tr_innerID :: u64
  tr_source :: address
  tr_target :: address
  tr_currency :: currency
  tr_amount :: amount
  tr_max_fee :: amount
  tr_counted_fee :: amount
  tr_signature :: string
  tr_balance :: amount
  tr_user_fields :: user_fields

text \<open>The default constructor leaves \<open>innerID_\<close> uninitialised.\<close>

definition transaction_default :: transaction where
  "transaction_default =
     \<lparr>tr_read_only = False, tr_id = transaction_id_default, tr_innerID = undefined,
      tr_source = Address [], tr_target = Address [], tr_currency = Currency [],
      tr_amount = amount_of_int 0, tr_max_fee = amount_of_int 0, tr_counted_fee = amount_of_int 0,
      tr_signature = [], tr_balance = amount_of_int 0, tr_user_fields = []\<rparr>"

definition transaction_priv ::
  "u64 \<Rightarrow> address \<Rightarrow> address \<Rightarrow> currency \<Rightarrow> amount \<Rightarrow> amount \<Rightarrow> amount \<Rightarrow> string \<Rightarrow> amount \<Rightarrow> transaction" where
  "transaction_priv innerID source target currency amount max_fee counted_fee signature balance =
     \<lparr>tr_read_only = False, tr_id = transaction_id_default, tr_innerID = innerID,
      tr_source = source, tr_target = target, tr_currency = currency,
      tr_amount = amount, tr_max_fee = max_fee, tr_counted_fee = counted_fee,
      tr_signature = signature, tr_balance = balance, tr_user_fields = []\<rparr>"

definition transaction_copy :: "transaction \<Rightarrow> transaction" where
  "transaction_copy other =
     \<lparr>tr_read_only = False, tr_id = transaction_id_default, tr_innerID = tr_innerID other,
      tr_source = tr_source other, tr_target = tr_target other, tr_currency = tr_currency other,
      tr_amount = tr_amount other, tr_max_fee = tr_max_fee other, tr_counted_fee = tr_counted_fee other,
      tr_signature = tr_signature other, tr_balance = tr_balance other,
      tr_user_fields = tr_user_fields other\<rparr>"

definition transaction_update_id :: "pool_hash \<Rightarrow> u64 \<Rightarrow> transaction \<Rightarrow> transaction" where
  "transaction_update_id pool_hash index t =
     t\<lparr>tr_id := (tr_id t)\<lparr>id_pool_hash := pool_hash, id_index := index\<rparr>, tr_read_only := True\<rparr>"

text \<open>The two public constructors.  The first hands its arguments to the private constructor in
  another order than that one takes them.\<close>

definition transaction_new ::
  "u64 \<Rightarrow> address \<Rightarrow> address \<Rightarrow> currency \<Rightarrow> amount \<Rightarrow> amount \<Rightarrow> amount \<Rightarrow> string \<Rightarrow> transaction" where
  "transaction_new innerID source target currency amount max_fee counted_fee signature =
     transaction_priv innerID source target currency max_fee counted_fee amount signature amount"

definition transaction_new_balance ::
  "u64 \<Rightarrow> address \<Rightarrow> address \<Rightarrow> currency \<Rightarrow> amount \<Rightarrow> amount \<Rightarrow> amount \<Rightarrow> string \<Rightarrow> amount \<Rightarrow> transaction" where
  "transaction_new_balance innerID source target currency max_fee counted_fee amount signature balance =
     transaction_priv innerID source target currency max_fee counted_fee amount signature balance"

definition transaction_is_valid :: "transaction \<Rightarrow> bool" where
  "transaction_is_valid t \<longleftrightarrow>
     address_is_valid (tr_source t) \<and> address_is_valid (tr_target t) \<and>
     currency_is_valid (tr_currency t) \<and> amount_ge (tr_amount t) (amount_of_int 0) \<and>
     \<not> address_eq (tr_source t) (tr_target t)"

definition set_innerID :: "u64 \<Rightarrow> transaction \<Rightarrow> transaction" where
  "set_innerID v t = (if \<not> tr_read_only t then t\<lparr>tr_innerID := v\<rparr> else t)"

definition set_source :: "address \<Rightarrow> transaction \<Rightarrow> transaction" where
  "set_source v t = (if \<not> tr_read_only t then t\<lparr>tr_source := v\<rparr> else t)"

definition set_target :: "address \<Rightarrow> transaction \<Rightarrow> transaction" where
  "set_target v t = (if \<not> tr_read_only t then t\<lparr>tr_target := v\<rparr> else t)"

definition set_currency :: "currency \<Rightarrow> transaction \<Rightarrow> transaction" where
  "set_currency v t = (if \<not> tr_read_only t then t\<lparr>tr_currency := v\<rparr> else t)"

definition set_amount :: "amount \<Rightarrow> transaction \<Rightarrow> transaction" where
  "set_amount v t = (if \<not> tr_read_only t then t\<lparr>tr_amount := v\<rparr> else t)"

definition set_max_fee :: "amount \<Rightarrow> transaction \<Rightarrow> transaction" where
  "set_max_fee v t = (if \<not> tr_read_only t then t\<lparr>tr_max_fee := v\<rparr> else t)"

definition set_counted_fee :: "amount \<Rightarrow> transaction \<Rightarrow> transaction" where
  "set_counted_fee v t = (if \<not> tr_read_only t then t\<lparr>tr_counted_fee := v\<rparr> else t)"

definition set_signature :: "string \<Rightarrow> transaction \<Rightarrow> transaction" where
  "set_signature v t = (if \<not> tr_read_only t then t\<lparr>tr_signature := v\<rparr> else t)"

definition set_balance :: "amount \<Rightarrow> transaction \<Rightarrow> transaction" where
  "set_balance v t = (if \<not> tr_read_only t then t\<lparr>tr_balance := v\<rparr> else t)"

definition tr_add_user_field :: "u32 \<Rightarrow> user_field \<Rightarrow> transaction \<Rightarrow> bool \<times> transaction" where
  "tr_add_user_field i field t =
     (if tr_read_only t \<or> \<not> user_field_is_valid field then (False, t)
      else (True, t\<lparr>tr_user_fields := map_assign id_lt i field (tr_user_fields t)\<rparr>))"

definition tr_user_field :: "transaction \<Rightarrow> u32 \<Rightarrow> user_field" where
  "tr_user_field t i =
     (case map_find id_lt i (tr_user_fields t) of None \<Rightarrow> UF_Unknown | Some f \<Rightarrow> f)"

definition tr_user_field_ids :: "transaction \<Rightarrow> u32 set" where
  "tr_user_field_ids t = fst ` set (tr_user_fields t)"

definition put_transaction :: "transaction \<Rightarrow> byte_array" where
  "put_transaction t =
     put_int (tr_innerID t) @ put_address (tr_source t) @ put_address (tr_target t) @
     put_currency (tr_currency t) @ put_amount (tr_amount t) @ put_amount (tr_max_fee t) @
     put_amount (tr_counted_fee t) @ put_user_fields (tr_user_fields t) @
     put_string (tr_signature t) @ put_amount (tr_balance t)"

definition get_transaction :: "byte_array \<Rightarrow> (transaction \<times> byte_array) option" where
  "get_transaction is = do {
     (innerID, is) \<leftarrow> get_u64 is;
     (source, is) \<leftarrow> get_address is;
     (target, is) \<leftarrow> get_address is;
     (currency, is) \<leftarrow> get_currency is;
     (amount, is) \<leftarrow> get_amount is;
     (max_fee, is) \<leftarrow> get_amount is;
     (counted_fee, is) \<leftarrow> get_amount is;
     (user_fields, is) \<leftarrow> get_user_fields is;
     (signature, is) \<leftarrow> get_string is;
     (balance, is) \<leftarrow> get_amount is;
     Some (transaction_default
       \<lparr>tr_innerID := innerID, tr_source := source, tr_target := target, tr_currency := currency,
        tr_amount := amount, tr_max_fee := max_fee, tr_counted_fee := counted_fee,
        tr_user_fields := user_fields, tr_signature := signature, tr_balance := balance\<rparr>, is) }"

definition tr_to_binary :: "transaction \<Rightarrow> byte_array" where
  "tr_to_binary t = (if \<not> transaction_is_valid t then [] else put_transaction t)"

definition tr_from_binary :: "byte_array \<Rightarrow> transaction" where
  "tr_from_binary data = (case get_transaction data of None \<Rightarrow> transaction_default | Some (t, _) \<Rightarrow> t)"

definition tr_to_byte_stream :: "transaction \<Rightarrow> byte_array" where
  "tr_to_byte_stream t = put_transaction t"

text \<open>The bytes that are signed.  The keys are read with a fixed length of 32; a shorter key would be
  read out of bounds, and the result is then undefined.\<close>

definition sig_prefix :: "transaction \<Rightarrow> byte_array" where
  "sig_prefix t =
     put_int (tr_innerID t) @ take 32 (public_key (tr_source t)) @ take 32 (public_key (tr_target t)) @
     put_amount (tr_amount t) @ put_amount (tr_max_fee t) @
     put_int (if currency_name (tr_currency t) = ''CS'' then 1 else 0 :: u8)"

definition to_byte_stream_for_sig :: "transaction \<Rightarrow> byte_array option" where
  "to_byte_stream_for_sig t =
     (if length (public_key (tr_source t)) < 32 \<or> length (public_key (tr_target t)) < 32 then None
      else let prefix = sig_prefix t;
               custom_user_fields = dropWhile (\<lambda>(i, _). id_lt i 0) (tr_user_fields t)
           in if custom_user_fields \<noteq> []
              then (let buf = prefix @ put_smart put_user_field custom_user_fields;
                        at = length prefix + 4
                    in if at < length buf then Some (take at buf @ drop (at + 1) buf) else None)
              else Some (prefix @ put_int (0 :: u32)))"

subsection \<open>Serialisation\<close>

interpretation transaction_id_codec:
  codec "\<lambda>i. length (hash_value (id_pool_hash i)) < 2 ^ 64" put_transaction_id get_transaction_id
proof
  show "get_transaction_id (put_transaction_id v @ rest) = Some (v, rest)"
    if "length (hash_value (id_pool_hash v)) < 2 ^ 64" for v rest
    using that by (simp add: get_transaction_id_def put_transaction_id_def pool_hash_codec.get_put)
qed (unfold get_transaction_id_def, intro local_intros pool_hash_codec.get_local)

text \<open>The sizes the length prefixes can carry.\<close>

definition transaction_ok :: "transaction \<Rightarrow> bool" where
  "transaction_ok t \<longleftrightarrow>
     length (public_key (tr_source t)) < 2 ^ 64 \<and> length (public_key (tr_target t)) < 2 ^ 64 \<and>
     length (currency_name (tr_currency t)) < 2 ^ 32 \<and> user_fields_ok (tr_user_fields t) \<and>
     length (tr_signature t) < 2 ^ 32"

definition transaction_unsealed :: "transaction \<Rightarrow> bool" where
  "transaction_unsealed t \<longleftrightarrow> \<not> tr_read_only t \<and> tr_id t = transaction_id_default"

lemma transaction_copy_unsealed [simp]: "transaction_copy t = t \<longleftrightarrow> transaction_unsealed t"
  by (cases t) (auto simp: transaction_copy_def transaction_unsealed_def)

lemma put_transaction_copy [simp]: "put_transaction (transaction_copy t) = put_transaction t"
  by (simp add: put_transaction_def transaction_copy_def)

lemma transaction_copy_ok [simp]:
  "transaction_ok (transaction_copy t) = transaction_ok t" "transaction_unsealed (transaction_copy t)"
  by (simp_all add: transaction_ok_def transaction_copy_def transaction_unsealed_def)

lemma get_put_transaction:
  "transaction_ok t \<Longrightarrow> get_transaction (put_transaction t @ rest) = Some (transaction_copy t, rest)"
  by (simp add: transaction_ok_def get_transaction_def put_transaction_def transaction_copy_def
      transaction_default_def address_codec.get_put currency_codec.get_put amount_codec.get_put
      user_fields_codec.map.get_put string_codec.get_put)

lemma get_transaction_local: "local_reader get_transaction"
  unfolding get_transaction_def
  by (intro local_intros address_codec.get_local currency_codec.get_local amount_codec.get_local
      user_fields_codec.map.get_local string_codec.get_local)

interpretation transaction_codec:
  codec "\<lambda>t. transaction_ok t \<and> transaction_unsealed t" put_transaction get_transaction
proof
  show "get_transaction (put_transaction v @ rest) = Some (v, rest)"
    if "transaction_ok v \<and> transaction_unsealed v" for v rest
    using that get_put_transaction by (metis transaction_copy_unsealed)
qed (rule get_transaction_local)

subsection \<open>What a transaction can become\<close>

lemmas setter_defs = set_innerID_def set_source_def set_target_def set_currency_def set_amount_def
  set_max_fee_def set_counted_fee_def set_signature_def set_balance_def

text \<open>The transactions that the constructors, the public operations, the reader and sealing by a pool
  can make.\<close>

inductive tr_step :: "transaction \<Rightarrow> transaction \<Rightarrow> bool" where
  "tr_step t (set_innerID i t)"
| "tr_step t (set_source a t)"
| "tr_step t (set_target a t)"
| "tr_step t (set_currency c t)"
| "tr_step t (set_amount m t)"
| "tr_step t (set_max_fee m t)"
| "tr_step t (set_counted_fee m t)"
| "tr_step t (set_signature s t)"
| "tr_step t (set_balance m t)"
| "tr_step t (snd (tr_add_user_field i f t))"

inductive tr_reach :: "transaction \<Rightarrow> bool" where
  default: "tr_reach transaction_default"
| new: "tr_reach (transaction_new n a b c x y z s)"
| new_balance: "tr_reach (transaction_new_balance n a b c x y z s m)"
| read: "get_transaction is = Some (t, rest) \<Longrightarrow> tr_reach t"
| step: "tr_reach t \<Longrightarrow> tr_step t t' \<Longrightarrow> tr_reach t'"
| copy: "tr_reach t \<Longrightarrow> tr_reach (transaction_copy t)"
| seal: "tr_reach t \<Longrightarrow> tr_reach (transaction_update_id h i t)"

text \<open>Its user fields are sorted by identifier and valid, and it has an identifier only when it is
  sealed.\<close>

definition fields_inv :: "user_fields \<Rightarrow> bool" where
  "fields_inv m \<longleftrightarrow> map_sorted id_lt m \<and> (\<forall>(i, f) \<in> set m. user_field_is_valid f)"

definition tr_inv :: "transaction \<Rightarrow> bool" where
  "tr_inv t \<longleftrightarrow> fields_inv (tr_user_fields t) \<and> (\<not> tr_read_only t \<longrightarrow> tr_id t = transaction_id_default)"

lemma set_map_assign: "set (map_assign lt k v m) \<subseteq> insert (k, v) (set m) \<union> {(k', v) |k'. k' \<in> fst ` set m}"
  by (induction lt k v m rule: map_assign.induct) (auto split: if_splits)

lemma set_map_emplace: "set (map_emplace lt k v m) \<subseteq> insert (k, v) (set m)"
  by (induction lt k v m rule: map_emplace.induct) (auto split: if_splits)

lemma fields_inv_assign: "fields_inv m \<Longrightarrow> user_field_is_valid f \<Longrightarrow> fields_inv (map_assign id_lt i f m)"
  using set_map_assign [of id_lt i f m] by (auto simp: fields_inv_def id_key.sorted_assign)

lemma fields_inv_emplace: "fields_inv m \<Longrightarrow> user_field_is_valid f \<Longrightarrow> fields_inv (map_emplace id_lt i f m)"
  using set_map_emplace [of id_lt i f m] by (auto simp: fields_inv_def id_key.sorted_emplace)

lemma get_user_field_valid: "get_user_field is = Some (f, rest) \<Longrightarrow> user_field_is_valid f"
  by (auto simp: get_user_field_def bind_eq_Some_conv user_field_is_valid_def user_field_type_def
      split: if_splits)

lemma get_fields_loop_inv:
  "get_map_loop id_lt get_u32 get_user_field n m is = Some (m', rest) \<Longrightarrow> fields_inv m \<Longrightarrow> fields_inv m'"
proof (induction n arbitrary: m "is")
  case (Suc n)
  then show ?case
    by (auto simp: bind_eq_Some_conv intro: fields_inv_emplace dest: get_user_field_valid)
qed simp

lemma get_fields_inv: "get_user_fields is = Some (m, rest) \<Longrightarrow> fields_inv m"
  by (auto simp: get_map_def bind_eq_Some_conv fields_inv_def [of "[]"] dest!: get_fields_loop_inv)

lemma get_transaction_inv: "get_transaction is = Some (t, rest) \<Longrightarrow> tr_inv t"
  by (auto simp: get_transaction_def bind_eq_Some_conv tr_inv_def transaction_default_def
      dest: get_fields_inv)

lemma tr_step_inv: "tr_step t t' \<Longrightarrow> tr_inv t \<Longrightarrow> tr_inv t'"
  by (induction rule: tr_step.induct)
    (auto simp: setter_defs tr_add_user_field_def tr_inv_def fields_inv_assign)

lemma tr_reach_inv: "tr_reach t \<Longrightarrow> tr_inv t"
proof (induction rule: tr_reach.induct)
  case (read "is" t rest)
  then show ?case by (rule get_transaction_inv)
next
  case (step t t')
  then show ?case by (blast intro: tr_step_inv)
qed (auto simp: tr_inv_def transaction_default_def transaction_new_def transaction_new_balance_def
    transaction_priv_def transaction_copy_def transaction_update_id_def fields_inv_def)

lemma tr_step_sealed: "tr_step t t' \<Longrightarrow> tr_read_only t \<Longrightarrow> t' = t"
  by (induction rule: tr_step.induct) (auto simp: setter_defs tr_add_user_field_def)

subsection \<open>Identifiers as text\<close>

definition decimal :: "nat \<Rightarrow> string \<Rightarrow> nat" where
  "decimal acc s = foldl (\<lambda>a c. a * 10 + (of_char c - 48)) acc s"

lemma read_digits_eq: "read_digits acc s = (decimal acc (takeWhile isdigit s), dropWhile isdigit s)"
  by (induction s arbitrary: acc) (auto simp: decimal_def)

lemma code_hex_digit_lower: "d < 16 \<Longrightarrow> of_char (hex_digit_lower d) = (if d < 10 then d + 48 else d + 87)"
  by (simp add: hex_digit_lower_def)

lemma isdigit_hex_digit: "d < 16 \<Longrightarrow> isdigit (hex_digit_lower d) \<longleftrightarrow> d < 10"
  by (simp add: isdigit_def code_hex_digit_lower Let_def)

text \<open>The characters of a printed number are hexadecimal digits, and reading them as a decimal number
  gives less than the number from 16 on.\<close>

definition hex_char :: "char \<Rightarrow> bool" where
  "hex_char c \<longleftrightarrow> (let n = of_char c :: nat in 48 \<le> n \<and> n \<le> 57 \<or> 65 \<le> n \<and> n \<le> 70 \<or> 97 \<le> n \<and> n \<le> 102)"

lemma hex_char_lower: "d < 16 \<Longrightarrow> hex_char (hex_digit_lower d)"
  by (auto simp: hex_char_def code_hex_digit_lower Let_def)

lemma print_hex_chars: "\<forall>c \<in> set (print_hex n). hex_char c"
proof (induction n rule: print_hex.induct)
  case (1 n)
  then show ?case by (subst print_hex.simps) (auto simp: hex_char_lower)
qed

lemma print_hex_nonempty [simp]: "print_hex n \<noteq> []"
  by (subst print_hex.simps) simp

lemma decimal_print_hex:
  "list_all isdigit (print_hex n) \<Longrightarrow> decimal 0 (print_hex n) \<le> n \<and> (16 \<le> n \<longrightarrow> decimal 0 (print_hex n) < n)"
proof (induction n rule: print_hex.induct)
  case (1 n)
  show ?case
  proof (cases "n < 16")
    case True
    then show ?thesis
      using "1.prems" by (simp add: print_hex.simps [of n] isdigit_hex_digit decimal_def code_hex_digit_lower)
  next
    case False
    then have digits: "list_all isdigit (print_hex (n div 16))" and last: "n mod 16 < 10"
      using "1.prems" by (simp_all add: print_hex.simps [of n] isdigit_hex_digit)
    have "decimal 0 (print_hex n) = decimal 0 (print_hex (n div 16)) * 10 + n mod 16"
      using False last by (subst print_hex.simps) (simp add: decimal_def code_hex_digit_lower)
    moreover have "decimal 0 (print_hex (n div 16)) \<le> n div 16"
      using "1.IH" False digits by blast
    moreover have "n div 16 * 10 + n mod 16 < n"
      using False div_mult_mod_eq [of n 16] div_greater_zero_iff [of n 16] by linarith
    ultimately show ?thesis by linarith
  qed
qed

lemma hex_char_simps:
  assumes "hex_char c"
  shows "c \<noteq> CHR '':''" "c \<noteq> CHR 0x00" "\<not> isspace c" "c \<noteq> CHR ''-''" "c \<noteq> CHR ''+''"
  using assms by (auto simp: hex_char_def isspace_def Let_def)

lemma to_hex_chars: "\<forall>c \<in> set (to_hex bs). hex_char c"
proof (induction bs)
  case (Cons b bs)
  have "hex_char (digit_to_hex v)" if "v < 16" for v
    using that unat_lt_8 [of v] by (auto simp: hex_char_def digit_to_hex_code Let_def word_less_nat_alt)
  with Cons show ?case by (simp add: nibble_lt)
qed simp

lemma pad8_chars: "\<forall>c \<in> set s. hex_char c \<Longrightarrow> \<forall>c \<in> set (pad8 s). hex_char c"
  by (auto simp: pad8_def hex_char_def)

lemma strtoumax_hex:
  assumes "s \<noteq> []" "\<forall>c \<in> set s. hex_char c"
  shows "strtoumax s =
    (if isdigit (hd s)
     then (if 2 ^ 64 \<le> decimal 0 (takeWhile isdigit s) then - 1 else of_nat (decimal 0 (takeWhile isdigit s)),
           dropWhile isdigit s)
     else (0, s))"
proof -
  have hd: "hex_char (hd s)" using assms by simp
  have "dropWhile isspace s = s"
    using assms(1) hex_char_simps(3) [OF hd] by (cases s) simp_all
  then show ?thesis
    using assms(1) hex_char_simps(4,5) [OF hd] by (simp add: strtoumax_def Let_def read_digits_eq)
qed

lemma decimal_pad8: "decimal 0 (pad8 s) = decimal 0 s"
proof -
  have "decimal 0 (replicate k (CHR ''0'') @ s) = decimal 0 s" for k
    by (induction k) (simp_all add: decimal_def)
  then show ?thesis by (simp add: pad8_def)
qed

lemma digits_pad8: "list_all isdigit (pad8 s) = list_all isdigit s"
  by (auto simp: pad8_def list_all_iff isdigit_def)

lemma pool_hash_text: "length (hash_value p) \<in> {0, hash_size} \<Longrightarrow> pool_hash_from_string (pool_hash_to_string p) = p"
  by (cases p) (auto simp: pool_hash_from_string_def pool_hash_to_string_def from_to_hex)

lemma address_text: "address_is_valid a \<Longrightarrow> address_from_string (address_to_string a) = a"
  by (cases a) (simp add: address_from_string_def address_to_string_def address_is_valid_def from_to_hex)

text \<open>Reading back a printed identifier comes down to reading its number as decimal.\<close>

lemma from_to_string:
  assumes "length (hash_value (id_pool_hash i)) = hash_size"
  defines "num \<equiv> print_hex (unat (id_index i))"
  shows "transaction_id_from_string (transaction_id_to_string i) =
    (if list_all isdigit num then i\<lparr>id_index := of_nat (decimal 0 num)\<rparr> else transaction_id_default)"
proof -
  let ?h = "to_hex (hash_value (id_pool_hash i))" and ?n = "pad8 num"
  have str: "transaction_id_to_string i = ?h @ CHR '':'' # ?n"
    by (simp add: transaction_id_to_string_def pool_hash_to_string_def num_def)
  have pre: "takeWhile (\<lambda>c. c \<noteq> CHR '':'') (transaction_id_to_string i) = ?h"
    using to_hex_chars hex_char_simps(1) by (simp add: str takeWhile_append2)
  have ph: "pool_hash_from_string ?h = id_pool_hash i"
    using pool_hash_text [of "id_pool_hash i"] assms(1) by (simp add: pool_hash_to_string_def)
  have chars: "\<forall>c \<in> set ?n. hex_char c"
    using pad8_chars [OF print_hex_chars] by (simp add: num_def)
  have ne: "?n \<noteq> []"
    by (simp add: pad8_def num_def)
  have start: "takeWhile (\<lambda>c. c \<noteq> CHR 0x00) (drop (length ?h + 1) (transaction_id_to_string i)) = ?n"
    using chars hex_char_simps(2) by (simp add: str takeWhile_eq_all_conv)
  have len: "length ?h < length (transaction_id_to_string i)" and nonempty: "\<not> pool_hash_is_empty (id_pool_hash i)"
    using assms(1) by (auto simp: str pool_hash_is_empty_def)
  have res: "transaction_id_from_string (transaction_id_to_string i) =
      (let (idx, e) = strtoumax ?n in
       if e \<noteq> ?n \<and> e = [] then transaction_id_default\<lparr>id_pool_hash := id_pool_hash i, id_index := idx\<rparr>
       else transaction_id_default)"
    unfolding transaction_id_from_string_def Let_def pre ph start using len nonempty ne by simp
  have lt: "decimal 0 num < 2 ^ 64" if "list_all isdigit num"
    using decimal_print_hex [of "unat (id_index i)"] that unat_lt_64 [of "id_index i"] by (simp add: num_def)
  show ?thesis
  proof (cases "list_all isdigit num")
    case True
    then have all: "list_all isdigit ?n" by (simp add: digits_pad8)
    then have d: "takeWhile isdigit ?n = ?n" "dropWhile isdigit ?n = []" and hd: "isdigit (hd ?n)"
      using ne by (auto simp: list_all_iff takeWhile_eq_all_conv dropWhile_eq_Nil_conv)
    from lt [OF True] True ne hd show ?thesis
      unfolding res strtoumax_hex [OF ne chars] d decimal_pad8
      by (simp add: transaction_id_default_def)
  next
    case False
    then have "dropWhile isdigit ?n \<noteq> []"
      using digits_pad8 [of num] by (auto simp: dropWhile_eq_Nil_conv list_all_iff)
    with False show ?thesis
      unfolding res strtoumax_hex [OF ne chars] by auto
  qed
qed

lemma print_hex_digit: "n < 10 \<Longrightarrow> list_all isdigit (print_hex n) \<and> decimal 0 (print_hex n) = n"
  by (subst (1 2) print_hex.simps) (simp add: isdigit_hex_digit decimal_def code_hex_digit_lower)

lemma print_hex_letter: "10 \<le> n \<Longrightarrow> n < 16 \<Longrightarrow> \<not> list_all isdigit (print_hex n)"
  by (subst print_hex.simps) (simp add: isdigit_hex_digit)

text \<open>An address and a pool hash read back as they were printed; a transaction identifier does so
  exactly when its index is below ten, because the index is printed in hexadecimal and read in
  decimal.\<close>

theorem text_roundtrip:
  assumes "address_is_valid a" "length (hash_value p) \<in> {0, hash_size}"
    "length (hash_value (id_pool_hash i)) = hash_size"
  shows "address_from_string (address_to_string a) = a \<and>
    pool_hash_from_string (pool_hash_to_string p) = p \<and>
    (transaction_id_from_string (transaction_id_to_string i) = i \<longleftrightarrow> unat (id_index i) < 10)"
proof -
  let ?n = "unat (id_index i)"
  have "transaction_id_default \<noteq> i"
    using assms(3) by (auto simp: transaction_id_default_def)
  moreover have "i\<lparr>id_index := of_nat (decimal 0 (print_hex ?n))\<rparr> = i \<longleftrightarrow> decimal 0 (print_hex ?n) = ?n"
    if "list_all isdigit (print_hex ?n)"
  proof -
    have "decimal 0 (print_hex ?n) < 2 ^ 64"
      using decimal_print_hex [OF that] unat_lt_64 [of "id_index i"] by simp
    then show ?thesis
      by (cases i) (auto simp: unat_of_nat take_bit_nat_eq_self dest: arg_cong [where f = unat])
  qed
  moreover have "list_all isdigit (print_hex ?n) \<and> decimal 0 (print_hex ?n) = ?n \<longleftrightarrow> ?n < 10"
    using print_hex_digit [of ?n] print_hex_letter [of ?n] decimal_print_hex [of ?n]
    by (cases "?n < 16"; cases "10 \<le> ?n") auto
  ultimately show ?thesis
    using from_to_string [OF assms(3)] address_text [OF assms(1)] pool_hash_text [OF assms(2)] by auto
qed

theorem text_roundtrip_witness:
  "transaction_id_from_string (transaction_id_to_string \<lparr>id_pool_hash = PoolHash (replicate 32 7), id_index = 16\<rparr>)
     \<noteq> \<lparr>id_pool_hash = PoolHash (replicate 32 7), id_index = 16\<rparr>"
  using text_roundtrip [of "Address (replicate 32 1)" "PoolHash []"
      "\<lparr>id_pool_hash = PoolHash (replicate 32 7), id_index = 16\<rparr>"]
  by (simp add: address_is_valid_def)

text \<open>C18: every transaction the program can make has sorted, valid user fields and an identifier only
  once it is sealed; no public operation changes a sealed transaction; and the copy that
  copy-on-write makes of an unsealed transaction is the transaction.\<close>

theorem transaction_lifecycle:
  assumes "tr_reach t"
  shows "tr_inv t \<and> (tr_read_only t \<longrightarrow> (\<forall>t'. tr_step t t' \<longrightarrow> t' = t)) \<and>
    (\<not> tr_read_only t \<longrightarrow> transaction_copy t = t)"
  using tr_reach_inv [OF assms] tr_step_sealed by (auto simp: tr_inv_def transaction_unsealed_def)

theorem transaction_lifecycle_witness:
  "set_amount (amount_of_int 5) (transaction_update_id (PoolHash [1]) 2 transaction_default)
     = transaction_update_id (PoolHash [1]) 2 transaction_default"
proof -
  let ?t = "transaction_update_id (PoolHash [1]) 2 transaction_default"
  have "tr_reach ?t"
    by (rule tr_reach.seal [OF tr_reach.default])
  moreover have "tr_read_only ?t"
    by (simp add: transaction_update_id_def)
  ultimately show ?thesis
    using transaction_lifecycle [of ?t] tr_step.intros(5) by blast
qed

text \<open>C5: a transaction whose parts fit their length prefixes reads back from its bytes, whatever
  follows them, as its unsealed copy; through the binary form this holds for the valid ones.\<close>

theorem transaction_roundtrip:
  assumes "transaction_ok t"
  shows "get_transaction (put_transaction t @ rest) = Some (transaction_copy t, rest) \<and>
    (transaction_is_valid t \<longrightarrow> tr_from_binary (tr_to_binary t) = transaction_copy t)"
  using assms get_put_transaction [OF assms, of rest] get_put_transaction [OF assms, of "[]"]
  by (simp add: tr_from_binary_def tr_to_binary_def)

theorem transaction_roundtrip_witness:
  "get_transaction (put_transaction (transaction_new 1 (Address (replicate 32 1)) (Address (replicate 32 2))
      (Currency ''CS'') (amount_of_int 3) (amount_of_int 1) (amount_of_int 0) ''sig'') @ [1, 2]) =
    Some (transaction_new 1 (Address (replicate 32 1)) (Address (replicate 32 2))
      (Currency ''CS'') (amount_of_int 3) (amount_of_int 1) (amount_of_int 0) ''sig'', [1, 2])"
proof -
  let ?t = "transaction_new 1 (Address (replicate 32 1)) (Address (replicate 32 2))
      (Currency ''CS'') (amount_of_int 3) (amount_of_int 1) (amount_of_int 0) ''sig''"
  have "transaction_ok ?t" "transaction_copy ?t = ?t"
    by (simp_all add: transaction_ok_def transaction_unsealed_def transaction_new_def transaction_priv_def
        map_ok_def)
  then show ?thesis
    using transaction_roundtrip [of ?t "[1, 2]"] by simp
qed

end
