(* ===== verification/TransactionSig.thy ===== *)
theory TransactionSig
  imports Transaction
begin

text \<open>
  What the signature of a transaction covers (\<open>Transaction::to_byte_stream_for_sig\<close> of
  \<open>csdb/src/transaction.cpp\<close>): the signed bytes determine the inner id, both addresses, the amount,
  the maximal fee and whether the currency is the native one; they do not determine the type of the
  first custom user field, whose type byte is cut out.
\<close>

lemma length_put_amount [simp]: "length (put_amount a) = 12"
  by (simp add: put_amount_def)







text \<open>A string user field of four characters and the integer with the same eight bytes give the
  same signed bytes, so that a signature does not tell them apart.\<close>

theorem signature_field_ambiguous:
  assumes "length s = 4"
  shows "to_byte_stream_for_sig (t\<lparr>tr_user_fields := [(0, UF_String s)]\<rparr>) =
    to_byte_stream_for_sig (t\<lparr>tr_user_fields := [(0, UF_Integer (le_word (put_string s)))]\<rparr>)"
proof -
  have len: "length (put_string s) = 8"
    using assms by (simp add: put_string_def)
  have bytes: "put_int (le_word (put_string s) :: u64) = put_string s"
    using le_bytes_le_word [where 'a = 64, of "put_string s"] len by (simp add: put_int_def)
  have type: "\<exists>x. put_int (v :: u8) = [x]" for v
    by (cases "put_int v") (use length_put_int(1) [of v] in auto)
  obtain x y where xy: "put_int (2 :: u8) = [x]" "put_int (1 :: u8) = [y]"
    using type by blast
  have prefix: "sig_prefix (t\<lparr>tr_user_fields := m\<rparr>) = sig_prefix t" for m
    by (simp add: sig_prefix_def)
  show ?thesis
    by (simp add: to_byte_stream_for_sig_def Let_def prefix put_smart_def put_user_field_def
        user_field_type_def xy bytes id_lt_def)
qed

theorem signature_field_ambiguous_witness:
  "to_byte_stream_for_sig (transaction_default\<lparr>tr_user_fields := [(0, UF_String ''text'')]\<rparr>) =
    to_byte_stream_for_sig (transaction_default\<lparr>tr_user_fields := [(0, UF_Integer (le_word (put_string ''text'')))]\<rparr>)"
  by (rule signature_field_ambiguous) simp

end
