(* ===== verification/Pool.thy ===== *)
theory Pool
  imports Transaction
begin

text \<open>
  Pools (blocks) of transactions: the class \<open>Pool\<close> of \<open>csdb/src/pool.cpp\<close>.  A pool is a record of
  the fields of \<open>Pool::priv\<close>; the weak pointer to its storage is an optional number naming the
  storage object.  Composing a pool serialises it, seals it and stamps its transactions with the hash
  of the bytes; reading bytes does the same to what they describe.  The decompressor LZ4 and the
  Ed25519 functions of libsodium, which are not part of the repository, are parameters.  Memory
  allocation is assumed to succeed.
\<close>

subsection \<open>The class\<close>

record pool =
  p_is_valid :: bool
  p_read_only :: bool
  p_hash :: pool_hash
  p_previous_hash :: pool_hash
  p_sequence :: u64
  p_transactions :: "transaction list"
  p_transactionsCount :: u32
  p_user_fields :: user_fields
  p_signature :: string
  p_writer_public_key :: byte_array
  p_binary :: byte_array
  p_storage :: "nat option"

definition pool_default :: pool where
  "pool_default =
     \<lparr>p_is_valid = False, p_read_only = False, p_hash = PoolHash [], p_previous_hash = PoolHash [],
      p_sequence = 0, p_transactions = [], p_transactionsCount = 0, p_user_fields = [],
      p_signature = [], p_writer_public_key = [], p_binary = [], p_storage = None\<rparr>"

definition pool_new :: "pool_hash \<Rightarrow> u64 \<Rightarrow> nat option \<Rightarrow> pool" where
  "pool_new previous_hash sequence storage =
     pool_default\<lparr>p_is_valid := True, p_previous_hash := previous_hash, p_sequence := sequence,
       p_storage := storage\<rparr>"

subsection \<open>Serialisation\<close>

definition put_for_sig :: "pool \<Rightarrow> byte_array" where
  "put_for_sig p =
     put_pool_hash (p_previous_hash p) @ put_int (p_sequence p) @ put_user_fields (p_user_fields p) @
     put_int (of_nat (length (p_transactions p)) :: u64) @ concat (map put_transaction (p_transactions p)) @
     put_byte_array (p_writer_public_key p)"

definition put_pool :: "pool \<Rightarrow> byte_array" where
  "put_pool p =
     put_pool_hash (p_previous_hash p) @ put_int (p_sequence p) @ put_user_fields (p_user_fields p) @
     put_int (of_nat (length (p_transactions p)) :: u64) @ concat (map put_transaction (p_transactions p)) @
     put_byte_array (p_writer_public_key p) @ put_string (p_signature p)"

definition get_meta :: "byte_array \<Rightarrow> ((pool \<times> u64) \<times> byte_array) option" where
  "get_meta is = do {
     (previous_hash, is) \<leftarrow> get_pool_hash is;
     (sequence, is) \<leftarrow> get_u64 is;
     (user_fields, is) \<leftarrow> get_user_fields is;
     (cnt, is) \<leftarrow> get_u64 is;
     Some ((pool_default\<lparr>p_previous_hash := previous_hash, p_sequence := sequence,
              p_user_fields := user_fields, p_transactionsCount := ucast cnt, p_is_valid := True\<rparr>, cnt), is) }"

primrec get_transactions :: "nat \<Rightarrow> transaction list \<Rightarrow> byte_array \<Rightarrow> (transaction list \<times> byte_array) option" where
  "get_transactions 0 ts is = Some (ts, is)"
| "get_transactions (Suc n) ts is = do {
     (tran, is) \<leftarrow> get_transaction is;
     get_transactions n (ts @ [tran]) is }"

definition get_pool :: "byte_array \<Rightarrow> (pool \<times> byte_array) option" where
  "get_pool is = do {
     ((p, cnt), is) \<leftarrow> get_meta is;
     (transactions, is) \<leftarrow> get_transactions (unat cnt) [] is;
     (writer_public_key, is) \<leftarrow> get_byte_array is;
     (signature, is) \<leftarrow> get_string is;
     Some (p\<lparr>p_transactions := transactions, p_writer_public_key := writer_public_key,
             p_signature := signature, p_is_valid := True\<rparr>, is) }"

subsection \<open>Sealing\<close>

definition update_transactions :: "pool \<Rightarrow> pool" where
  "update_transactions p =
     (let h = calc_from_data (p_binary p)
      in p\<lparr>p_read_only := True, p_hash := h,
           p_transactions :=
             map (\<lambda>(idx, t). transaction_update_id h (of_nat idx) t)
               (zip [0..<length (p_transactions p)] (p_transactions p))\<rparr>)"

definition priv_compose :: "pool \<Rightarrow> pool" where
  "priv_compose p =
     (if \<not> p_is_valid p then p\<lparr>p_binary := [], p_hash := PoolHash []\<rparr>
      else update_transactions (p\<lparr>p_binary := put_pool p\<rparr>))"

definition pool_compose :: "pool \<Rightarrow> bool \<times> pool" where
  "pool_compose p =
     (if p_read_only p then (True, p)
      else if \<not> p_is_valid p then (False, p)
      else (True, priv_compose p))"

definition pool_hash_of :: "pool \<Rightarrow> pool_hash \<times> pool" where
  "pool_hash_of p =
     (let p = (if pool_hash_is_empty (p_hash p) then p\<lparr>p_hash := calc_from_data (p_binary p)\<rparr> else p)
      in (p_hash p, p))"

subsection \<open>Access\<close>

definition transaction_at :: "pool \<Rightarrow> u64 \<Rightarrow> transaction" where
  "transaction_at p index =
     (if unat index < length (p_transactions p) then p_transactions p ! unat index else transaction_default)"

definition transaction_by_id :: "pool \<Rightarrow> transaction_id \<Rightarrow> transaction" where
  "transaction_by_id p i =
     (if \<not> p_is_valid p \<or> \<not> p_read_only p \<or> \<not> transaction_id_is_valid i \<or>
         \<not> pool_hash_eq (id_pool_hash i) (p_hash p) \<or> length (p_transactions p) \<le> unat (id_index i)
      then transaction_default
      else p_transactions p ! unat (id_index i))"

primrec first_match :: "(transaction \<Rightarrow> bool) \<Rightarrow> transaction list \<Rightarrow> transaction" where
  "first_match P [] = transaction_default"
| "first_match P (t # ts) = (if P t then t else first_match P ts)"

definition pool_get_last_by_source :: "pool \<Rightarrow> address \<Rightarrow> transaction" where
  "pool_get_last_by_source p source =
     (if \<not> p_is_valid p then transaction_default
      else first_match (\<lambda>t. address_eq (tr_source t) source) (rev (p_transactions p)))"

definition pool_get_last_by_target :: "pool \<Rightarrow> address \<Rightarrow> transaction" where
  "pool_get_last_by_target p target =
     (if \<not> p_is_valid p then transaction_default
      else first_match (\<lambda>t. address_eq (tr_target t) target) (rev (p_transactions p)))"

definition pool_user_field :: "pool \<Rightarrow> u32 \<Rightarrow> user_field" where
  "pool_user_field p i =
     (case map_find id_lt i (p_user_fields p) of None \<Rightarrow> UF_Unknown | Some f \<Rightarrow> f)"

subsection \<open>Changes\<close>

definition add_transaction :: "transaction \<Rightarrow> pool \<Rightarrow> bool \<times> pool" where
  "add_transaction t p =
     (if p_read_only p then (False, p)
      else if \<not> transaction_is_valid t then (False, p)
      else (True, p\<lparr>p_transactions := p_transactions p @ [transaction_copy t],
                    p_transactionsCount := p_transactionsCount p + 1\<rparr>))"

definition recount :: "pool \<Rightarrow> pool" where
  "recount p = p\<lparr>p_transactionsCount := of_nat (length (p_transactions p))\<rparr>"

definition set_sequence :: "u64 \<Rightarrow> pool \<Rightarrow> pool" where
  "set_sequence s p = (if p_read_only p then p else p\<lparr>p_is_valid := True, p_sequence := s\<rparr>)"

definition set_previous_hash :: "pool_hash \<Rightarrow> pool \<Rightarrow> pool" where
  "set_previous_hash h p = (if p_read_only p then p else p\<lparr>p_is_valid := True, p_previous_hash := h\<rparr>)"

definition set_writer_public_key :: "byte_array \<Rightarrow> pool \<Rightarrow> pool" where
  "set_writer_public_key k p = (if p_read_only p then p else p\<lparr>p_is_valid := True, p_writer_public_key := k\<rparr>)"

definition set_storage :: "nat option \<Rightarrow> pool \<Rightarrow> pool" where
  "set_storage s p = p\<lparr>p_is_valid := True, p_storage := s\<rparr>"

definition pool_add_user_field :: "u32 \<Rightarrow> user_field \<Rightarrow> pool \<Rightarrow> bool \<times> pool" where
  "pool_add_user_field i field p =
     (if p_read_only p \<or> \<not> user_field_is_valid field then (False, p)
      else (True, p\<lparr>p_is_valid := True, p_user_fields := map_assign id_lt i field (p_user_fields p)\<rparr>))"

definition pool_clear :: "pool \<Rightarrow> bool \<times> pool" where
  "pool_clear p = (let p = p\<lparr>p_transactions := []\<rparr> in (p_transactions p = [], p))"

subsection \<open>Bytes in and out\<close>

definition pool_from_binary :: "byte_array \<Rightarrow> pool" where
  "pool_from_binary data =
     (case get_pool data of None \<Rightarrow> pool_default
      | Some (p, _) \<Rightarrow> update_transactions (p\<lparr>p_binary := data\<rparr>))"

definition meta_from_binary :: "byte_array \<Rightarrow> pool \<times> u64 option" where
  "meta_from_binary data =
     (case get_meta data of None \<Rightarrow> (pool_default, None)
      | Some ((p, cnt), _) \<Rightarrow> (p\<lparr>p_binary := data\<rparr>, Some cnt))"

definition meta_from_byte_stream :: "byte_array \<Rightarrow> pool" where
  "meta_from_byte_stream data = (case get_meta data of None \<Rightarrow> pool_default | Some ((p, _), _) \<Rightarrow> p)"

text \<open>\<open>lz4\<close> gives the content of the output buffer of the given size after decompression.\<close>

definition from_lz4_byte_stream :: "(byte_array \<Rightarrow> nat \<Rightarrow> byte_array) \<Rightarrow> byte_array \<Rightarrow> nat \<Rightarrow> pool" where
  "from_lz4_byte_stream lz4 data uncompressedSize =
     (let b = lz4 data uncompressedSize
      in case get_pool b of None \<Rightarrow> pool_default
         | Some (p, _) \<Rightarrow> p\<lparr>p_binary := b, p_hash := calc_from_data b\<rparr>)"

definition to_byte_stream :: "pool \<Rightarrow> byte_array \<times> pool" where
  "to_byte_stream p =
     (let p = (if p_binary p = [] then p\<lparr>p_binary := put_pool p\<rparr> else p) in (p_binary p, p))"

definition pool_sign :: "(byte_array \<Rightarrow> byte_array \<Rightarrow> byte_array) \<Rightarrow> byte_array \<Rightarrow> pool \<Rightarrow> pool" where
  "pool_sign sign_detached private_key p =
     p\<lparr>p_signature := map byte_char (sign_detached private_key (put_for_sig p))\<rparr>"

definition verify_signature :: "(byte_array \<Rightarrow> byte_array \<Rightarrow> byte_array \<Rightarrow> bool) \<Rightarrow> pool \<Rightarrow> bool" where
  "verify_signature verify_detached p =
     (if length (p_writer_public_key p) \<noteq> 32 \<or> length (p_signature p) \<noteq> 64 then False
      else verify_detached (p_writer_public_key p) (put_for_sig p) (map char_byte (p_signature p)))"

subsection \<open>The codec\<close>

definition pool_ok :: "pool \<Rightarrow> bool" where
  "pool_ok p \<longleftrightarrow>
     length (hash_value (p_previous_hash p)) < 2 ^ 64 \<and> user_fields_ok (p_user_fields p) \<and>
     length (p_transactions p) < 2 ^ 64 \<and> (\<forall>t \<in> set (p_transactions p). transaction_ok t) \<and>
     length (p_writer_public_key p) < 2 ^ 64 \<and> length (p_signature p) < 2 ^ 32"

text \<open>What the bytes of a pool carry.\<close>

definition pool_body :: "pool \<Rightarrow> pool" where
  "pool_body p = pool_default
     \<lparr>p_is_valid := True, p_previous_hash := p_previous_hash p, p_sequence := p_sequence p,
      p_user_fields := p_user_fields p, p_transactions := map transaction_copy (p_transactions p),
      p_transactionsCount := of_nat (length (p_transactions p)), p_signature := p_signature p,
      p_writer_public_key := p_writer_public_key p\<rparr>"

lemma get_transactions_put:
  "\<forall>t \<in> set ts. transaction_ok t \<Longrightarrow>
    get_transactions (length ts) acc (concat (map put_transaction ts) @ rest) = Some (acc @ map transaction_copy ts, rest)"
  by (induction ts arbitrary: acc) (simp_all add: get_put_transaction)

lemma get_put_pool: "pool_ok p \<Longrightarrow> get_pool (put_pool p @ rest) = Some (pool_body p, rest)"
  by (simp add: pool_ok_def get_pool_def get_meta_def put_pool_def pool_body_def pool_default_def
      pool_hash_codec.get_put user_fields_codec.map.get_put bytes_codec.get_put string_codec.get_put
      get_transactions_put unat_of_nat take_bit_nat_eq_self ucast_of_nat_64_32)

lemma get_transactions_local: "local_reader (get_transactions n ts)"
proof (induction n arbitrary: ts)
  case (Suc n)
  show ?case
    unfolding get_transactions.simps by (intro local_bind get_transaction_local Suc)
qed (simp add: local_reader_def)

lemma get_meta_local: "local_reader get_meta"
  unfolding get_meta_def
  by (intro local_intros pool_hash_codec.get_local user_fields_codec.map.get_local)

lemma pool_body_idem [simp]: "pool_body (pool_body p) = pool_body p" "put_pool (pool_body p) = put_pool p"
  "pool_ok (pool_body p) = pool_ok p"
  by (simp_all add: pool_body_def pool_default_def put_pool_def pool_ok_def comp_def)

subsection \<open>Sealed pools\<close>

text \<open>Sharing does not matter when a pool stamps its transactions: the copy loses nothing that the stamp
  keeps.\<close>

lemma update_id_copy: "transaction_update_id h i (transaction_copy t) = transaction_update_id h i t"
  by (simp add: transaction_update_id_def transaction_copy_def transaction_id_default_def)

lemma length_update_transactions [simp]:
  "length (p_transactions (update_transactions p)) = length (p_transactions p)"
  by (simp add: update_transactions_def Let_def)

lemma update_transactions_nth:
  "i < length (p_transactions p) \<Longrightarrow>
    p_transactions (update_transactions p) ! i =
    transaction_update_id (calc_from_data (p_binary p)) (of_nat i) (p_transactions p ! i)"
  by (simp add: update_transactions_def Let_def)

lemma update_transactions_frame [simp]:
  "p_is_valid (update_transactions p) = p_is_valid p" "p_read_only (update_transactions p)"
  "p_hash (update_transactions p) = calc_from_data (p_binary p)"
  "p_binary (update_transactions p) = p_binary p"
  "p_previous_hash (update_transactions p) = p_previous_hash p"
  "p_sequence (update_transactions p) = p_sequence p"
  "p_user_fields (update_transactions p) = p_user_fields p"
  "p_transactionsCount (update_transactions p) = p_transactionsCount p"
  "p_signature (update_transactions p) = p_signature p"
  "p_writer_public_key (update_transactions p) = p_writer_public_key p"
  "p_storage (update_transactions p) = p_storage p"
  by (simp_all add: update_transactions_def Let_def)

lemma calc_from_data_nonempty [simp]: "\<not> pool_hash_is_empty (calc_from_data d)"
  using length_calc_hash [of d] by (cases "calc_hash d") (simp_all add: pool_hash_is_empty_def calc_from_data_def)

text \<open>The invariant of a sealed pool: its hash is that of its bytes, and every transaction carries the
  hash and its position.\<close>

definition pool_sealed :: "pool \<Rightarrow> bool" where
  "pool_sealed p \<longleftrightarrow> p_read_only p \<and> p_hash p = calc_from_data (p_binary p) \<and>
     (\<forall>i < length (p_transactions p).
        tr_read_only (p_transactions p ! i) \<and>
        tr_id (p_transactions p ! i) = \<lparr>id_pool_hash = p_hash p, id_index = of_nat i\<rparr>)"

lemma update_id_fields [simp]:
  "tr_read_only (transaction_update_id h i t)"
  "tr_id (transaction_update_id h i t) = \<lparr>id_pool_hash = h, id_index = i\<rparr>"
  by (simp_all add: transaction_update_id_def)

lemma update_transactions_sealed: "pool_sealed (update_transactions p)"
  by (simp add: pool_sealed_def update_transactions_nth)

lemma pool_from_binary_sealed:
  "p_is_valid (pool_from_binary data) \<Longrightarrow>
    pool_sealed (pool_from_binary data) \<and> p_binary (pool_from_binary data) = data"
  by (auto simp: pool_from_binary_def pool_default_def update_transactions_sealed split: option.splits)

lemma transaction_by_id_sealed:
  assumes "pool_sealed p" "p_is_valid p" "i < length (p_transactions p)" "length (p_transactions p) < 2 ^ 64"
  shows "transaction_by_id p (tr_id (p_transactions p ! i)) = p_transactions p ! i"
proof -
  have "unat (of_nat i :: u64) = i"
    using assms(3,4) by (simp add: unat_of_nat take_bit_nat_eq_self)
  then show ?thesis
    using assms by (simp add: pool_sealed_def transaction_by_id_def transaction_id_is_valid_def pool_hash_eq_def)
qed

text \<open>The transactions of a reader-made pool that are found by an identifier.\<close>

lemma transaction_by_id_found:
  assumes "pool_sealed p" "transaction_id_is_valid (tr_id (transaction_by_id p i))"
  shows "transaction_by_id p i \<in> set (p_transactions p)" "tr_id (transaction_by_id p i) = i"
proof -
  have ok: "p_is_valid p" "transaction_id_is_valid i" "id_pool_hash i = p_hash p"
    "unat (id_index i) < length (p_transactions p)"
    using assms(2) by (auto simp: transaction_by_id_def transaction_default_def transaction_id_default_def
        transaction_id_is_valid_def pool_hash_is_empty_def pool_hash_eq_def pool_hash.expand split: if_splits)
  then have found: "transaction_by_id p i = p_transactions p ! unat (id_index i)"
    using assms(1) by (simp add: transaction_by_id_def pool_sealed_def pool_hash_eq_def)
  then show "transaction_by_id p i \<in> set (p_transactions p)"
    using ok by simp
  show "tr_id (transaction_by_id p i) = i"
    using assms(1) ok unfolding found by (simp add: pool_sealed_def)
qed

lemma map_update_copy:
  "map (\<lambda>(idx, t). transaction_update_id h (of_nat idx) t) (zip [0..<length ts] (map transaction_copy ts)) =
   map (\<lambda>(idx, t). transaction_update_id h (of_nat idx) t) (zip [0..<length ts] ts)"
  by (rule nth_equalityI) (simp_all add: update_id_copy)

lemma from_binary_compose:
  assumes "pool_ok p" "p_is_valid p" "\<not> p_read_only p"
  defines "q \<equiv> snd (pool_compose p)"
  shows "pool_from_binary (p_binary q) =
    q\<lparr>p_storage := None, p_transactionsCount := of_nat (length (p_transactions p))\<rparr>"
proof -
  have q: "q = update_transactions (p\<lparr>p_binary := put_pool p\<rparr>)"
    using assms(2,3) by (simp add: q_def pool_compose_def priv_compose_def)
  have "get_pool (put_pool p) = Some (pool_body p, [])"
    using get_put_pool [OF assms(1), of "[]"] by simp
  then have "pool_from_binary (p_binary q) = update_transactions ((pool_body p)\<lparr>p_binary := put_pool p\<rparr>)"
    by (simp add: q pool_from_binary_def)
  also have "\<dots> = q\<lparr>p_storage := None, p_transactionsCount := of_nat (length (p_transactions p))\<rparr>"
    using assms(2) unfolding q update_transactions_def pool_body_def pool_default_def Let_def
    by (simp add: map_update_copy)
  finally show ?thesis .
qed

lemma pool_compose_sealed:
  "p_is_valid p \<Longrightarrow> \<not> p_read_only p \<Longrightarrow>
    fst (pool_compose p) \<and> pool_sealed (snd (pool_compose p)) \<and> p_binary (snd (pool_compose p)) = put_pool p"
  by (simp add: pool_compose_def priv_compose_def update_transactions_sealed)

lemma first_match_spec:
  "first_match P ts = (case filter P ts of [] \<Rightarrow> transaction_default | t # _ \<Rightarrow> t)"
  by (induction ts) simp_all

lemma get_meta_prefix:
  "get_pool is = Some (p, rest) \<Longrightarrow> \<exists>m cnt r. get_meta is = Some ((m, cnt), r) \<and>
    p_previous_hash m = p_previous_hash p \<and> p_sequence m = p_sequence p \<and>
    p_user_fields m = p_user_fields p \<and> p_transactionsCount m = p_transactionsCount p"
  by (auto simp: get_pool_def bind_eq_Some_conv)

text \<open>C4: composing a pool succeeds on every valid unsealed pool; the bytes it produces read back to the
  same sealed pool (its hash, its stamped transactions and all data), which only forgets the storage
  and takes its transaction count from the data.\<close>

theorem pool_compose_roundtrip:
  assumes "pool_ok p" "p_is_valid p" "\<not> p_read_only p"
  shows "fst (pool_compose p) \<and> pool_sealed (snd (pool_compose p)) \<and>
    pool_from_binary (p_binary (snd (pool_compose p))) =
      (snd (pool_compose p))\<lparr>p_storage := None, p_transactionsCount := of_nat (length (p_transactions p))\<rparr>"
  using from_binary_compose [OF assms] pool_compose_sealed [OF assms(2,3)] by simp

theorem pool_compose_roundtrip_witness:
  "pool_from_binary (p_binary (snd (pool_compose (pool_new (PoolHash []) 7 None)))) =
    snd (pool_compose (pool_new (PoolHash []) 7 None))"
proof -
  let ?p = "pool_new (PoolHash []) 7 None"
  have "pool_ok ?p" "p_is_valid ?p" "\<not> p_read_only ?p"
    by (simp_all add: pool_new_def pool_default_def pool_ok_def map_ok_def)
  note rt = pool_compose_roundtrip [OF this]
  have "(snd (pool_compose ?p))\<lparr>p_storage := None, p_transactionsCount := of_nat (length (p_transactions ?p))\<rparr> =
      snd (pool_compose ?p)"
    by (simp add: pool_compose_def priv_compose_def update_transactions_def pool_new_def pool_default_def Let_def)
  with rt show ?thesis by simp
qed

text \<open>Whatever bytes a pool is read from, if they describe a pool then its hash is the hash of these
  bytes, and every transaction of it is found again by the identifier it carries; an identifier that
  finds a transaction is the identifier of that transaction.\<close>

theorem pool_lookup_by_id:
  assumes "p_is_valid (pool_from_binary data)" "length (p_transactions (pool_from_binary data)) < 2 ^ 64"
  shows "p_hash (pool_from_binary data) = calc_from_data data \<and>
    (\<forall>t \<in> set (p_transactions (pool_from_binary data)). transaction_by_id (pool_from_binary data) (tr_id t) = t) \<and>
    (transaction_id_is_valid (tr_id (transaction_by_id (pool_from_binary data) i)) \<longrightarrow>
      transaction_by_id (pool_from_binary data) i \<in> set (p_transactions (pool_from_binary data)) \<and>
      tr_id (transaction_by_id (pool_from_binary data) i) = i)"
proof -
  let ?p = "pool_from_binary data"
  have sealed: "pool_sealed ?p" and binary: "p_binary ?p = data"
    using pool_from_binary_sealed [OF assms(1)] by simp_all
  have "transaction_by_id ?p (tr_id t) = t" if "t \<in> set (p_transactions ?p)" for t
    using that transaction_by_id_sealed [OF sealed assms(1) _ assms(2)] by (auto simp: in_set_conv_nth)
  then show ?thesis
    using sealed transaction_by_id_found [OF sealed, of i] by (simp add: pool_sealed_def binary)
qed

theorem pool_lookup_by_id_witness:
  "p_hash (pool_from_binary (put_pool (pool_new (PoolHash []) 7 None))) =
    calc_from_data (put_pool (pool_new (PoolHash []) 7 None))"
proof -
  let ?p = "pool_new (PoolHash []) 7 None"
  have "pool_ok ?p"
    by (simp add: pool_new_def pool_default_def pool_ok_def map_ok_def)
  then have "get_pool (put_pool ?p) = Some (pool_body ?p, [])"
    using get_put_pool [of ?p "[]"] by simp
  then have "p_is_valid (pool_from_binary (put_pool ?p))"
    "length (p_transactions (pool_from_binary (put_pool ?p))) < 2 ^ 64"
    by (simp_all add: pool_from_binary_def pool_body_def pool_default_def pool_new_def)
  from pool_lookup_by_id [OF this] show ?thesis by blast
qed

subsection \<open>What a pool can become\<close>

text \<open>The public operations that may change a pool, and the pools they can make.  Left out are \<open>save\<close>, which hands the pool
  to a storage (\<open>pool_save\<close> in \<open>StorageWrite\<close>), and writing to the list through the reference that \<open>transactions()\<close> returns;
  neither changes the hash or the bytes of a sealed pool.\<close>

inductive pool_step :: "pool \<Rightarrow> pool \<Rightarrow> bool" where
  "pool_step p (snd (add_transaction t p))"
| "pool_step p (snd (pool_add_user_field i f p))"
| "pool_step p (set_sequence s p)"
| "pool_step p (set_previous_hash h p)"
| "pool_step p (set_writer_public_key k p)"
| "pool_step p (set_storage st p)"
| "pool_step p (recount p)"
| "pool_step p (snd (pool_clear p))"
| "pool_step p (snd (pool_compose p))"
| "pool_step p (snd (pool_hash_of p))"
| "pool_step p (snd (to_byte_stream p))"
| "pool_step p (pool_sign sign_detached key p)"

inductive pool_reach :: "pool \<Rightarrow> bool" where
  default: "pool_reach pool_default"
| new: "pool_reach (pool_new h s st)"
| from_binary: "pool_reach (pool_from_binary data)"
| from_meta: "pool_reach (fst (meta_from_binary data))"
| from_stream: "pool_reach (meta_from_byte_stream data)"
| from_lz4: "pool_reach (from_lz4_byte_stream lz4 data n)"
| step: "pool_reach p \<Longrightarrow> pool_step p p' \<Longrightarrow> pool_reach p'"

definition pool_inv :: "pool \<Rightarrow> bool" where
  "pool_inv p \<longleftrightarrow> fields_inv (p_user_fields p) \<and>
     (p_read_only p \<longrightarrow> p_is_valid p \<and> p_binary p \<noteq> [] \<and> p_hash p = calc_from_data (p_binary p))"

lemma fields_inv_Nil [simp]: "fields_inv []"
  by (simp add: fields_inv_def)

lemma get_meta_inv:
  "get_meta is = Some ((p, cnt), rest) \<Longrightarrow> fields_inv (p_user_fields p) \<and> \<not> p_read_only p \<and> p_is_valid p"
  by (auto simp: get_meta_def bind_eq_Some_conv pool_default_def dest: get_fields_inv)

lemma get_pool_inv:
  "get_pool is = Some (p, rest) \<Longrightarrow> fields_inv (p_user_fields p) \<and> \<not> p_read_only p \<and> p_is_valid p"
  by (auto simp: get_pool_def bind_eq_Some_conv dest: get_meta_inv)

lemma get_pool_Nil [simp]: "get_pool [] = None"
  by (simp add: get_pool_def get_meta_def get_pool_hash_def get_byte_array_def get_int_def)

lemma put_pool_nonempty [simp]: "put_pool p \<noteq> []"
  by (simp add: put_pool_def put_int_def)

lemma pool_step_inv: "pool_step p p' \<Longrightarrow> pool_inv p \<Longrightarrow> pool_inv p'"
  by (induction rule: pool_step.induct)
    (auto simp: pool_inv_def add_transaction_def pool_add_user_field_def set_sequence_def set_previous_hash_def
      set_writer_public_key_def set_storage_def recount_def pool_clear_def pool_compose_def priv_compose_def
      pool_hash_of_def to_byte_stream_def pool_sign_def Let_def fields_inv_assign)

lemma pool_reach_inv: "pool_reach p \<Longrightarrow> pool_inv p"
proof (induction rule: pool_reach.induct)
  case (from_binary data)
  then show ?case
    by (auto simp: pool_from_binary_def pool_inv_def pool_default_def split: option.splits dest: get_pool_inv)
next
  case (from_meta data)
  then show ?case
    by (auto simp: meta_from_binary_def pool_inv_def pool_default_def split: option.splits dest: get_meta_inv)
next
  case (from_stream data)
  then show ?case
    by (auto simp: meta_from_byte_stream_def pool_inv_def pool_default_def split: option.splits dest: get_meta_inv)
next
  case (from_lz4 lz4 data n)
  then show ?case
    by (auto simp: from_lz4_byte_stream_def Let_def pool_inv_def pool_default_def split: option.splits
        dest: get_pool_inv)
next
  case (step p p')
  then show ?case by (blast intro: pool_step_inv)
qed (simp_all add: pool_inv_def pool_new_def pool_default_def)

text \<open>What the bytes of a sealed pool describe.\<close>

definition pool_identity :: "pool \<Rightarrow> pool_hash \<times> byte_array \<times> pool_hash \<times> u64 \<times> user_fields \<times> byte_array" where
  "pool_identity p =
     (p_hash p, p_binary p, p_previous_hash p, p_sequence p, p_user_fields p, p_writer_public_key p)"

lemma pool_step_identity:
  "pool_step p p' \<Longrightarrow> pool_inv p \<Longrightarrow> p_read_only p \<Longrightarrow> pool_identity p' = pool_identity p \<and> p_read_only p'"
  by (induction rule: pool_step.induct)
    (auto simp: pool_inv_def pool_identity_def add_transaction_def pool_add_user_field_def set_sequence_def
      set_previous_hash_def set_writer_public_key_def set_storage_def recount_def pool_clear_def pool_compose_def
      pool_hash_of_def to_byte_stream_def pool_sign_def Let_def)

text \<open>C19: every sealed pool the program can reach carries the hash of its own bytes, and no public
  operation changes its hash, its bytes, its place in the chain, its user fields or its writer key.
  Clearing is the exception for the transactions: it empties even a sealed pool, which then still
  reports the old number of them.\<close>

theorem pool_sealed_frozen:
  assumes "pool_reach p" "p_read_only p"
  shows "p_hash p = calc_from_data (p_binary p) \<and>
    (\<forall>p'. pool_step p p' \<longrightarrow> pool_identity p' = pool_identity p \<and> p_read_only p') \<and>
    p_transactions (snd (pool_clear p)) = [] \<and>
    p_transactionsCount (snd (pool_clear p)) = p_transactionsCount p"
  using pool_reach_inv [OF assms(1)] pool_step_identity assms(2)
  by (auto simp: pool_inv_def [of p] pool_clear_def)

theorem pool_sealed_frozen_witness:
  "p_hash (snd (pool_compose (pool_new (PoolHash []) 1 None))) =
    calc_from_data (put_pool (pool_new (PoolHash []) 1 None))"
proof -
  let ?p = "pool_new (PoolHash []) 1 None"
  have "pool_reach (snd (pool_compose ?p))"
    by (rule pool_reach.step [OF pool_reach.new pool_step.intros(9)])
  moreover have q: "snd (pool_compose ?p) = update_transactions (?p\<lparr>p_binary := put_pool ?p\<rparr>)"
    by (simp add: pool_compose_def priv_compose_def pool_new_def pool_default_def)
  ultimately show ?thesis
    using pool_sealed_frozen [of "snd (pool_compose ?p)"] by simp
qed

text \<open>A pool signed with a key pair that libsodium accepts verifies, for every 32-byte key and
  64-byte signature, and goes on verifying when its signature is replaced by another accepted one:
  the signed bytes do not contain the signature.\<close>

theorem pool_sign_verify:
  assumes "\<And>msg. verify_detached pk msg (sign_detached sk msg)"
    and "\<And>msg. length (sign_detached sk msg) = 64"
    and "length pk = 32" "p_writer_public_key p = pk"
  shows "verify_signature verify_detached (pool_sign sign_detached sk p) \<and>
    verify_signature verify_detached (pool_sign sign_detached sk (pool_sign other key p))"
proof -
  have "put_for_sig (p\<lparr>p_signature := s\<rparr>) = put_for_sig p" for s
    by (simp add: put_for_sig_def)
  then show ?thesis
    using assms by (simp add: verify_signature_def pool_sign_def comp_def)
qed

theorem pool_sign_verify_witness:
  "verify_signature (\<lambda>pk msg sig. sig = replicate 64 (hd pk))
    (pool_sign (\<lambda>sk msg. replicate 64 (hd sk)) [5] (set_writer_public_key (replicate 32 5) pool_default))"
  using pool_sign_verify [of "\<lambda>pk msg sig. sig = replicate 64 (hd pk)" "replicate 32 5"
      "\<lambda>sk msg. replicate 64 (hd sk)" "[5]" "set_writer_public_key (replicate 32 5) pool_default"]
  by (simp add: set_writer_public_key_def pool_default_def)

end
