(* ===== verification/Database.thy ===== *)
theory Database
  imports Streams
begin

text \<open>
  The database interface (\<open>csdb/include/csdb/database.h\<close>, \<open>csdb/src/database.cpp\<close>) and its driver on
  Berkeley DB (\<open>csdb/src/database_berkeleydb.cpp\<close>).  The virtual class is a record of functions over
  the state of a driver.  The Berkeley DB library is not part of the repository: its record-number
  table (blocks by sequence number) and hash table (sequence number by block hash) are parameters,
  and \<open>bdb_laws\<close> states what the driver relies on: a successful put is seen by the next get, and
  other keys keep their values.
\<close>

subsection \<open>The interface\<close>

datatype db_error = DbNoError | DbNotFound | DbCorruption | DbNotSupported | DbInvalidArgument
  | DbIOError | DbNotOpen | DbUnknownError

definition db_error_message :: "db_error \<Rightarrow> string \<Rightarrow> string" where
  "db_error_message e msg =
     (if msg \<noteq> [] then msg
      else (case e of
          DbNoError \<Rightarrow> ''No error''
        | DbNotFound \<Rightarrow> ''Database is not found''
        | DbCorruption \<Rightarrow> ''Database is corrupted''
        | DbNotSupported \<Rightarrow> ''Database is not supported''
        | DbInvalidArgument \<Rightarrow> ''Invalis argument passed''
        | DbIOError \<Rightarrow> ''I/O error''
        | DbNotOpen \<Rightarrow> ''Database is not open''
        | _ \<Rightarrow> ''Unknown error''))"

text \<open>The iterator is part of the interface; \<open>get\<close> without a place for the value only tells whether the
  key is there.\<close>

record ('d, 'i) database_ops =
  do_is_open :: "'d \<Rightarrow> bool"
  do_put :: "byte_array \<Rightarrow> u32 \<Rightarrow> byte_array \<Rightarrow> 'd \<Rightarrow> bool \<times> 'd"
  do_get :: "byte_array \<Rightarrow> 'd \<Rightarrow> byte_array option \<times> 'd"
  do_exists :: "byte_array \<Rightarrow> 'd \<Rightarrow> bool \<times> 'd"
  do_new_iterator :: "'d \<Rightarrow> 'i option \<times> 'd"
  it_is_valid :: "'i \<Rightarrow> bool"
  it_seek_to_first :: "'i \<Rightarrow> 'i"
  it_next :: "'i \<Rightarrow> 'i"
  it_value :: "'i \<Rightarrow> byte_array"

text \<open>The values an iterator goes through.\<close>

inductive visits :: "('d, 'i) database_ops \<Rightarrow> 'i \<Rightarrow> byte_array list \<Rightarrow> bool" for ops where
  visits_end: "\<not> it_is_valid ops it \<Longrightarrow> visits ops it []"
| visits_value: "it_is_valid ops it \<Longrightarrow> visits ops (it_next ops it) vs \<Longrightarrow> visits ops it (it_value ops it # vs)"

inductive_cases visits_ConsE: "visits ops it (v # vs)"
inductive_cases visits_NilE: "visits ops it []"

subsection \<open>Berkeley DB\<close>

text \<open>Status 0 is success.  A cursor of the record-number table is opened on the table and moved to its
  first or next record.\<close>

record ('r, 'h, 'c) bdb_api =
  rec_open :: "string \<Rightarrow> nat \<times> 'r"
  hash_open :: "string \<Rightarrow> nat \<times> 'h"
  rec_put :: "'r \<Rightarrow> u32 \<Rightarrow> byte_array \<Rightarrow> nat \<times> 'r"
  rec_get :: "'r \<Rightarrow> u32 \<Rightarrow> nat \<times> byte_array"
  rec_cursor :: "'r \<Rightarrow> 'c option"
  cursor_first :: "'c \<Rightarrow> (nat \<times> byte_array) \<times> 'c"
  cursor_next :: "'c \<Rightarrow> (nat \<times> byte_array) \<times> 'c"
  hash_put :: "'h \<Rightarrow> byte_array \<Rightarrow> u32 \<Rightarrow> nat \<times> 'h"
  hash_get :: "'h \<Rightarrow> byte_array \<Rightarrow> nat \<times> u32"
  hash_exists :: "'h \<Rightarrow> byte_array \<Rightarrow> nat"

record ('r, 'h) berkeley =
  db_blocks :: "'r option"
  db_seq_no :: "'h option"
  db_last_error :: db_error

abbreviation (input) ENOENT :: nat where "ENOENT \<equiv> 2"

definition error_of_status :: "nat \<Rightarrow> db_error" where
  "error_of_status status = (if status = 0 then DbNoError else if status = ENOENT then DbNotFound else DbUnknownError)"

definition berkeley_new :: "('r, 'h) berkeley" where
  "berkeley_new = \<lparr>db_blocks = None, db_seq_no = None, db_last_error = DbNoError\<rparr>"

text \<open>\<open>direc_ok\<close> tells whether the path is, or could be made, a directory.  When the second table cannot
  be opened the first one stays.\<close>

definition berkeley_open ::
  "('r, 'h, 'c) bdb_api \<Rightarrow> (string \<Rightarrow> bool) \<Rightarrow> string \<Rightarrow> ('r, 'h) berkeley \<Rightarrow> bool \<times> ('r, 'h) berkeley" where
  "berkeley_open api direc_ok path d =
     (if \<not> direc_ok path then (False, d)
      else (let d = d\<lparr>db_blocks := None, db_seq_no := None\<rparr>;
                (status, blocks) = rec_open api (path @ ''/blockchain.db'')
            in if status \<noteq> 0 then (False, d\<lparr>db_last_error := error_of_status status\<rparr>)
               else (let d = d\<lparr>db_blocks := Some blocks\<rparr>;
                         (status, seq_no) = hash_open api (path @ ''/sequence.db'')
                     in if status \<noteq> 0 then (False, d\<lparr>db_last_error := error_of_status status\<rparr>)
                        else (True, d\<lparr>db_seq_no := Some seq_no, db_last_error := DbNoError\<rparr>))))"

definition berkeley_is_open :: "('r, 'h) berkeley \<Rightarrow> bool" where
  "berkeley_is_open d \<longleftrightarrow> db_blocks d \<noteq> None"

definition berkeley_put ::
  "('r, 'h, 'c) bdb_api \<Rightarrow> byte_array \<Rightarrow> u32 \<Rightarrow> byte_array \<Rightarrow> ('r, 'h) berkeley \<Rightarrow> bool \<times> ('r, 'h) berkeley" where
  "berkeley_put api key seq_no value d =
     (case db_blocks d of None \<Rightarrow> (False, d\<lparr>db_last_error := DbNotOpen\<rparr>)
      | Some blocks \<Rightarrow>
        (let (status, blocks') = rec_put api blocks (seq_no + 1) value; d = d\<lparr>db_blocks := Some blocks'\<rparr>
         in if status \<noteq> 0 then (False, d\<lparr>db_last_error := error_of_status status\<rparr>)
            else (let (status, seq') = hash_put api (the (db_seq_no d)) key (seq_no + 1);
                      d = d\<lparr>db_seq_no := Some seq'\<rparr>
                  in if status \<noteq> 0 then (False, d\<lparr>db_last_error := error_of_status status\<rparr>)
                     else (True, d\<lparr>db_last_error := DbNoError\<rparr>))))"

definition berkeley_exists ::
  "('r, 'h, 'c) bdb_api \<Rightarrow> byte_array \<Rightarrow> ('r, 'h) berkeley \<Rightarrow> bool \<times> ('r, 'h) berkeley" where
  "berkeley_exists api key d =
     (if db_blocks d = None then (False, d\<lparr>db_last_error := DbNotOpen\<rparr>)
      else (hash_exists api (the (db_seq_no d)) key = 0, d))"

definition berkeley_get ::
  "('r, 'h, 'c) bdb_api \<Rightarrow> byte_array \<Rightarrow> ('r, 'h) berkeley \<Rightarrow> byte_array option \<times> ('r, 'h) berkeley" where
  "berkeley_get api key d =
     (case db_blocks d of None \<Rightarrow> (None, d\<lparr>db_last_error := DbNotOpen\<rparr>)
      | Some blocks \<Rightarrow>
        (let (status, seq_no) = hash_get api (the (db_seq_no d)) key
         in if status \<noteq> 0 then (None, d\<lparr>db_last_error := error_of_status status\<rparr>)
            else (let (status, value) = rec_get api blocks seq_no
                  in if status \<noteq> 0 then (None, d\<lparr>db_last_error := error_of_status status\<rparr>)
                     else (Some value, d\<lparr>db_last_error := DbNoError\<rparr>))))"

text \<open>The iterator: a cursor, whether it stands on a record, and a copy of that record.\<close>

record 'c bdb_iterator =
  bit_it :: "'c option"
  bit_valid :: bool
  bit_value :: byte_array

definition bdb_iterator_new :: "'c option \<Rightarrow> 'c bdb_iterator" where
  "bdb_iterator_new c = \<lparr>bit_it = c, bit_valid = (c \<noteq> None), bit_value = []\<rparr>"

definition bdb_move :: "('c \<Rightarrow> (nat \<times> byte_array) \<times> 'c) \<Rightarrow> 'c bdb_iterator \<Rightarrow> 'c bdb_iterator" where
  "bdb_move dbc_get it =
     (case bit_it it of None \<Rightarrow> it
      | Some c \<Rightarrow>
        (let ((ret, value), c) = dbc_get c; it = it\<lparr>bit_it := Some c\<rparr>
         in if ret = 0 then it\<lparr>bit_value := value, bit_valid := True\<rparr> else it\<lparr>bit_valid := False\<rparr>))"

definition bdb_value :: "'c bdb_iterator \<Rightarrow> byte_array" where
  "bdb_value it = (if bit_valid it then bit_value it else [])"

definition berkeley_new_iterator ::
  "('r, 'h, 'c) bdb_api \<Rightarrow> ('r, 'h) berkeley \<Rightarrow> 'c bdb_iterator option \<times> ('r, 'h) berkeley" where
  "berkeley_new_iterator api d =
     (case db_blocks d of None \<Rightarrow> (None, d\<lparr>db_last_error := DbNotOpen\<rparr>)
      | Some blocks \<Rightarrow> (Some (bdb_iterator_new (rec_cursor api blocks)), d))"

definition berkeley_ops :: "('r, 'h, 'c) bdb_api \<Rightarrow> (('r, 'h) berkeley, 'c bdb_iterator) database_ops" where
  "berkeley_ops api =
     \<lparr>do_is_open = berkeley_is_open, do_put = berkeley_put api, do_get = berkeley_get api,
      do_exists = berkeley_exists api, do_new_iterator = berkeley_new_iterator api,
      it_is_valid = bit_valid, it_seek_to_first = bdb_move (cursor_first api),
      it_next = bdb_move (cursor_next api), it_value = bdb_value\<rparr>"

subsection \<open>What the driver relies on\<close>

definition bdb_laws :: "('r, 'h, 'c) bdb_api \<Rightarrow> bool" where
  "bdb_laws api \<longleftrightarrow>
     (\<forall>r n v r'. rec_put api r n v = (0, r') \<longrightarrow>
        rec_get api r' n = (0, v) \<and>
        (\<forall>m w. m \<noteq> n \<longrightarrow> (rec_get api r' m = (0, w) \<longleftrightarrow> rec_get api r m = (0, w)))) \<and>
     (\<forall>h k n h'. hash_put api h k n = (0, h') \<longrightarrow>
        hash_get api h' k = (0, n) \<and>
        (\<forall>j w. j \<noteq> k \<longrightarrow> (hash_get api h' j = (0, w) \<longleftrightarrow> hash_get api h j = (0, w)))) \<and>
     (\<forall>h k. hash_exists api h k = 0 \<longleftrightarrow> fst (hash_get api h k) = 0)"

text \<open>The value a hash leads to, and the record it is kept in.\<close>

definition berkeley_lookup :: "('r, 'h, 'c) bdb_api \<Rightarrow> ('r, 'h) berkeley \<Rightarrow> byte_array \<Rightarrow> byte_array option" where
  "berkeley_lookup api d key = fst (berkeley_get api key d)"

definition berkeley_record :: "('r, 'h, 'c) bdb_api \<Rightarrow> ('r, 'h) berkeley \<Rightarrow> byte_array \<Rightarrow> u32 option" where
  "berkeley_record api d key =
     (case db_seq_no d of None \<Rightarrow> None
      | Some h \<Rightarrow> (case hash_get api h key of (0, n) \<Rightarrow> Some n | _ \<Rightarrow> None))"

lemma berkeley_lookup_iff:
  assumes "db_blocks d = Some r" "db_seq_no d = Some h"
  shows "berkeley_lookup api d key = Some v \<longleftrightarrow> (\<exists>n. hash_get api h key = (0, n) \<and> rec_get api r n = (0, v))"
  using assms by (auto simp: berkeley_lookup_def berkeley_get_def Let_def split: prod.splits if_splits)

lemma berkeley_put_ok:
  assumes "berkeley_put api key seq v d = (True, d')" "db_seq_no d = Some h"
  obtains r r' h' where "db_blocks d = Some r" "rec_put api r (seq + 1) v = (0, r')"
    "hash_put api h key (seq + 1) = (0, h')" "db_blocks d' = Some r'" "db_seq_no d' = Some h'"
  using assms by (auto simp: berkeley_put_def Let_def split: option.splits prod.splits if_splits)

lemma berkeley_put_lookup:
  assumes "bdb_laws api" "berkeley_put api key seq v d = (True, d')" "db_seq_no d = Some h"
  shows "berkeley_lookup api d' key = Some v" "berkeley_is_open d'"
proof -
  obtain r r' h' where put: "db_blocks d = Some r" "rec_put api r (seq + 1) v = (0, r')"
    "hash_put api h key (seq + 1) = (0, h')" "db_blocks d' = Some r'" "db_seq_no d' = Some h'"
    using berkeley_put_ok [OF assms(2,3)] .
  have "rec_get api r' (seq + 1) = (0, v)" "hash_get api h' key = (0, seq + 1)"
    using assms(1) put(2,3) unfolding bdb_laws_def by blast+
  then show "berkeley_lookup api d' key = Some v"
    using berkeley_lookup_iff [OF put(4,5), where api = api] by blast
  show "berkeley_is_open d'"
    using put(4) by (simp add: berkeley_is_open_def)
qed

lemma berkeley_put_others:
  assumes "bdb_laws api" "berkeley_put api key seq v d = (True, d')" "db_seq_no d = Some h"
    and "j \<noteq> key" "\<forall>n. hash_get api h j = (0, n) \<longrightarrow> n \<noteq> seq + 1"
  shows "berkeley_lookup api d' j = berkeley_lookup api d j"
proof -
  obtain r r' h' where put: "db_blocks d = Some r" "rec_put api r (seq + 1) v = (0, r')"
    "hash_put api h key (seq + 1) = (0, h')" "db_blocks d' = Some r'" "db_seq_no d' = Some h'"
    using berkeley_put_ok [OF assms(2,3)] .
  have "\<And>m x. m \<noteq> seq + 1 \<Longrightarrow> rec_get api r' m = (0, x) \<longleftrightarrow> rec_get api r m = (0, x)"
    "\<And>x. hash_get api h' j = (0, x) \<longleftrightarrow> hash_get api h j = (0, x)"
    using assms(1,4) put(2,3) unfolding bdb_laws_def by blast+
  then have "berkeley_lookup api d' j = Some x \<longleftrightarrow> berkeley_lookup api d j = Some x" for x
    using berkeley_lookup_iff [OF put(4,5), where api = api] berkeley_lookup_iff [OF put(1) assms(3), where api = api] assms(5)
    by metis
  then show ?thesis
    by (metis option.exhaust)
qed

lemma berkeley_put_same_record:
  assumes "bdb_laws api" "berkeley_put api key seq v d = (True, d1)" "db_seq_no d = Some h"
    and "berkeley_put api key' seq v' d1 = (True, d2)"
  shows "berkeley_lookup api d2 key = Some v'" "berkeley_is_open d2"
proof -
  obtain r r1 h1 where put1: "db_blocks d = Some r" "rec_put api r (seq + 1) v = (0, r1)"
    "hash_put api h key (seq + 1) = (0, h1)" "db_blocks d1 = Some r1" "db_seq_no d1 = Some h1"
    using berkeley_put_ok [OF assms(2,3)] .
  obtain r1' r2 h2 where put2: "db_blocks d1 = Some r1'" "rec_put api r1' (seq + 1) v' = (0, r2)"
    "hash_put api h1 key' (seq + 1) = (0, h2)" "db_blocks d2 = Some r2" "db_seq_no d2 = Some h2"
    using berkeley_put_ok [OF assms(4) put1(5)] .
  have "hash_get api h1 key = (0, seq + 1)" "rec_get api r2 (seq + 1) = (0, v')"
    using assms(1) put1(3) put2(2) unfolding bdb_laws_def by blast+
  moreover have "hash_get api h2 key' = (0, seq + 1)"
    "\<And>j x. j \<noteq> key' \<Longrightarrow> hash_get api h2 j = (0, x) \<longleftrightarrow> hash_get api h1 j = (0, x)"
    using assms(1) put2(3) unfolding bdb_laws_def by blast+
  ultimately have "hash_get api h2 key = (0, seq + 1)" "rec_get api r2 (seq + 1) = (0, v')"
    by (cases "key = key'"; simp)+
  then show "berkeley_lookup api d2 key = Some v'"
    using berkeley_lookup_iff [OF put2(4,5), where api = api] by blast
  show "berkeley_is_open d2"
    using put2(4) by (simp add: berkeley_is_open_def)
qed

text \<open>C20: after a successful put the driver returns the value under its hash.  A block stored before
  under another hash is still returned if its sequence number is another one; if it is the same, its
  hash now returns the new block.\<close>

theorem berkeley_put_get:
  assumes "bdb_laws api" "berkeley_put api key seq v d = (True, d')" "db_seq_no d = Some h"
    and "key' \<noteq> key" "berkeley_lookup api d key' = Some w"
  shows "berkeley_lookup api d' key = Some v \<and> fst (berkeley_exists api key d') \<and>
    berkeley_lookup api d' key' = (if berkeley_record api d key' = Some (seq + 1) then Some v else Some w)"
proof -
  obtain r r' h' where put: "db_blocks d = Some r" "rec_put api r (seq + 1) v = (0, r')"
    "hash_put api h key (seq + 1) = (0, h')" "db_blocks d' = Some r'" "db_seq_no d' = Some h'"
    using berkeley_put_ok [OF assms(2,3)] .
  obtain n where old: "hash_get api h key' = (0, n)" "rec_get api r n = (0, w)"
    using assms(5) berkeley_lookup_iff [OF put(1) assms(3), where api = api] by auto
  have rec: "rec_get api r' (seq + 1) = (0, v)"
    "\<And>m x. m \<noteq> seq + 1 \<Longrightarrow> rec_get api r' m = (0, x) \<longleftrightarrow> rec_get api r m = (0, x)"
    using assms(1) put(2) unfolding bdb_laws_def by blast+
  have hash: "hash_get api h' key = (0, seq + 1)"
    "\<And>j x. j \<noteq> key \<Longrightarrow> hash_get api h' j = (0, x) \<longleftrightarrow> hash_get api h j = (0, x)"
    using assms(1) put(3) unfolding bdb_laws_def by blast+
  have ex: "hash_exists api h' key = 0"
    using assms(1) hash(1) unfolding bdb_laws_def by (metis fst_conv)
  have old': "hash_get api h' key' = (0, n)"
    using hash(2) [OF assms(4)] old(1) by blast
  have lookup: "berkeley_lookup api d' key = Some v"
    by (rule berkeley_put_lookup [OF assms(1-3)])
  have "berkeley_lookup api d' key' = (if n = seq + 1 then Some v else Some w)"
    using berkeley_lookup_iff [OF put(4,5), where api = api] old' rec old(2) by auto
  moreover have "berkeley_record api d key' = Some n"
    using assms(3) old(1) by (simp add: berkeley_record_def)
  ultimately show ?thesis
    using lookup ex put(4,5) by (simp add: berkeley_exists_def)
qed

text \<open>Tables as finite maps.\<close>

text \<open>The cursor is the list of the records from the current one on.\<close>

fun list_first :: "byte_array list \<Rightarrow> (nat \<times> byte_array) \<times> byte_array list" where
  "list_first [] = ((1, []), [])"
| "list_first (v # vs) = ((0, v), v # vs)"

definition list_next :: "byte_array list \<Rightarrow> (nat \<times> byte_array) \<times> byte_array list" where
  "list_next vs = list_first (drop 1 vs)"

definition map_api :: "(u32 \<rightharpoonup> byte_array, byte_array \<rightharpoonup> u32, byte_array list) bdb_api" where
  "map_api =
     \<lparr>rec_open = (\<lambda>_. (0, Map.empty)), hash_open = (\<lambda>_. (0, Map.empty)),
      rec_put = (\<lambda>r n v. (0, r(n \<mapsto> v))),
      rec_get = (\<lambda>r n. case r n of None \<Rightarrow> (1, []) | Some v \<Rightarrow> (0, v)),
      rec_cursor = (\<lambda>r. Some (map (\<lambda>i. the (r (of_nat (i + 1)))) [0..<card (dom r)])),
      cursor_first = list_first, cursor_next = list_next,
      hash_put = (\<lambda>h k n. (0, h(k \<mapsto> n))),
      hash_get = (\<lambda>h k. case h k of None \<Rightarrow> (1, 0) | Some n \<Rightarrow> (0, n)),
      hash_exists = (\<lambda>h k. case h k of None \<Rightarrow> 1 | Some n \<Rightarrow> 0)\<rparr>"

lemma map_api_laws: "bdb_laws map_api"
  by (auto simp: bdb_laws_def map_api_def split: option.splits)

theorem berkeley_put_get_witness:
  "let d = \<lparr>db_blocks = Some [1 \<mapsto> [10]], db_seq_no = Some [[7] \<mapsto> 1], db_last_error = DbNoError\<rparr>;
       d' = snd (berkeley_put map_api [8] 0 [20] d)
   in berkeley_lookup map_api d [7] = Some [10] \<and> berkeley_lookup map_api d' [8] = Some [20] \<and>
      berkeley_lookup map_api d' [7] = Some [20]"
proof -
  let ?d = "\<lparr>db_blocks = Some [1 \<mapsto> [10]], db_seq_no = Some [[7] \<mapsto> 1], db_last_error = DbNoError\<rparr>
    :: (u32 \<rightharpoonup> byte_array, byte_array \<rightharpoonup> u32) berkeley"
  let ?d' = "snd (berkeley_put map_api [8] 0 [20] ?d)"
  have put: "berkeley_put map_api [8] 0 [20] ?d = (True, ?d')"
    by (simp add: berkeley_put_def map_api_def)
  have old: "berkeley_lookup map_api ?d [7] = Some [10]" "berkeley_record map_api ?d [7] = Some 1"
    by (simp_all add: berkeley_lookup_def berkeley_get_def berkeley_record_def map_api_def)
  show ?thesis
    using berkeley_put_get [OF map_api_laws put _ _ old(1), of "[[7] \<mapsto> 1]"] old by (simp add: Let_def)
qed

end
