(* ===== verification/Storage.thy ===== *)
theory Storage
  imports Pool Database
begin

text \<open>
  The storage of pools (\<open>csdb/src/storage.cpp\<close>) over any database driver.  The state is that of
  \<open>Storage::priv\<close>: the driver, the hash of the last pool, the number of pools, the queue of the
  writer thread, whether that thread was started, and the last error (its kind; the message texts are not modelled).  The loops that
  walk back through the chain of previous hashes end only when a pool is missing, so they are partial
  functions; \<open>chain\<close> relates a hash to the pools reached from it, and the theorems show that the loops
  return on every finite chain, with the result read off the chain.
\<close>

subsection \<open>State and loading\<close>

datatype storage_error = StNoError | StNotOpen | StDatabaseError | StChainError | StDataIntegrityError
  | StUserCancelled | StInvalidParameter | StUnknownError

record 'd storage =
  s_db :: "'d option"
  s_last_hash :: pool_hash
  s_count_pool :: u64
  s_write_queue :: "pool list"
  s_write_thread :: bool
  s_last_error :: storage_error

definition storage_default :: "'d storage" where
  "storage_default = \<lparr>s_db = None, s_last_hash = PoolHash [], s_count_pool = 0, s_write_queue = [],
     s_write_thread = False, s_last_error = StNoError\<rparr>"

definition isOpen :: "('d, 'i) database_ops \<Rightarrow> 'd storage \<Rightarrow> bool" where
  "isOpen ops st = (case s_db st of None \<Rightarrow> False | Some d \<Rightarrow> do_is_open ops d)"

definition storage_close :: "'d storage \<Rightarrow> 'd storage" where
  "storage_close st = st\<lparr>s_db := None, s_last_error := StNoError\<rparr>"

definition pool_load :: "('d, 'i) database_ops \<Rightarrow> pool_hash \<Rightarrow> 'd storage \<Rightarrow> pool \<times> 'd storage" where
  "pool_load ops hash st =
     (if \<not> isOpen ops st then (pool_default, st\<lparr>s_last_error := StNotOpen\<rparr>)
      else if pool_hash_is_empty hash then (pool_default, st\<lparr>s_last_error := StInvalidParameter\<rparr>)
      else (let (data, d) = do_get ops (hash_value hash) (the (s_db st)); st = st\<lparr>s_db := Some d\<rparr>
            in case data of None \<Rightarrow> (pool_default, st\<lparr>s_last_error := StDatabaseError\<rparr>)
               | Some data \<Rightarrow>
                 (let res = pool_from_binary data
                  in if \<not> p_is_valid res then (res, st\<lparr>s_last_error := StDataIntegrityError\<rparr>)
                     else (res, st\<lparr>s_last_error := StNoError\<rparr>))))"

definition pool_load_meta :: "('d, 'i) database_ops \<Rightarrow> pool_hash \<Rightarrow> 'd storage \<Rightarrow> (pool \<times> u64 option) \<times> 'd storage" where
  "pool_load_meta ops hash st =
     (if \<not> isOpen ops st then ((pool_default, None), st\<lparr>s_last_error := StNotOpen\<rparr>)
      else if pool_hash_is_empty hash then ((pool_default, None), st\<lparr>s_last_error := StInvalidParameter\<rparr>)
      else (let (data, d) = do_get ops (hash_value hash) (the (s_db st)); st = st\<lparr>s_db := Some d\<rparr>
            in case data of None \<Rightarrow> ((pool_default, None), st\<lparr>s_last_error := StDatabaseError\<rparr>)
               | Some data \<Rightarrow>
                 (let res = meta_from_binary data
                  in if \<not> p_is_valid (fst res) then (res, st\<lparr>s_last_error := StDataIntegrityError\<rparr>)
                     else (res, st\<lparr>s_last_error := StNoError\<rparr>))))"

definition storage_transaction :: "('d, 'i) database_ops \<Rightarrow> transaction_id \<Rightarrow> 'd storage \<Rightarrow> transaction \<times> 'd storage" where
  "storage_transaction ops i st =
     (if \<not> transaction_id_is_valid i then (transaction_default, st\<lparr>s_last_error := StInvalidParameter\<rparr>)
      else (let (p, st) = pool_load ops (id_pool_hash i) st in (transaction_by_id p i, st)))"

subsection \<open>Walking back through the chain\<close>

partial_function (option) last_by_loop ::
  "('d, 'i) database_ops \<Rightarrow> (pool \<Rightarrow> transaction) \<Rightarrow> pool \<Rightarrow> 'd storage \<Rightarrow> (transaction \<times> 'd storage) option" where
  "last_by_loop ops last_by pool_curr st =
     (if p_is_valid pool_curr
      then (let t = last_by pool_curr in
            if transaction_is_valid t then Some (t, st)
            else (let (pool_curr, st) = pool_load ops (p_previous_hash pool_curr) st in last_by_loop ops last_by pool_curr st))
      else Some (transaction_default, st))"

definition get_last_by_source ::
  "('d, 'i) database_ops \<Rightarrow> address \<Rightarrow> 'd storage \<Rightarrow> (transaction \<times> 'd storage) option" where
  "get_last_by_source ops source st =
     (let (pool_curr, st) = pool_load ops (s_last_hash st) st
      in last_by_loop ops (\<lambda>p. pool_get_last_by_source p source) pool_curr st)"

definition get_last_by_target ::
  "('d, 'i) database_ops \<Rightarrow> address \<Rightarrow> 'd storage \<Rightarrow> (transaction \<times> 'd storage) option" where
  "get_last_by_target ops target st =
     (let (pool_curr, st) = pool_load ops (s_last_hash st) st
      in last_by_loop ops (\<lambda>p. pool_get_last_by_target p target) pool_curr st)"

definition transactions_count :: "pool \<Rightarrow> u64" where
  "transactions_count p = ucast (p_transactionsCount p)"

lemma unat_transactions_count [simp]: "unat (transactions_count p) = unat (p_transactionsCount p)"
proof -
  have "unat (p_transactionsCount p) < 2 ^ 64"
    using unsigned_less [of "p_transactionsCount p", where 'a = nat] by simp
  then show ?thesis
    unfolding transactions_count_def by (simp add: unsigned_ucast_eq take_bit_nat_eq_self)
qed

text \<open>Leaving out the pools without transactions.\<close>

partial_function (option) skip_empty ::
  "('d, 'i) database_ops \<Rightarrow> pool \<Rightarrow> 'd storage \<Rightarrow> (pool \<times> 'd storage) option" where
  "skip_empty ops cur st =
     (if p_is_valid cur \<and> transactions_count cur = 0
      then (let (cur, st) = pool_load ops (p_previous_hash cur) st in skip_empty ops cur st)
      else Some (cur, st))"

text \<open>The position of the walk: the current pool and the index in it.  \<open>next_it\<close> goes to the next older
  transaction and tells whether there is one.\<close>

definition enter_pool ::
  "('d, 'i) database_ops \<Rightarrow> pool_hash \<Rightarrow> u64 \<Rightarrow> 'd storage \<Rightarrow> (bool \<times> pool \<times> u64 \<times> 'd storage) option" where
  "enter_pool ops hash curIdx st =
     (let (cur, st) = pool_load ops hash st
      in Option.bind (skip_empty ops cur st) (\<lambda>(cur, st).
           if p_is_valid cur then Some (True, cur, transactions_count cur - 1, st)
           else Some (False, cur, curIdx, st)))"

definition next_it ::
  "('d, 'i) database_ops \<Rightarrow> pool \<Rightarrow> u64 \<Rightarrow> 'd storage \<Rightarrow> (bool \<times> pool \<times> u64 \<times> 'd storage) option" where
  "next_it ops curPool curIdx st =
     (if p_is_valid curPool
      then (if curIdx \<noteq> 0 then Some (True, curPool, curIdx - 1, st)
            else enter_pool ops (p_previous_hash curPool) curIdx st)
      else enter_pool ops (s_last_hash st) curIdx st)"

definition seek_it ::
  "('d, 'i) database_ops \<Rightarrow> transaction_id \<Rightarrow> 'd storage \<Rightarrow> (bool \<times> pool \<times> u64) \<times> 'd storage" where
  "seek_it ops i st =
     (if transaction_id_is_valid i
      then (let (cur, st) = pool_load ops (id_pool_hash i) st
            in if p_is_valid cur \<and> id_index i < transactions_count cur
               then ((True, cur, id_index i), st) else ((False, cur, 0), st))
      else ((False, pool_default, 0), st))"

partial_function (option) transactions_loop ::
  "('d, 'i) database_ops \<Rightarrow> address \<Rightarrow> nat \<Rightarrow> transaction list \<Rightarrow> pool \<Rightarrow> u64 \<Rightarrow> 'd storage \<Rightarrow>
   (transaction list \<times> 'd storage) option" where
  "transactions_loop ops addr limit res curPool curIdx st =
     (if length res < limit
      then Option.bind (next_it ops curPool curIdx st) (\<lambda>(more, curPool, curIdx, st).
        if more
        then (let t = transaction_at curPool curIdx;
                  res = (if address_eq (tr_source t) addr \<or> address_eq (tr_target t) addr then res @ [t] else res)
              in transactions_loop ops addr limit res curPool curIdx st)
        else Some (res, st))
      else Some (res, st))"

definition storage_transactions ::
  "('d, 'i) database_ops \<Rightarrow> address \<Rightarrow> nat \<Rightarrow> transaction_id \<Rightarrow> 'd storage \<Rightarrow> (transaction list \<times> 'd storage) option" where
  "storage_transactions ops addr limit offset st =
     (if transaction_id_is_valid offset
      then (let ((found, curPool, curIdx), st) = seek_it ops offset st
            in if \<not> found then Some ([], st)
               else transactions_loop ops addr limit [] curPool curIdx st)
      else transactions_loop ops addr limit [] pool_default 0 st)"

partial_function (option) blockchain_loop ::
  "('d, 'i) database_ops \<Rightarrow> address \<Rightarrow> u64 \<Rightarrow> pool \<Rightarrow> u64 \<Rightarrow> 'd storage \<Rightarrow> (transaction option \<times> 'd storage) option" where
  "blockchain_loop ops addr innerId curPool curIdx st =
     (let trx_curr = transaction_at curPool curIdx in
      if address_eq (tr_source trx_curr) addr \<and> tr_innerID trx_curr = innerId then Some (Some trx_curr, st)
      else Option.bind (next_it ops curPool curIdx st) (\<lambda>(more, curPool, curIdx, st).
        if more then blockchain_loop ops addr innerId curPool curIdx st else Some (None, st)))"

definition get_from_blockchain ::
  "('d, 'i) database_ops \<Rightarrow> address \<Rightarrow> u64 \<Rightarrow> 'd storage \<Rightarrow> (transaction option \<times> 'd storage) option" where
  "get_from_blockchain ops addr innerId st =
     Option.bind (get_last_by_source ops addr st) (\<lambda>(t, st).
       let last_trx_id = tr_id t in
       if transaction_id_is_valid last_trx_id
       then (let (curPool, st) = pool_load ops (id_pool_hash last_trx_id) st
             in if p_is_valid curPool \<and> id_index last_trx_id < transactions_count curPool
                then (if id_index last_trx_id = - 1 then Some (None, st)
                      else blockchain_loop ops addr innerId curPool (id_index last_trx_id) st)
                else Some (None, st))
       else Some (None, st))"

subsection \<open>Chains\<close>

inductive chain :: "(pool_hash \<Rightarrow> pool) \<Rightarrow> pool_hash \<Rightarrow> pool list \<Rightarrow> bool" where
  chain_end: "\<not> p_is_valid (load h) \<Longrightarrow> chain load h []"
| chain_pool: "p_is_valid (load h) \<Longrightarrow> chain load (p_previous_hash (load h)) ps \<Longrightarrow> chain load h (load h # ps)"

inductive_cases chain_NilE: "chain load h []"
inductive_cases chain_ConsE: "chain load h (p # ps)"

text \<open>The transactions of a chain from the newest to the oldest, and the pools that report the number of
  transactions they hold.\<close>

definition newest_first :: "pool list \<Rightarrow> transaction list" where
  "newest_first ps = concat (map (\<lambda>p. rev (p_transactions p)) ps)"

definition counted :: "pool \<Rightarrow> bool" where
  "counted p \<longleftrightarrow> unat (p_transactionsCount p) = length (p_transactions p)"

lemma newest_first_simps [simp]:
  "newest_first [] = []" "newest_first (p # ps) = rev (p_transactions p) @ newest_first ps"
  by (simp_all add: newest_first_def)

text \<open>The contract of a driver on which the walks rely: reading does not change what can be read.\<close>

text \<open>Every pool the storage returns counts its transactions modulo \<open>2 ^ 32\<close>.\<close>

lemma get_transactions_length:
  "get_transactions n ts is = Some (ts', r) \<Longrightarrow> length ts' = length ts + n"
  by (induction n arbitrary: ts "is") (auto simp: bind_eq_Some_conv)

lemma pool_from_binary_count:
  assumes "p_is_valid (pool_from_binary data)"
  shows "p_transactionsCount (pool_from_binary data) = of_nat (length (p_transactions (pool_from_binary data)))"
proof -
  obtain p r where g: "get_pool data = Some (p, r)"
    using assms by (auto simp: pool_from_binary_def pool_default_def split: option.splits)
  have "p_transactionsCount p = of_nat (length (p_transactions p))"
    using g by (auto simp: get_pool_def get_meta_def bind_eq_Some_conv of_nat_unat
        dest!: get_transactions_length)
  then show ?thesis
    using g by (simp add: pool_from_binary_def)
qed

text \<open>What a load returns and what it leaves in the state, without the error it records.\<close>

lemma pool_load_result:
  "fst (pool_load ops h st) =
     (case s_db st of None \<Rightarrow> pool_default
      | Some d \<Rightarrow> if do_is_open ops d \<and> \<not> pool_hash_is_empty h
                  then (case fst (do_get ops (hash_value h) d) of None \<Rightarrow> pool_default | Some data \<Rightarrow> pool_from_binary data)
                  else pool_default)"
  by (simp add: pool_load_def isOpen_def Let_def split: option.split prod.split)

lemma pool_load_state:
  "s_db (snd (pool_load ops h st)) =
     (case s_db st of None \<Rightarrow> None
      | Some d \<Rightarrow> Some (if do_is_open ops d \<and> \<not> pool_hash_is_empty h then snd (do_get ops (hash_value h) d) else d))"
  "s_last_hash (snd (pool_load ops h st)) = s_last_hash st"
  by (simp_all add: pool_load_def isOpen_def Let_def split: option.split prod.split)

lemma pool_load_counted:
  assumes "p_is_valid (fst (pool_load ops h st))" "length (p_transactions (fst (pool_load ops h st))) < 2 ^ 32"
  shows "counted (fst (pool_load ops h st))"
proof -
  obtain data where "fst (pool_load ops h st) = pool_from_binary data"
    using assms(1) by (auto simp: pool_load_result pool_default_def split: option.splits if_splits)
  then show ?thesis
    using assms pool_from_binary_count [of data]
    by (simp add: counted_def unat_of_nat take_bit_nat_eq_self)
qed

abbreviation view :: "('d, 'i) database_ops \<Rightarrow> 'd storage \<Rightarrow> pool_hash \<Rightarrow> pool" where
  "view ops st \<equiv> \<lambda>h. fst (pool_load ops h st)"

definition same_view :: "('d, 'i) database_ops \<Rightarrow> 'd storage \<Rightarrow> 'd storage \<Rightarrow> bool" where
  "same_view ops st st' \<longleftrightarrow> view ops st' = view ops st \<and> s_last_hash st' = s_last_hash st"

lemma same_view_refl [simp]: "same_view ops st st"
  by (simp add: same_view_def)

lemma same_view_trans: "same_view ops a b \<Longrightarrow> same_view ops b c \<Longrightarrow> same_view ops a c"
  by (simp add: same_view_def)

lemma chain_counted: "chain (view ops st) h ps \<Longrightarrow> \<forall>p \<in> set ps. length (p_transactions p) < 2 ^ 32 \<Longrightarrow> list_all counted ps"
  by (induction "view ops st" h ps rule: chain.induct) (simp_all add: pool_load_counted)

text \<open>The first pool with a transaction, and the transactions found from a position on.\<close>

definition first_valid :: "(pool \<Rightarrow> transaction) \<Rightarrow> pool list \<Rightarrow> transaction" where
  "first_valid last_by ps = first_match transaction_is_valid (map last_by ps)"

definition at_position :: "(pool_hash \<Rightarrow> pool) \<Rightarrow> pool \<Rightarrow> u64 \<Rightarrow> transaction list \<Rightarrow> bool" where
  "at_position load cur idx rest \<longleftrightarrow>
     p_is_valid cur \<and> unat idx < length (p_transactions cur) \<and>
     (\<exists>ps. chain load (p_previous_hash cur) ps \<and> list_all counted ps \<and>
           rest = rev (take (unat idx) (p_transactions cur)) @ newest_first ps)"

definition at_first :: "(pool_hash \<Rightarrow> pool) \<Rightarrow> pool list \<Rightarrow> pool \<Rightarrow> bool" where
  "at_first load ps cur \<longleftrightarrow>
     (if newest_first ps = [] then \<not> p_is_valid cur
      else p_is_valid cur \<and> counted cur \<and> p_transactions cur \<noteq> [] \<and>
        (\<exists>qs. chain load (p_previous_hash cur) qs \<and> list_all counted qs \<and>
              newest_first ps = rev (p_transactions cur) @ newest_first qs))"

lemma at_first_empty: "p_transactions p = [] \<Longrightarrow> at_first load (p # ps) cur = at_first load ps cur"
  by (simp add: at_first_def)

definition moved ::
  "('d, 'i) database_ops \<Rightarrow> 'd storage \<Rightarrow> transaction list \<Rightarrow> (bool \<times> pool \<times> u64 \<times> 'd storage) option \<Rightarrow> bool" where
  "moved ops st rest r \<longleftrightarrow>
     (\<exists>cur idx st'. same_view ops st st' \<and>
        (case rest of [] \<Rightarrow> r = Some (False, cur, idx, st')
         | t # rest' \<Rightarrow> r = Some (True, cur, idx, st') \<and> transaction_at cur idx = t \<and>
             at_position (view ops st) cur idx rest'))"

lemma find_skip: "\<forall>x \<in> set xs. \<not> Q x \<Longrightarrow> find (\<lambda>x. Q x \<and> R x) (xs @ ys) = find (\<lambda>x. Q x \<and> R x) ys"
  by (induction xs) simp_all

lemma chain_valid: "chain load h ps \<Longrightarrow> list_all p_is_valid ps"
  by (induction rule: chain.induct) simp_all

lemma first_match_append:
  "first_match P (xs @ ys) = (if \<exists>t \<in> set xs. P t then first_match P xs else first_match P ys)"
  by (induction xs) auto

lemma first_match_in: "\<exists>t \<in> set ts. P t \<Longrightarrow> first_match P ts \<in> set ts \<and> P (first_match P ts)"
  by (induction ts) auto

lemma first_match_none: "\<not> (\<exists>t \<in> set ts. P t) \<Longrightarrow> first_match P ts = transaction_default"
  by (induction ts) auto

lemma default_not_valid [simp]: "\<not> transaction_is_valid transaction_default"
  by (simp add: transaction_is_valid_def transaction_default_def address_is_valid_def)

lemma first_valid_match:
  assumes "\<forall>p \<in> set ps. last_by p = first_match P (rev (p_transactions p))" "\<forall>t \<in> set (newest_first ps). transaction_is_valid t"
  shows "first_valid last_by ps = first_match P (newest_first ps)"
  using assms
proof (induction ps)
  case (Cons p ps)
  show ?case
  proof (cases "\<exists>t \<in> set (p_transactions p). P t")
    case True
    then have "transaction_is_valid (last_by p)"
      using Cons.prems first_match_in [of "rev (p_transactions p)" P] by simp
    then show ?thesis
      using True Cons.prems(1) by (simp add: first_valid_def first_match_append)
  next
    case False
    then show ?thesis
      using Cons first_match_none [of "rev (p_transactions p)" P] by (simp add: first_valid_def first_match_append)
  qed
qed (simp add: first_valid_def)

lemma first_valid_source:
  "list_all p_is_valid ps \<Longrightarrow> \<forall>t \<in> set (newest_first ps). transaction_is_valid t \<Longrightarrow>
    first_valid (\<lambda>p. pool_get_last_by_source p addr) ps = first_match (\<lambda>t. address_eq (tr_source t) addr) (newest_first ps)"
  by (rule first_valid_match) (simp_all add: pool_get_last_by_source_def list_all_iff)

lemma first_valid_target:
  "list_all p_is_valid ps \<Longrightarrow> \<forall>t \<in> set (newest_first ps). transaction_is_valid t \<Longrightarrow>
    first_valid (\<lambda>p. pool_get_last_by_target p addr) ps = first_match (\<lambda>t. address_eq (tr_target t) addr) (newest_first ps)"
  by (rule first_valid_match) (simp_all add: pool_get_last_by_target_def list_all_iff)

text \<open>Where the first match of a list, and of a chain, stands.\<close>

lemma first_match_split:
  "\<exists>t \<in> set ts. P t \<Longrightarrow>
    \<exists>newer t rest. ts = newer @ t # rest \<and> first_match P ts = t \<and> (\<forall>t \<in> set newer. \<not> P t)"
proof (induction ts)
  case (Cons t ts)
  show ?case
  proof (cases "P t")
    case True
    then show ?thesis by (metis append_Nil empty_iff empty_set first_match.simps(2))
  next
    case False
    with Cons obtain newer u rest where "ts = newer @ u # rest" "first_match P ts = u" "\<forall>t \<in> set newer. \<not> P t"
      by auto
    with False have "t # ts = (t # newer) @ u # rest \<and> first_match P (t # ts) = u \<and> (\<forall>t \<in> set (t # newer). \<not> P t)"
      by simp
    then show ?thesis by blast
  qed
qed simp

lemma rev_position:
  assumes "rev ts = newer @ t # rest"
  shows "length rest < length ts \<and> ts ! length rest = t \<and> rest = rev (take (length rest) ts)"
proof -
  have "ts = rev rest @ t # rev newer"
    using arg_cong [OF assms, of rev] by simp
  then show ?thesis by (simp add: nth_append)
qed

lemma chain_position:
  "chain load h ps \<Longrightarrow> list_all counted ps \<Longrightarrow> \<exists>t \<in> set (newest_first ps). P t \<Longrightarrow>
    \<exists>newer p i rest. newest_first ps = newer @ p_transactions p ! unat i # rest \<and> p \<in> set ps \<and>
      at_position load p i rest \<and> first_match P (newest_first ps) = p_transactions p ! unat i \<and>
      (\<forall>t \<in> set newer. \<not> P t)"
proof (induction load h ps rule: chain.induct)
  case (chain_pool load h ps)
  let ?ts = "rev (p_transactions (load h))"
  show ?case
  proof (cases "\<exists>t \<in> set ?ts. P t")
    case True
    then obtain newer t rest where split: "?ts = newer @ t # rest" "first_match P ?ts = t" "\<forall>t \<in> set newer. \<not> P t"
      using first_match_split [OF True] by blast
    note pos = rev_position [OF split(1)]
    have "length rest < 2 ^ 64"
      using pos chain_pool.prems(1) unsigned_less [of "p_transactionsCount (load h)", where 'a = nat]
      by (simp add: counted_def)
    then have i: "unat (of_nat (length rest) :: u64) = length rest"
      by (simp add: unat_of_nat take_bit_nat_eq_self)
    have "rev (take (length rest) (p_transactions (load h))) = rest"
      using pos by simp
    then have "at_position load (load h) (of_nat (length rest)) (rest @ newest_first ps)"
      unfolding at_position_def i using chain_pool.hyps chain_pool.prems(1) pos by auto
    moreover have "first_match P (newest_first (load h # ps)) = t"
      using True split(2) by (simp add: first_match_append)
    moreover have "newest_first (load h # ps) = newer @ t # rest @ newest_first ps"
      by (simp add: split(1))
    moreover have "t = p_transactions (load h) ! unat (of_nat (length rest) :: u64)"
      unfolding i using pos by blast
    ultimately show ?thesis
      using split(3) by (metis list.set_intros(1))
  next
    case False
    have rest: "list_all counted ps" "\<exists>t \<in> set (newest_first ps). P t"
      using chain_pool.prems False by auto
    obtain newer p i rest where pos: "newest_first ps = newer @ p_transactions p ! unat i # rest" "p \<in> set ps"
      "at_position load p i rest" "first_match P (newest_first ps) = p_transactions p ! unat i" "\<forall>t \<in> set newer. \<not> P t"
      using chain_pool.IH [OF rest] by blast
    have "newest_first (load h # ps) = (?ts @ newer) @ p_transactions p ! unat i # rest"
      "first_match P (newest_first (load h # ps)) = p_transactions p ! unat i"
      "p \<in> set (load h # ps)" "\<forall>t \<in> set (?ts @ newer). \<not> P t"
      using pos False by (auto simp: first_match_append)
    then show ?thesis
      using pos(3) by blast
  qed
qed simp

locale database_reader =
  fixes ops :: "('d, 'i) database_ops"
  assumes get_frame: "fst (do_get ops k (snd (do_get ops j d))) = fst (do_get ops k d)"
    and open_frame: "do_is_open ops (snd (do_get ops j d)) = do_is_open ops d"
begin

lemma load_frame:
  "fst (pool_load ops k (snd (pool_load ops h st))) = fst (pool_load ops k st)"
  by (simp add: pool_load_result pool_load_state get_frame open_frame split: option.split)

lemma load_same_view:
  assumes "same_view ops st0 st"
  shows "same_view ops st0 (snd (pool_load ops h st))"
    and "pool_load ops h st = (view ops st0 h, snd (pool_load ops h st))"
  using assms by (simp_all add: same_view_def load_frame pool_load_state fun_eq_iff prod_eq_iff)

lemma last_by_loop_chain:
  "chain (view ops st0) h ps \<Longrightarrow> same_view ops st0 st \<Longrightarrow>
    \<exists>st'. last_by_loop ops last_by (view ops st0 h) st = Some (first_valid last_by ps, st') \<and> same_view ops st0 st'"
proof (induction "view ops st0" h ps arbitrary: st rule: chain.induct)
  case (chain_end h)
  then show ?case
    by (subst last_by_loop.simps) (simp add: first_valid_def)
next
  case (chain_pool h ps)
  note step = load_same_view [OF chain_pool.prems, of "p_previous_hash (view ops st0 h)"]
  show ?case
    using chain_pool.hyps(1) chain_pool.prems chain_pool.hyps(3) [OF step(1)]
    by (subst last_by_loop.simps, subst step(2)) (auto simp: Let_def first_valid_def)
qed

lemma skip_empty_chain:
  "chain (view ops st0) h ps \<Longrightarrow> same_view ops st0 st \<Longrightarrow> list_all counted ps \<Longrightarrow>
    \<exists>cur st'. skip_empty ops (view ops st0 h) st = Some (cur, st') \<and> same_view ops st0 st' \<and> at_first (view ops st0) ps cur"
proof (induction "view ops st0" h ps arbitrary: st rule: chain.induct)
  case (chain_end h)
  then show ?case
    by (subst skip_empty.simps) (simp add: at_first_def)
next
  case (chain_pool h ps)
  note step = load_same_view [OF chain_pool.prems(1), of "p_previous_hash (view ops st0 h)"]
  have cnt: "transactions_count (view ops st0 h) = 0 \<longleftrightarrow> p_transactions (view ops st0 h) = []"
    using chain_pool.prems(2) by (simp add: counted_def flip: unat_eq_0)
  show ?case
  proof (cases "p_transactions (view ops st0 h) = []")
    case True
    have "skip_empty ops (view ops st0 h) st =
        skip_empty ops (view ops st0 (p_previous_hash (view ops st0 h))) (snd (pool_load ops (p_previous_hash (view ops st0 h)) st))"
      using True chain_pool.hyps(1) cnt
      by (subst skip_empty.simps, subst step(2)) (simp add: Let_def)
    then show ?thesis
      using chain_pool.hyps(3) [OF step(1)] chain_pool.prems(2) at_first_empty [OF True] by simp
  next
    case False
    then show ?thesis
      using chain_pool.hyps chain_pool.prems cnt by (subst skip_empty.simps) (auto simp: at_first_def)
  qed
qed

lemma enter_pool_moved:
  assumes "chain (view ops st0) h ps" "same_view ops st0 st" "list_all counted ps"
  shows "moved ops st0 (newest_first ps) (enter_pool ops h idx st)"
proof -
  note step = load_same_view [OF assms(2), of h]
  obtain cur st' where run: "skip_empty ops (view ops st0 h) (snd (pool_load ops h st)) = Some (cur, st')"
    "same_view ops st0 st'" "at_first (view ops st0) ps cur"
    using skip_empty_chain [OF assms(1) step(1) assms(3)] by blast
  have enter: "enter_pool ops h idx st =
      (if p_is_valid cur then Some (True, cur, transactions_count cur - 1, st') else Some (False, cur, idx, st'))"
    unfolding enter_pool_def by (subst step(2)) (simp add: run(1))
  show ?thesis
  proof (cases "newest_first ps")
    case Nil
    then show ?thesis
      using run(2,3) enter by (auto simp: at_first_def moved_def)
  next
    case (Cons t rest)
    then obtain qs where cur: "p_is_valid cur" "counted cur" "p_transactions cur \<noteq> []"
      "chain (view ops st0) (p_previous_hash cur) qs" "list_all counted qs"
      "t # rest = rev (p_transactions cur) @ newest_first qs"
      using run(3) by (auto simp: at_first_def)
    obtain ts where ts: "p_transactions cur = ts @ [t]"
      using cur(3,6) by (metis append_Cons append_butlast_last_id list.inject rev.simps(2) rev_append
          rev_is_Nil_conv rev_rev_ident neq_Nil_conv append_eq_Cons_conv)
    have idx: "unat (transactions_count cur - 1) = length ts"
      using cur(2) ts by (simp add: counted_def unat_minus_one unat_eq_0 [symmetric])
    show ?thesis
      using cur ts idx enter run(2) Cons
      by (auto simp: moved_def at_position_def transaction_at_def nth_append)
  qed
qed

lemma next_it_at:
  assumes "at_position (view ops st0) cur idx rest" "same_view ops st0 st"
  shows "moved ops st0 rest (next_it ops cur idx st)"
proof -
  obtain ps where pos: "p_is_valid cur" "unat idx < length (p_transactions cur)"
    "chain (view ops st0) (p_previous_hash cur) ps" "list_all counted ps"
    "rest = rev (take (unat idx) (p_transactions cur)) @ newest_first ps"
    using assms(1) by (auto simp: at_position_def)
  show ?thesis
  proof (cases "idx = 0")
    case True
    then show ?thesis
      using pos enter_pool_moved [OF pos(3) assms(2) pos(4)] by (simp add: next_it_def)
  next
    case False
    then obtain n where n: "unat idx = Suc n" "unat (idx - 1) = n"
      using unat_minus_one [of idx] by (metis diff_Suc_1 nat.exhaust unat_eq_0)
    have "take (Suc n) (p_transactions cur) = take n (p_transactions cur) @ [p_transactions cur ! n]"
      using pos(2) n(1) by (simp add: take_Suc_conv_app_nth)
    then show ?thesis
      using pos n assms(2) False by (auto simp: next_it_def moved_def at_position_def transaction_at_def)
  qed
qed

lemma next_it_start:
  assumes "chain (view ops st0) (s_last_hash st0) ps" "list_all counted ps" "same_view ops st0 st" "\<not> p_is_valid cur"
  shows "moved ops st0 (newest_first ps) (next_it ops cur idx st)"
  using enter_pool_moved [OF assms(1,3,2)] assms(3,4) by (simp add: next_it_def same_view_def)

lemma transactions_loop_moved:
  "moved ops st0 rest (next_it ops cur idx st) \<Longrightarrow> same_view ops st0 st \<Longrightarrow>
    \<exists>st'. transactions_loop ops addr limit res cur idx st =
        Some (res @ take (limit - length res)
          (filter (\<lambda>t. address_eq (tr_source t) addr \<or> address_eq (tr_target t) addr) rest), st') \<and>
      same_view ops st0 st'"
proof (induction rest arbitrary: res cur idx st)
  case Nil
  then show ?case
    by (subst transactions_loop.simps) (auto simp: moved_def)
next
  case (Cons t rest)
  then obtain cur' idx' st' where move: "next_it ops cur idx st = Some (True, cur', idx', st')"
    "same_view ops st0 st'" "transaction_at cur' idx' = t" "at_position (view ops st0) cur' idx' rest"
    by (auto simp: moved_def)
  note IH = Cons.IH [OF next_it_at [OF move(4,2)] move(2)]
  show ?case
  proof (cases "length res < limit")
    case True
    then obtain k where "limit - length res = Suc k" "limit - length (res @ [t]) = k"
      by (metis Suc_diff_Suc diff_Suc_eq_diff_pred length_append_singleton diff_Suc_Suc Suc_diff_Suc)
    then show ?thesis
      using True move IH [of "res @ [t]"] IH [of res]
      by (subst transactions_loop.simps) (simp add: Let_def)
  next
    case False
    then show ?thesis
      using Cons.prems(2) by (subst transactions_loop.simps) simp
  qed
qed

lemma blockchain_loop_at:
  "at_position (view ops st0) cur idx rest \<Longrightarrow> same_view ops st0 st \<Longrightarrow>
    \<exists>st'. blockchain_loop ops addr innerId cur idx st =
      Some (find (\<lambda>t. address_eq (tr_source t) addr \<and> tr_innerID t = innerId) (transaction_at cur idx # rest), st')"
proof (induction rest arbitrary: cur idx st)
  case Nil
  then show ?case
    using next_it_at [OF Nil.prems] by (subst blockchain_loop.simps) (auto simp: moved_def Let_def)
next
  case (Cons t rest)
  obtain cur' idx' st' where "next_it ops cur idx st = Some (True, cur', idx', st')"
    "same_view ops st0 st'" "transaction_at cur' idx' = t" "at_position (view ops st0) cur' idx' rest"
    using next_it_at [OF Cons.prems] by (auto simp: moved_def)
  then show ?case
    using Cons.IH [of cur' idx' st'] by (subst blockchain_loop.simps) (auto simp: Let_def)
qed

lemma get_last_by_chain:
  assumes "chain (view ops st) (s_last_hash st) ps"
  shows "\<exists>st'. get_last_by_source ops addr st = Some (first_valid (\<lambda>p. pool_get_last_by_source p addr) ps, st') \<and> same_view ops st st'"
    and "\<exists>st'. get_last_by_target ops addr st = Some (first_valid (\<lambda>p. pool_get_last_by_target p addr) ps, st') \<and> same_view ops st st'"
proof -
  note step = load_same_view [OF same_view_refl [of ops st], of "s_last_hash st"]
  show "\<exists>st'. get_last_by_source ops addr st = Some (first_valid (\<lambda>p. pool_get_last_by_source p addr) ps, st') \<and> same_view ops st st'"
    unfolding get_last_by_source_def using last_by_loop_chain [OF assms step(1)] by (simp add: case_prod_beta)
  show "\<exists>st'. get_last_by_target ops addr st = Some (first_valid (\<lambda>p. pool_get_last_by_target p addr) ps, st') \<and> same_view ops st st'"
    unfolding get_last_by_target_def using last_by_loop_chain [OF assms step(1)] by (simp add: case_prod_beta)
qed

lemma storage_transactions_start:
  assumes "chain (view ops st) (s_last_hash st) ps" "list_all counted ps" "\<not> transaction_id_is_valid offset"
  shows "\<exists>st'. storage_transactions ops addr limit offset st =
    Some (take limit (filter (\<lambda>t. address_eq (tr_source t) addr \<or> address_eq (tr_target t) addr) (newest_first ps)), st')"
proof -
  have "moved ops st (newest_first ps) (next_it ops pool_default 0 st)"
    using next_it_start [OF assms(1,2) same_view_refl] by (simp add: pool_default_def)
  from transactions_loop_moved [OF this same_view_refl, of addr limit "[]"] show ?thesis
    using assms(3) by (auto simp: storage_transactions_def)
qed

lemma storage_transactions_offset:
  assumes "transaction_id_is_valid offset" "at_position (view ops st) (view ops st (id_pool_hash offset)) (id_index offset) rest"
    and "counted (view ops st (id_pool_hash offset))"
  shows "\<exists>st'. storage_transactions ops addr limit offset st =
    Some (take limit (filter (\<lambda>t. address_eq (tr_source t) addr \<or> address_eq (tr_target t) addr) rest), st')"
proof -
  note step = load_same_view [OF same_view_refl [of ops st], of "id_pool_hash offset"]
  have "seek_it ops offset st = ((True, view ops st (id_pool_hash offset), id_index offset), snd (pool_load ops (id_pool_hash offset) st))"
    using assms by (simp add: seek_it_def case_prod_beta at_position_def counted_def word_less_nat_alt)
  with transactions_loop_moved [OF next_it_at [OF assms(2) step(1)] step(1), of addr limit "[]"] show ?thesis
    using assms(1) by (auto simp: storage_transactions_def)
qed

lemma get_from_blockchain_chain:
  assumes ch: "chain (view ops st) (s_last_hash st) ps" and counted: "list_all counted ps"
    and valid: "\<forall>t \<in> set (newest_first ps). transaction_is_valid t"
    and keys: "\<forall>p \<in> set ps. view ops st (p_hash p) = p \<and> pool_sealed p"
  shows "\<exists>st'. get_from_blockchain ops addr innerId st =
    Some (find (\<lambda>t. address_eq (tr_source t) addr \<and> tr_innerID t = innerId) (newest_first ps), st')"
proof -
  let ?last = "first_match (\<lambda>t. address_eq (tr_source t) addr) (newest_first ps)"
  obtain st' where last: "get_last_by_source ops addr st = Some (?last, st')" "same_view ops st st'"
    using get_last_by_chain(1) [OF ch] first_valid_source [OF chain_valid [OF ch] valid] by metis
  note step = load_same_view [OF last(2), of "id_pool_hash (tr_id ?last)"]
  show ?thesis
  proof (cases "\<exists>t \<in> set (newest_first ps). address_eq (tr_source t) addr")
    case True
    then obtain newer p i rest where pos: "newest_first ps = newer @ p_transactions p ! unat i # rest" "p \<in> set ps"
      "at_position (view ops st) p i rest" "?last = p_transactions p ! unat i" "\<forall>t \<in> set newer. \<not> address_eq (tr_source t) addr"
      using chain_position [OF ch counted True] by blast
    have bound: "unat i < length (p_transactions p)" "p_is_valid p"
      using pos(3) by (simp_all add: at_position_def)
    have id: "tr_id ?last = \<lparr>id_pool_hash = p_hash p, id_index = i\<rparr>" "transaction_id_is_valid (tr_id ?last)"
      using keys pos(2,4) bound by (auto simp: pool_sealed_def transaction_id_is_valid_def)
    have "counted p"
      using counted pos(2) by (simp add: list_all_iff)
    then have lt: "i < transactions_count p"
      using bound(1) by (simp add: counted_def word_less_nat_alt)
    then have "i \<noteq> - 1"
      using word_order.extremum_strict [of "transactions_count p"] by auto
    moreover obtain st'' where "pool_load ops (p_hash p) st' = (p, st'')" "same_view ops st st''"
      using step id(1) keys pos(2) by (simp add: prod_eq_iff)
    ultimately have "get_from_blockchain ops addr innerId st = blockchain_loop ops addr innerId p i st''"
      using last(1) id lt bound(2) by (simp add: get_from_blockchain_def Let_def)
    then show ?thesis
      using blockchain_loop_at [OF pos(3) \<open>same_view ops st st''\<close>] pos(5) bound(1)
      by (simp add: pos(1) transaction_at_def find_skip)
  next
    case False
    then have "?last = transaction_default" "find (\<lambda>t. address_eq (tr_source t) addr \<and> tr_innerID t = innerId) (newest_first ps) = None"
      by (auto simp: first_match_spec find_None_iff filter_empty_conv split: list.split)
    then show ?thesis
      using last(1) by (simp add: get_from_blockchain_def transaction_default_def transaction_id_default_def
          transaction_id_is_valid_def pool_hash_is_empty_def)
  qed
qed

end

interpretation berkeley: database_reader "berkeley_ops api" for api
  by unfold_locales
    (simp_all add: berkeley_ops_def berkeley_get_def berkeley_is_open_def Let_def split: option.split prod.split)

lemma chain_sealed: "chain (view ops st) h ps \<Longrightarrow> list_all pool_sealed ps"
proof (induction "view ops st" h ps rule: chain.induct)
  case (chain_pool h ps)
  then obtain data where "view ops st h = pool_from_binary data"
    by (auto simp: pool_load_result pool_default_def split: option.splits if_splits)
  then show ?case
    using chain_pool pool_from_binary_sealed [of data] by simp
qed simp

subsection \<open>The walks over Berkeley DB\<close>

text \<open>C21: on a storage whose previous hashes form a finite chain, the list of the transactions of an
  address is returned: the newest \<open>limit\<close> transactions of the whole chain that have the address as
  source or target, from the newest to the oldest; from a given transaction on, those older than it.\<close>

theorem storage_transactions_spec:
  assumes "chain (view (berkeley_ops api) st) (s_last_hash st) ps" "\<forall>p \<in> set ps. length (p_transactions p) < 2 ^ 32"
    and "\<not> transaction_id_is_valid none"
    and "transaction_id_is_valid offset" "p = view (berkeley_ops api) st (id_pool_hash offset)" "p_is_valid p"
      "unat (id_index offset) < length (p_transactions p)" "length (p_transactions p) < 2 ^ 32"
      "chain (view (berkeley_ops api) st) (p_previous_hash p) qs" "\<forall>p \<in> set qs. length (p_transactions p) < 2 ^ 32"
  shows "(\<exists>st'. storage_transactions (berkeley_ops api) addr limit none st =
      Some (take limit (filter (\<lambda>t. address_eq (tr_source t) addr \<or> address_eq (tr_target t) addr) (newest_first ps)), st')) \<and>
    (\<exists>st'. storage_transactions (berkeley_ops api) addr limit offset st =
      Some (take limit (filter (\<lambda>t. address_eq (tr_source t) addr \<or> address_eq (tr_target t) addr)
        (rev (take (unat (id_index offset)) (p_transactions p)) @ newest_first qs)), st'))"
proof -
  have "counted p" "at_position (view (berkeley_ops api) st) p (id_index offset)
      (rev (take (unat (id_index offset)) (p_transactions p)) @ newest_first qs)"
    using assms(5-9) chain_counted [OF assms(9,10)] by (auto simp: at_position_def intro: pool_load_counted)
  then show ?thesis
    using berkeley.storage_transactions_start [OF assms(1) chain_counted [OF assms(1,2)] assms(3)]
      berkeley.storage_transactions_offset [OF assms(4)] assms(5) by blast
qed

text \<open>C22: on a finite chain of valid transactions the searches return: the last transaction of a source
  and of a target is the newest one of the chain, and the search by address and inner identifier
  finds the newest transaction with both, where every pool is stored under its hash.\<close>

theorem storage_search_spec:
  assumes "chain (view (berkeley_ops api) st) (s_last_hash st) ps" "\<forall>p \<in> set ps. length (p_transactions p) < 2 ^ 32"
    and "\<forall>t \<in> set (newest_first ps). transaction_is_valid t"
    and "\<forall>p \<in> set ps. view (berkeley_ops api) st (p_hash p) = p"
  shows "(\<exists>st'. get_last_by_source (berkeley_ops api) addr st =
      Some (first_match (\<lambda>t. address_eq (tr_source t) addr) (newest_first ps), st')) \<and>
    (\<exists>st'. get_last_by_target (berkeley_ops api) addr st =
      Some (first_match (\<lambda>t. address_eq (tr_target t) addr) (newest_first ps), st')) \<and>
    (\<exists>st'. get_from_blockchain (berkeley_ops api) addr innerId st =
      Some (find (\<lambda>t. address_eq (tr_source t) addr \<and> tr_innerID t = innerId) (newest_first ps), st'))"
proof -
  note valid = chain_valid [OF assms(1)]
  have "\<forall>p \<in> set ps. view (berkeley_ops api) st (p_hash p) = p \<and> pool_sealed p"
    using assms(4) chain_sealed [OF assms(1)] by (simp add: list_all_iff)
  then show ?thesis
    using berkeley.get_last_by_chain [OF assms(1), of addr] first_valid_source [OF valid assms(3), of addr]
      first_valid_target [OF valid assms(3), of addr]
      berkeley.get_from_blockchain_chain [OF assms(1) chain_counted [OF assms(1,2)] assms(3)]
    by auto
qed

text \<open>A storage with one pool, under its hash.\<close>

definition sample_pool :: pool where
  "sample_pool = (pool_new (PoolHash []) 0 None)\<lparr>p_transactions :=
     [transaction_new 1 (Address (replicate 32 1)) (Address (replicate 32 2)) (Currency ''CS'')
        (amount_of_int 3) (amount_of_int 1) (amount_of_int 0) [],
      transaction_new 2 (Address (replicate 32 1)) (Address (replicate 32 3)) (Currency ''CS'')
        (amount_of_int 4) (amount_of_int 1) (amount_of_int 0) []]\<rparr>"

definition sample_storage :: "(u32 \<rightharpoonup> byte_array, byte_array \<rightharpoonup> u32) berkeley storage" where
  "sample_storage = storage_default
     \<lparr>s_db := Some \<lparr>db_blocks = Some [1 \<mapsto> put_pool sample_pool],
        db_seq_no = Some [hash_value (calc_from_data (put_pool sample_pool)) \<mapsto> 1], db_last_error = DbNoError\<rparr>,
      s_last_hash := calc_from_data (put_pool sample_pool)\<rparr>"

abbreviation sample_sealed :: pool where
  "sample_sealed \<equiv> pool_from_binary (put_pool sample_pool)"

lemma sample_sealed_eq: "sample_sealed = update_transactions ((pool_body sample_pool)\<lparr>p_binary := put_pool sample_pool\<rparr>)"
proof -
  have "pool_ok sample_pool"
    by (simp add: sample_pool_def pool_new_def pool_default_def pool_ok_def map_ok_def transaction_ok_def
        transaction_new_def transaction_priv_def)
  then show ?thesis
    using get_put_pool [of sample_pool "[]"] by (simp add: pool_from_binary_def)
qed

lemma sample_sealed_fields:
  "p_is_valid sample_sealed" "p_previous_hash sample_sealed = PoolHash []" "length (p_transactions sample_sealed) = 2"
  "p_hash sample_sealed = calc_from_data (put_pool sample_pool)"
  "list_all transaction_is_valid (p_transactions sample_sealed)"
  "map tr_innerID (p_transactions sample_sealed) = [1, 2]"
  "list_all (\<lambda>t. address_eq (tr_source t) (Address (replicate 32 1))) (p_transactions sample_sealed)"
  unfolding sample_sealed_eq
  by (simp_all add: pool_body_def sample_pool_def pool_new_def pool_default_def update_transactions_def Let_def
      transaction_update_id_def transaction_copy_def transaction_new_def transaction_priv_def transaction_is_valid_def
      address_is_valid_def currency_is_valid_def address_eq_def amount_ge_def amount_lt_def amount_of_int_def
      upt_rec numeral_2_eq_2 word_sless_alt)

lemma sample_view:
  "view (berkeley_ops map_api) sample_storage (calc_from_data (put_pool sample_pool)) = sample_sealed"
  "view (berkeley_ops map_api) sample_storage (PoolHash []) = pool_default"
  by (simp_all add: pool_load_result sample_storage_def storage_default_def berkeley_ops_def berkeley_is_open_def
      berkeley_get_def map_api_def pool_hash_is_empty_def [of "PoolHash []"])

lemma sample_chain: "chain (view (berkeley_ops map_api) sample_storage) (s_last_hash sample_storage) [sample_sealed]"
proof -
  let ?load = "view (berkeley_ops map_api) sample_storage"
  have "chain ?load (PoolHash []) []"
    by (rule chain_end) (simp add: sample_view(2) pool_default_def)
  then have "chain ?load (calc_from_data (put_pool sample_pool)) [?load (calc_from_data (put_pool sample_pool))]"
    by (intro chain_pool) (simp_all add: sample_view(1) sample_sealed_fields)
  then show ?thesis
    by (simp add: sample_view(1)) (simp add: sample_storage_def)
qed

theorem storage_transactions_spec_witness:
  "\<exists>st'. storage_transactions (berkeley_ops map_api) (Address (replicate 32 1)) 1
      \<lparr>id_pool_hash = calc_from_data (put_pool sample_pool), id_index = 1\<rparr> sample_storage =
    Some ([p_transactions sample_sealed ! 0], st')"
proof -
  let ?load = "view (berkeley_ops map_api) sample_storage" and ?h = "calc_from_data (put_pool sample_pool)"
  let ?P = "\<lambda>t. address_eq (tr_source t) (Address (replicate 32 1)) \<or> address_eq (tr_target t) (Address (replicate 32 1))"
  obtain t u where ts: "p_transactions sample_sealed = [t, u]"
    using sample_sealed_fields(3) by (auto simp: numeral_2_eq_2 length_Suc_conv)
  have "chain ?load (p_previous_hash sample_sealed) []"
    by (rule chain_end) (simp add: sample_sealed_fields(2) sample_view(2) pool_default_def)
  moreover have "\<not> transaction_id_is_valid transaction_id_default"
    by (simp add: transaction_id_default_def transaction_id_is_valid_def pool_hash_is_empty_def)
  moreover have "transaction_id_is_valid \<lparr>id_pool_hash = ?h, id_index = 1\<rparr>"
    "sample_sealed = ?load (id_pool_hash \<lparr>id_pool_hash = ?h, id_index = 1\<rparr>)"
    by (simp_all add: transaction_id_is_valid_def sample_view)
  moreover have "unat (id_index \<lparr>id_pool_hash = ?h, id_index = 1\<rparr>) < length (p_transactions sample_sealed)"
    "length (p_transactions sample_sealed) < 2 ^ 32"
    by (simp_all add: ts)
  ultimately have "\<exists>st'. storage_transactions (berkeley_ops map_api) (Address (replicate 32 1)) 1
      \<lparr>id_pool_hash = ?h, id_index = 1\<rparr> sample_storage =
    Some (take 1 (filter ?P (rev (take (unat (id_index \<lparr>id_pool_hash = ?h, id_index = 1\<rparr>)) (p_transactions sample_sealed)) @ newest_first [])), st')"
    by (intro conjunct2 [OF storage_transactions_spec [OF sample_chain _ _ _ _ sample_sealed_fields(1)]]) simp_all
  then show ?thesis
    using sample_sealed_fields(7) unfolding ts by simp
qed

theorem storage_search_spec_witness:
  "\<exists>st'. get_from_blockchain (berkeley_ops map_api) (Address (replicate 32 1)) 1 sample_storage =
    Some (Some (p_transactions sample_sealed ! 0), st')"
proof -
  let ?P = "\<lambda>t. address_eq (tr_source t) (Address (replicate 32 1)) \<and> tr_innerID t = 1"
  obtain t u where ts: "p_transactions sample_sealed = [t, u]"
    using sample_sealed_fields(3) by (auto simp: numeral_2_eq_2 length_Suc_conv)
  have "\<exists>st'. get_from_blockchain (berkeley_ops map_api) (Address (replicate 32 1)) 1 sample_storage =
      Some (find ?P (newest_first [sample_sealed]), st')"
    using storage_search_spec [OF sample_chain, of "Address (replicate 32 1)" 1] sample_sealed_fields
    by (simp add: sample_view list_all_iff)
  then show ?thesis
    using sample_sealed_fields(6,7) by (simp add: ts)
qed

end
