(* ===== verification/StorageWrite.thy ===== *)
theory StorageWrite
  imports Storage
begin

text \<open>
  How pools get into the storage and how an opened database is scanned: \<open>Storage::pool_save\<close>, the writer
  thread, \<open>rescan\<close> and \<open>open\<close> of \<open>csdb/src/storage.cpp\<close>, and \<open>Pool::save\<close> and \<open>Pool::load\<close> of
  \<open>csdb/src/pool.cpp\<close>, which choose among several storages.  The writer holds its lock while it
  empties the queue, so one round of it is one step.  The result is \<open>None\<close> where the code would
  use a null pointer, index a vector out of its range or start its thread twice.
\<close>

subsection \<open>Saving\<close>

definition storage_pool_save :: "('d, 'i) database_ops \<Rightarrow> pool \<Rightarrow> 'd storage \<Rightarrow> bool \<times> 'd storage" where
  "storage_pool_save ops p st =
     (if \<not> isOpen ops st then (False, st\<lparr>s_last_error := StNotOpen\<rparr>)
      else if \<not> p_is_valid p then (False, st\<lparr>s_last_error := StInvalidParameter\<rparr>)
      else (let (hash, p) = pool_hash_of p;
                (present, d) = do_exists ops (hash_value hash) (the (s_db st));
                st = st\<lparr>s_db := Some d\<rparr>
            in if present then (False, st\<lparr>s_last_error := StInvalidParameter\<rparr>)
               else (True, st\<lparr>s_write_queue := s_write_queue st @ [p], s_last_error := StNoError\<rparr>)))"

definition write_pool :: "('d, 'i) database_ops \<Rightarrow> pool \<Rightarrow> 'd storage \<Rightarrow> 'd storage option" where
  "write_pool ops p st =
     (let p = (if \<not> p_read_only p then snd (pool_compose p) else p); (hash, p) = pool_hash_of p
      in case s_db st of None \<Rightarrow> None
         | Some d \<Rightarrow>
           (let (_, d) = do_put ops (hash_value hash) (ucast (p_sequence p)) (p_binary p) d
            in Some (st\<lparr>s_db := Some d, s_count_pool := s_count_pool st + 1,
                 s_last_hash := (if pool_hash_eq (s_last_hash st) (p_previous_hash p) then hash else s_last_hash st)\<rparr>)))"

primrec write_pools :: "('d, 'i) database_ops \<Rightarrow> pool list \<Rightarrow> 'd storage \<Rightarrow> 'd storage option" where
  "write_pools ops [] st = Some (st\<lparr>s_write_queue := []\<rparr>)"
| "write_pools ops (p # ps) st =
     Option.bind (write_pool ops p st) (\<lambda>st. write_pools ops ps (st\<lparr>s_write_queue := ps\<rparr>))"

definition write_routine :: "('d, 'i) database_ops \<Rightarrow> 'd storage \<Rightarrow> 'd storage option" where
  "write_routine ops st = write_pools ops (s_write_queue st) st"

subsection \<open>Scanning\<close>

definition vector_resize :: "'a \<Rightarrow> nat \<Rightarrow> 'a list \<Rightarrow> 'a list" where
  "vector_resize x n xs = take n xs @ replicate (n - length xs) x"

record scan =
  sc_lastSeq :: u32
  sc_als :: "(pool_hash \<times> pool_hash) list"
  sc_poolsProcessed :: u64

text \<open>One value of the iterator: an error and the end of the scan, or the scan with the pool entered.
  \<open>callback\<close> answers whether the user cancels.\<close>

definition rescan_value ::
  "(u64 \<Rightarrow> bool) option \<Rightarrow> byte_array \<Rightarrow> scan \<Rightarrow> 'd storage \<Rightarrow> ((storage_error + scan) \<times> 'd storage) option" where
  "rescan_value callback v sc st =
     (let real_hash = calc_from_data v; p = pool_from_binary v
      in if \<not> p_is_valid p then Some (Inl StDataIntegrityError, st)
         else if \<not> pool_hash_eq (fst (pool_hash_of p)) real_hash then Some (Inl StDataIntegrityError, st)
         else
           (let st = st\<lparr>s_count_pool := s_count_pool st + 1\<rparr>;
                sc = sc\<lparr>sc_poolsProcessed := sc_poolsProcessed sc + 1\<rparr>
            in if (case callback of None \<Rightarrow> False | Some f \<Rightarrow> f (sc_poolsProcessed sc)) then Some (Inl StUserCancelled, st)
               else
                 (let sc = (if ucast (sc_lastSeq sc) \<le> p_sequence p
                            then sc\<lparr>sc_lastSeq := ucast (p_sequence p),
                                    sc_als := vector_resize (PoolHash [], PoolHash [])
                                      (unat (ucast (p_sequence p) + 1 :: u32)) (sc_als sc)\<rparr>
                            else sc)
                  in if unat (p_sequence p) < length (sc_als sc)
                     then Some (Inr (sc\<lparr>sc_als := (sc_als sc)[unat (p_sequence p) := (real_hash, p_previous_hash p)]\<rparr>), st)
                     else None)))"

partial_function (option) rescan_loop ::
  "('d, 'i) database_ops \<Rightarrow> (u64 \<Rightarrow> bool) option \<Rightarrow> 'i \<Rightarrow> scan \<Rightarrow> 'd storage \<Rightarrow>
   ((storage_error + scan) \<times> 'd storage) option" where
  "rescan_loop ops callback it sc st =
     (if it_is_valid ops it
      then Option.bind (rescan_value callback (it_value ops it) sc st) (\<lambda>(r, st).
        case r of Inl e \<Rightarrow> Some (Inl e, st) | Inr sc \<Rightarrow> rescan_loop ops callback (it_next ops it) sc st)
      else Some (Inr sc, st))"

text \<open>The last pool that is linked to the first one.\<close>

primrec linked_tip :: "pool_hash \<Rightarrow> (pool_hash \<times> pool_hash) list \<Rightarrow> pool_hash" where
  "linked_tip tip [] = tip"
| "linked_tip tip (a # als) = (if \<not> pool_hash_eq (snd a) tip then tip else linked_tip (fst a) als)"

definition rescan ::
  "('d, 'i) database_ops \<Rightarrow> (u64 \<Rightarrow> bool) option \<Rightarrow> 'd storage \<Rightarrow> (bool \<times> 'd storage) option" where
  "rescan ops callback st =
     (let st = st\<lparr>s_last_hash := PoolHash [], s_count_pool := 0\<rparr>;
          (it, d) = do_new_iterator ops (the (s_db st)); st = st\<lparr>s_db := Some d\<rparr>
      in case it of None \<Rightarrow> None
         | Some it \<Rightarrow>
           Option.bind (rescan_loop ops callback (it_seek_to_first ops it)
               \<lparr>sc_lastSeq = 0, sc_als = [], sc_poolsProcessed = 0\<rparr> st) (\<lambda>(r, st).
             case r of Inl e \<Rightarrow> Some (False, st\<lparr>s_last_error := e\<rparr>)
             | Inr sc \<Rightarrow>
               (case sc_als sc of [] \<Rightarrow> Some (True, st)
                | a # als \<Rightarrow> Some (True, st\<lparr>s_last_hash := linked_tip (fst a) als\<rparr>))))"

definition storage_open ::
  "('d, 'i) database_ops \<Rightarrow> (u64 \<Rightarrow> bool) option \<Rightarrow> 'd option \<Rightarrow> 'd storage \<Rightarrow> (bool \<times> 'd storage) option" where
  "storage_open ops callback db st =
     (case db of None \<Rightarrow> Some (False, st\<lparr>s_last_error := StDatabaseError\<rparr>)
      | Some d \<Rightarrow>
        (let st = st\<lparr>s_db := Some d\<rparr>
         in if \<not> do_is_open ops d then Some (False, st\<lparr>s_last_error := StDatabaseError\<rparr>)
            else Option.bind (rescan ops callback st) (\<lambda>(ok, st).
              if \<not> ok then Some (False, st\<lparr>s_db := None\<rparr>) else Some (True, st\<lparr>s_last_error := StNoError\<rparr>))))"

text \<open>\<open>app_data_path\<close> comes from the operating system.  A thread object that runs cannot be assigned.\<close>

definition storage_open_path ::
  "('r, 'h, 'c) bdb_api \<Rightarrow> (string \<Rightarrow> bool) \<Rightarrow> string \<Rightarrow> string \<Rightarrow> (u64 \<Rightarrow> bool) option \<Rightarrow>
   ('r, 'h) berkeley storage \<Rightarrow> (bool \<times> ('r, 'h) berkeley storage) option" where
  "storage_open_path api direc_ok app_data_path path_to_base callback st =
     (let path = (if path_to_base = [] then app_data_path @ ''/CREDITS'' else path_to_base);
          (_, db) = berkeley_open api direc_ok path berkeley_new
      in if s_write_thread st then None
         else storage_open (berkeley_ops api) callback (Some db) (st\<lparr>s_write_thread := True\<rparr>))"

subsection \<open>Pools and their storages\<close>

text \<open>Storages by number; \<open>None\<close> is the closed storage that a default argument \<open>Storage()\<close> or an expired
  weak pointer makes.\<close>

type_synonym 'd storages = "nat \<Rightarrow> 'd storage option"

definition storage_at :: "'d storages \<Rightarrow> nat option \<Rightarrow> 'd storage" where
  "storage_at w i = (case Option.bind i w of None \<Rightarrow> storage_default | Some st \<Rightarrow> st)"

definition get_storage :: "('d, 'i) database_ops \<Rightarrow> nat option \<Rightarrow> 'd storages \<Rightarrow> nat option \<Rightarrow> pool \<Rightarrow> nat option" where
  "get_storage ops defaultStorage w candidate p =
     (if isOpen ops (storage_at w candidate) then candidate
      else if isOpen ops (storage_at w (p_storage p)) then p_storage p
      else defaultStorage)"

definition pool_save ::
  "('d, 'i) database_ops \<Rightarrow> nat option \<Rightarrow> nat option \<Rightarrow> pool \<Rightarrow> 'd storages \<Rightarrow> bool \<times> pool \<times> 'd storages" where
  "pool_save ops defaultStorage candidate p w =
     (if \<not> p_is_valid p then (False, p, w)
      else (let s = get_storage ops defaultStorage w candidate p
            in if \<not> isOpen ops (storage_at w s) then (False, p, w)
               else (let p = (if pool_hash_is_empty (p_hash p) then p\<lparr>p_hash := calc_from_data (p_binary p)\<rparr> else p);
                         (ok, st) = storage_pool_save ops p (storage_at w s); w = w(the s \<mapsto> st)
                     in if ok then (True, p\<lparr>p_storage := s\<rparr>, w) else (False, p, w))))"

definition pool_load_from ::
  "('d, 'i) database_ops \<Rightarrow> nat option \<Rightarrow> pool_hash \<Rightarrow> nat option \<Rightarrow> 'd storages \<Rightarrow> pool \<times> 'd storages" where
  "pool_load_from ops defaultStorage hash candidate w =
     (let s = (if isOpen ops (storage_at w candidate) then candidate else defaultStorage);
          (res, st) = pool_load ops hash (storage_at w s);
          w = (case s of None \<Rightarrow> w | Some i \<Rightarrow> w(i \<mapsto> st))
      in if p_is_valid res then (set_storage s res, w) else (res, w))"

lemma storage_default_closed [simp]: "\<not> isOpen ops storage_default"
  by (simp add: isOpen_def storage_default_def)

lemma storage_at_simps [simp]:
  "storage_at w None = storage_default" "w i = Some st \<Longrightarrow> storage_at w (Some i) = st"
  by (simp_all add: storage_at_def)

subsection \<open>Saving and loading\<close>

lemma compose_ignores_hash:
  "p_is_valid p \<Longrightarrow> \<not> p_read_only p \<Longrightarrow> snd (pool_compose (p\<lparr>p_hash := h\<rparr>)) = snd (pool_compose p)"
  by (simp add: pool_compose_def priv_compose_def update_transactions_def put_pool_def Let_def)

lemma compose_hash_of:
  assumes "p_is_valid p" "\<not> p_read_only p"
  shows "pool_hash_of (snd (pool_compose p)) = (calc_from_data (put_pool p), snd (pool_compose p))"
  using pool_compose_sealed [OF assms] by (simp add: pool_hash_of_def pool_sealed_def Let_def)

lemma compose_frame [simp]:
  "p_previous_hash (snd (pool_compose p)) = p_previous_hash p" "p_sequence (snd (pool_compose p)) = p_sequence p"
  by (simp_all add: pool_compose_def priv_compose_def)

text \<open>What the writer does with a pool that was saved unsealed.\<close>

lemma write_saved:
  assumes "s_db st = Some d" "s_write_queue st = []" "p_is_valid p" "\<not> p_read_only p"
    and "storage_pool_save (berkeley_ops api) p st = (True, st1)"
  defines "h \<equiv> calc_from_data (put_pool p)"
  shows "write_routine (berkeley_ops api) st1 =
    Some (st1\<lparr>s_db := Some (snd (berkeley_put api (hash_value h) (ucast (p_sequence p)) (put_pool p) d)),
      s_write_queue := [], s_count_pool := s_count_pool st + 1,
      s_last_hash := (if pool_hash_eq (s_last_hash st) (p_previous_hash p) then h else s_last_hash st)\<rparr>)"
proof -
  obtain q where q: "q = p \<or> (\<exists>g. q = p\<lparr>p_hash := g\<rparr>)"
    and st1: "st1 = st\<lparr>s_db := Some d, s_write_queue := [q], s_last_error := StNoError\<rparr>"
    using assms(1-3,5) by (auto simp: storage_pool_save_def pool_hash_of_def Let_def berkeley_ops_def berkeley_exists_def
        isOpen_def berkeley_is_open_def split: if_splits)
  have "snd (pool_compose q) = snd (pool_compose p)" "\<not> p_read_only q"
    using q compose_ignores_hash [OF assms(3,4)] assms(4) by auto
  then show ?thesis
    using assms(1) pool_compose_sealed [OF assms(3,4)] compose_hash_of [OF assms(3,4)]
    by (simp add: write_routine_def st1 write_pool_def Let_def berkeley_ops_def h_def case_prod_beta)
qed

text \<open>C2: a valid pool that \<open>pool_save\<close> accepts is written by the next round of the writer; if the database
  takes it, it is loaded under the hash of its bytes as the composed pool, the number of pools
  grows by one and the last hash moves to it when it continues the chain.\<close>

theorem save_write_load:
  assumes "bdb_laws api" "s_db st = Some d" "db_seq_no d = Some seqs" "s_write_queue st = []"
    and "p_is_valid p" "\<not> p_read_only p" "pool_ok p"
    and "storage_pool_save (berkeley_ops api) p st = (True, st1)"
    and "fst (berkeley_put api (hash_value (calc_from_data (put_pool p))) (ucast (p_sequence p)) (put_pool p) d)"
  shows "\<exists>st2. write_routine (berkeley_ops api) st1 = Some st2 \<and> s_write_queue st2 = [] \<and>
    s_count_pool st2 = s_count_pool st + 1 \<and>
    (s_last_hash st = p_previous_hash p \<longrightarrow> s_last_hash st2 = calc_from_data (put_pool p)) \<and>
    fst (pool_load (berkeley_ops api) (calc_from_data (put_pool p)) st2) =
      (snd (pool_compose p))\<lparr>p_storage := None, p_transactionsCount := of_nat (length (p_transactions p))\<rparr>"
proof -
  let ?h = "calc_from_data (put_pool p)"
  let ?d = "snd (berkeley_put api (hash_value ?h) (ucast (p_sequence p)) (put_pool p) d)"
  have "berkeley_put api (hash_value ?h) (ucast (p_sequence p)) (put_pool p) d = (True, ?d)"
    using assms(9) by (simp add: prod_eq_iff)
  note stored = berkeley_put_lookup [OF assms(1) this assms(3)]
  have load: "view (berkeley_ops api) (st1\<lparr>s_db := Some ?d, s_write_queue := [], s_count_pool := c, s_last_hash := l\<rparr>) ?h =
      pool_from_binary (put_pool p)" for c l
    using stored by (simp add: pool_load_result berkeley_ops_def berkeley_lookup_def)
  have "pool_from_binary (put_pool p) =
      (snd (pool_compose p))\<lparr>p_storage := None, p_transactionsCount := of_nat (length (p_transactions p))\<rparr>"
    using from_binary_compose [OF assms(7,5,6)] pool_compose_sealed [OF assms(5,6)] by metis
  then show ?thesis
    unfolding write_saved [OF assms(2,4,5,6,8)] by (simp add: load pool_hash_eq_def)
qed

text \<open>When the database refuses the block, the writer still counts the pool and moves the last hash to
  it: the chain that starts at the last hash is then empty, so no transaction is found any more.\<close>

theorem write_failure_loses_chain:
  assumes "s_db st = Some d" "db_blocks d = Some r" "db_seq_no d = Some seqs" "s_write_queue st = []"
    and "p_is_valid p" "\<not> p_read_only p" "s_last_hash st = p_previous_hash p"
    and "storage_pool_save (berkeley_ops api) p st = (True, st1)"
    and "fst (rec_put api r (ucast (p_sequence p) + 1) (put_pool p)) \<noteq> 0"
    and "fst (hash_get api seqs (hash_value (calc_from_data (put_pool p)))) \<noteq> 0"
  shows "\<exists>st2. write_routine (berkeley_ops api) st1 = Some st2 \<and>
    s_count_pool st2 = s_count_pool st + 1 \<and> s_last_hash st2 = calc_from_data (put_pool p) \<and>
    chain (view (berkeley_ops api) st2) (s_last_hash st2) []"
proof -
  let ?h = "calc_from_data (put_pool p)"
  let ?d = "snd (berkeley_put api (hash_value ?h) (ucast (p_sequence p)) (put_pool p) d)"
  have "berkeley_lookup api ?d (hash_value ?h) = None"
    using assms(2,3,9,10) by (auto simp: berkeley_lookup_def berkeley_put_def berkeley_get_def Let_def split: prod.splits)
  then have "\<not> p_is_valid (view (berkeley_ops api) (st1\<lparr>s_db := Some ?d, s_write_queue := [], s_count_pool := c, s_last_hash := l\<rparr>) ?h)" for c l
    by (simp add: pool_load_result berkeley_ops_def berkeley_lookup_def pool_default_def)
  then show ?thesis
    unfolding write_saved [OF assms(1,4,5,6,8)] using assms(7) by (simp add: pool_hash_eq_def chain_end)
qed

text \<open>A storage on an empty database, and a database on a full disk.\<close>

definition empty_storage :: "(u32 \<rightharpoonup> byte_array, byte_array \<rightharpoonup> u32) berkeley storage" where
  "empty_storage = storage_default
     \<lparr>s_db := Some \<lparr>db_blocks = Some Map.empty, db_seq_no = Some Map.empty, db_last_error = DbNoError\<rparr>\<rparr>"

definition full_api :: "(u32 \<rightharpoonup> byte_array, byte_array \<rightharpoonup> u32, byte_array list) bdb_api" where
  "full_api = map_api\<lparr>rec_put := (\<lambda>r n v. (28, r))\<rparr>"

lemma empty_storage_save:
  assumes "api = map_api \<or> api = full_api" "p_is_valid p"
  shows "storage_pool_save (berkeley_ops api) p empty_storage =
    (True, empty_storage\<lparr>s_write_queue := [snd (pool_hash_of p)], s_last_error := StNoError\<rparr>)"
  using assms by (auto simp: storage_pool_save_def empty_storage_def storage_default_def berkeley_ops_def isOpen_def
      berkeley_is_open_def berkeley_exists_def map_api_def full_api_def Let_def case_prod_beta)

theorem save_write_load_witness:
  "\<exists>st2. write_routine (berkeley_ops map_api)
      (snd (storage_pool_save (berkeley_ops map_api) (pool_new (PoolHash []) 0 None) empty_storage)) = Some st2 \<and>
    s_count_pool st2 = 1 \<and> s_last_hash st2 = calc_from_data (put_pool (pool_new (PoolHash []) 0 None))"
proof -
  let ?p = "pool_new (PoolHash []) 0 None"
  let ?d = "\<lparr>db_blocks = Some Map.empty, db_seq_no = Some Map.empty, db_last_error = DbNoError\<rparr>
    :: (u32 \<rightharpoonup> byte_array, byte_array \<rightharpoonup> u32) berkeley"
  have p: "p_is_valid ?p" "\<not> p_read_only ?p" "pool_ok ?p" "p_previous_hash ?p = PoolHash []"
    by (simp_all add: pool_new_def pool_default_def pool_ok_def map_ok_def)
  have st: "s_db empty_storage = Some ?d" "s_write_queue empty_storage = []" "s_count_pool empty_storage = 0"
    "s_last_hash empty_storage = PoolHash []"
    by (simp_all add: empty_storage_def storage_default_def)
  have put: "fst (berkeley_put map_api (hash_value (calc_from_data (put_pool ?p))) (ucast (p_sequence ?p)) (put_pool ?p) ?d)"
    by (simp add: berkeley_put_def map_api_def)
  show ?thesis
    using save_write_load [OF map_api_laws st(1) _ st(2) p(1-3) empty_storage_save put]
    by (auto simp: empty_storage_save p st)
qed

theorem write_failure_loses_chain_witness:
  "\<exists>st2. write_routine (berkeley_ops full_api)
      (snd (storage_pool_save (berkeley_ops full_api) (pool_new (PoolHash []) 0 None) empty_storage)) = Some st2 \<and>
    s_count_pool st2 = 1 \<and> \<not> p_is_valid (fst (pool_load (berkeley_ops full_api) (s_last_hash st2) st2))"
proof -
  let ?p = "pool_new (PoolHash []) 0 None"
  let ?d = "\<lparr>db_blocks = Some Map.empty, db_seq_no = Some Map.empty, db_last_error = DbNoError\<rparr>
    :: (u32 \<rightharpoonup> byte_array, byte_array \<rightharpoonup> u32) berkeley"
  have p: "p_is_valid ?p" "\<not> p_read_only ?p" "p_previous_hash ?p = PoolHash []"
    by (simp_all add: pool_new_def pool_default_def)
  have st: "s_db empty_storage = Some ?d" "s_write_queue empty_storage = []" "s_count_pool empty_storage = 0"
    "s_last_hash empty_storage = p_previous_hash ?p"
    by (simp_all add: empty_storage_def storage_default_def p)
  have fails: "fst (rec_put full_api Map.empty (ucast (p_sequence ?p) + 1) (put_pool ?p)) \<noteq> 0"
    "fst (hash_get full_api Map.empty (hash_value (calc_from_data (put_pool ?p)))) \<noteq> 0"
    by (simp_all add: full_api_def map_api_def)
  show ?thesis
    using write_failure_loses_chain [OF st(1) _ _ st(2) p(1,2) st(4) empty_storage_save fails]
    by (auto simp: empty_storage_save p st elim: chain_NilE)
qed

subsection \<open>What a scan finds\<close>

lemma unat_ucast_u32_u64: "unat (ucast (x :: u32) :: u64) = unat x"
proof -
  have "unat x < 2 ^ 64"
    using unsigned_less [of x, where 'a = nat] by simp
  then show ?thesis
    by (simp add: unsigned_ucast_eq take_bit_nat_eq_self)
qed

definition scan_ok :: "scan \<Rightarrow> bool" where
  "scan_ok sc \<longleftrightarrow> (if sc_als sc = [] then sc_lastSeq sc = 0 else length (sc_als sc) = Suc (unat (sc_lastSeq sc)))"

text \<open>The entry of a sequence number: that of the last value with it.\<close>

primrec entry_of :: "(pool_hash \<times> pool_hash) \<Rightarrow> byte_array list \<Rightarrow> nat \<Rightarrow> pool_hash \<times> pool_hash" where
  "entry_of e [] i = e"
| "entry_of e (v # vs) i =
     entry_of (if unat (p_sequence (pool_from_binary v)) = i
               then (calc_from_data v, p_previous_hash (pool_from_binary v)) else e) vs i"

definition scannable :: "byte_array \<Rightarrow> bool" where
  "scannable v \<longleftrightarrow> p_is_valid (pool_from_binary v) \<and> unat (p_sequence (pool_from_binary v)) < 2 ^ 32 - 1"

lemma length_vector_resize [simp]: "length (vector_resize x n xs) = n"
  by (simp add: vector_resize_def)

lemma nth_vector_resize: "i < n \<Longrightarrow> vector_resize x n xs ! i = (if i < length xs then xs ! i else x)"
  by (auto simp: vector_resize_def nth_append)

lemma pool_hash_of_read [simp]:
  "p_is_valid (pool_from_binary v) \<Longrightarrow> fst (pool_hash_of (pool_from_binary v)) = calc_from_data v"
  using pool_from_binary_sealed [of v] by (simp add: pool_hash_of_def pool_sealed_def Let_def)

lemma rescan_value_step:
  assumes "scannable v" "scan_ok sc"
  shows "\<exists>sc'. rescan_value None v sc st = Some (Inr sc', st\<lparr>s_count_pool := s_count_pool st + 1\<rparr>) \<and>
    scan_ok sc' \<and> length (sc_als sc') = max (length (sc_als sc)) (Suc (unat (p_sequence (pool_from_binary v)))) \<and>
    (\<forall>i < length (sc_als sc'). sc_als sc' ! i =
       (if unat (p_sequence (pool_from_binary v)) = i then (calc_from_data v, p_previous_hash (pool_from_binary v))
        else if i < length (sc_als sc) then sc_als sc ! i else (PoolHash [], PoolHash [])))"
proof -
  let ?p = "pool_from_binary v"
  let ?n = "unat (p_sequence ?p)" and ?e = "(calc_from_data v, p_previous_hash ?p)"
  have v: "p_is_valid ?p" "?n < 2 ^ 32 - 1"
    using assms(1) by (simp_all add: scannable_def)
  have low: "unat (ucast (p_sequence ?p) :: u32) = ?n"
    using v(2) by (simp add: unsigned_ucast_eq take_bit_nat_eq_self)
  then have inc: "unat (ucast (p_sequence ?p) + 1 :: u32) = Suc ?n"
    using v(2) by (simp add: unat_word_ariths)
  have le: "ucast (sc_lastSeq sc) \<le> p_sequence ?p \<longleftrightarrow> unat (sc_lastSeq sc) \<le> ?n"
    by (simp add: word_le_nat_alt unat_ucast_u32_u64)
  define als where "als = (if unat (sc_lastSeq sc) \<le> ?n
      then vector_resize (PoolHash [], PoolHash []) (Suc ?n) (sc_als sc) else sc_als sc)"
  define top where "top = (if unat (sc_lastSeq sc) \<le> ?n then ucast (p_sequence ?p) else sc_lastSeq sc)"
  let ?sc = "sc\<lparr>sc_lastSeq := top, sc_als := als[?n := ?e], sc_poolsProcessed := sc_poolsProcessed sc + 1\<rparr>"
  have len: "length als = max (length (sc_als sc)) (Suc ?n)" "length als = Suc (unat top)"
    using assms(2) low by (auto simp: als_def top_def scan_ok_def max_def split: if_splits)
  have "rescan_value None v sc st = (if ?n < length als then Some (Inr ?sc, st\<lparr>s_count_pool := s_count_pool st + 1\<rparr>) else None)"
    using v(1) by (simp add: rescan_value_def Let_def le inc pool_hash_eq_def als_def top_def)
  moreover have "?n < length als" "als \<noteq> []"
    using len by auto
  moreover have "als ! i = (if i < length (sc_als sc) then sc_als sc ! i else (PoolHash [], PoolHash []))" if "i < length als" for i
    using that by (auto simp: als_def nth_vector_resize split: if_splits)
  ultimately show ?thesis
    using len by (simp add: scan_ok_def nth_list_update)
qed

primrec scan_length :: "nat \<Rightarrow> byte_array list \<Rightarrow> nat" where
  "scan_length n [] = n"
| "scan_length n (v # vs) = scan_length (max n (Suc (unat (p_sequence (pool_from_binary v))))) vs"

lemma rescan_loop_visits:
  "visits ops it vs \<Longrightarrow> \<forall>v \<in> set vs. scannable v \<Longrightarrow> scan_ok sc \<Longrightarrow>
    \<exists>sc'. rescan_loop ops None it sc st = Some (Inr sc', st\<lparr>s_count_pool := s_count_pool st + of_nat (length vs)\<rparr>) \<and>
      length (sc_als sc') = scan_length (length (sc_als sc)) vs \<and>
      (\<forall>i < length (sc_als sc'). sc_als sc' ! i =
        entry_of (if i < length (sc_als sc) then sc_als sc ! i else (PoolHash [], PoolHash [])) vs i)"
proof (induction it vs arbitrary: sc st rule: visits.induct)
  case (visits_end it)
  then show ?case by (subst rescan_loop.simps) simp
next
  case (visits_value it vs)
  let ?v = "it_value ops it"
  let ?n = "unat (p_sequence (pool_from_binary ?v))"
  have "scannable ?v"
    using visits_value.prems(1) by simp
  from rescan_value_step [OF this visits_value.prems(2), of st] obtain sc1 where
    sc1: "rescan_value None ?v sc st = Some (Inr sc1, st\<lparr>s_count_pool := s_count_pool st + 1\<rparr>)" "scan_ok sc1"
      "length (sc_als sc1) = max (length (sc_als sc)) (Suc ?n)"
      "\<forall>i < length (sc_als sc1). sc_als sc1 ! i =
       (if ?n = i then (calc_from_data ?v, p_previous_hash (pool_from_binary ?v))
        else if i < length (sc_als sc) then sc_als sc ! i else (PoolHash [], PoolHash []))"
    by blast
  have vs: "\<forall>v \<in> set vs. scannable v"
    using visits_value.prems(1) by simp
  obtain sc2 where sc2: "rescan_loop ops None (it_next ops it) sc1 (st\<lparr>s_count_pool := s_count_pool st + 1\<rparr>) =
        Some (Inr sc2, st\<lparr>s_count_pool := s_count_pool st + 1 + of_nat (length vs)\<rparr>)"
      "length (sc_als sc2) = scan_length (length (sc_als sc1)) vs"
      "\<forall>i < length (sc_als sc2). sc_als sc2 ! i =
        entry_of (if i < length (sc_als sc1) then sc_als sc1 ! i else (PoolHash [], PoolHash [])) vs i"
    using visits_value.IH [OF vs sc1(2), of "st\<lparr>s_count_pool := s_count_pool st + 1\<rparr>"] by auto
  have "rescan_loop ops None it sc st = Some (Inr sc2, st\<lparr>s_count_pool := s_count_pool st + of_nat (length (?v # vs))\<rparr>)"
    using visits_value.hyps(1) by (subst rescan_loop.simps) (simp add: sc1(1) sc2(1) add.assoc)
  moreover have "sc_als sc2 ! i = entry_of (if i < length (sc_als sc) then sc_als sc ! i else (PoolHash [], PoolHash [])) (?v # vs) i"
    if "i < length (sc_als sc2)" for i
  proof -
    have "(if i < length (sc_als sc1) then sc_als sc1 ! i else (PoolHash [], PoolHash [])) =
        (if ?n = i then (calc_from_data ?v, p_previous_hash (pool_from_binary ?v))
         else if i < length (sc_als sc) then sc_als sc ! i else (PoolHash [], PoolHash []))"
      using sc1(3,4) by auto
    then show ?thesis
      using sc2(3) that by simp
  qed
  ultimately show ?case
    using sc1(3) sc2(2) by auto
qed

lemma scan_length_bounds:
  "\<forall>v \<in> set vs. Suc (unat (p_sequence (pool_from_binary v))) \<le> m \<Longrightarrow> n \<le> m \<Longrightarrow>
    scan_length n vs \<le> m \<and> n \<le> scan_length n vs \<and>
    (\<forall>v \<in> set vs. Suc (unat (p_sequence (pool_from_binary v))) \<le> scan_length n vs)"
proof (induction vs arbitrary: n)
  case (Cons v vs)
  show ?case
    using Cons.IH [of "max n (Suc (unat (p_sequence (pool_from_binary v))))"] Cons.prems by auto
qed simp

lemma entry_of_unique:
  assumes "\<forall>v \<in> set vs. unat (p_sequence (pool_from_binary v)) = i \<longrightarrow> v = x" "unat (p_sequence (pool_from_binary x)) = i"
    and "x \<in> set vs \<or> e = (calc_from_data x, p_previous_hash (pool_from_binary x))"
  shows "entry_of e vs i = (calc_from_data x, p_previous_hash (pool_from_binary x))"
  using assms by (induction vs arbitrary: e) auto

lemma linked_tip_all:
  assumes "\<forall>i. Suc i < length es \<longrightarrow> snd (es ! Suc i) = fst (es ! i)" "es \<noteq> []"
  shows "linked_tip (fst (hd es)) (tl es) = fst (last es)"
  using assms
proof (induction es)
  case (Cons e es)
  show ?case
  proof (cases es)
    case (Cons f fs)
    have "\<forall>i. Suc i < length es \<longrightarrow> snd (es ! Suc i) = fst (es ! i)"
      using Cons.prems(1) by auto
    moreover have "snd f = fst e"
      using Cons.prems(1) Cons by force
    ultimately show ?thesis
      using Cons.IH Cons by (simp add: pool_hash_eq_def)
  qed simp
qed simp

text \<open>C23: scanning a database in whatever order its iterator gives the blocks \<open>blocks\<close> of one unbroken
  chain, with the sequence numbers from zero on, succeeds, counts the values given and ends with
  the last hash on the newest block.\<close>

theorem rescan_linked:
  assumes "do_new_iterator ops (the (s_db st)) = (Some it, d)" "visits ops (it_seek_to_first ops it) vs"
    and "set vs = set blocks" "length blocks < 2 ^ 32 - 1"
    and "\<forall>i < length blocks. p_is_valid (pool_from_binary (blocks ! i)) \<and>
      unat (p_sequence (pool_from_binary (blocks ! i))) = i"
    and "\<forall>i. Suc i < length blocks \<longrightarrow>
      p_previous_hash (pool_from_binary (blocks ! Suc i)) = calc_from_data (blocks ! i)"
  shows "rescan ops None st = Some (True, st\<lparr>s_db := Some d, s_count_pool := of_nat (length vs),
    s_last_hash := (if blocks = [] then PoolHash [] else calc_from_data (last blocks))\<rparr>)"
proof -
  let ?E = "\<lambda>v. (calc_from_data v, p_previous_hash (pool_from_binary v))"
  have seq: "v = blocks ! unat (p_sequence (pool_from_binary v)) \<and> unat (p_sequence (pool_from_binary v)) < length blocks \<and>
      p_is_valid (pool_from_binary v)" if "v \<in> set vs" for v
    using that assms(3,5) by (auto simp: in_set_conv_nth)
  have "scannable v" if "v \<in> set vs" for v
    using seq [OF that] assms(4) by (simp add: scannable_def)
  then obtain sc where sc: "rescan_loop ops None (it_seek_to_first ops it) \<lparr>sc_lastSeq = 0, sc_als = [], sc_poolsProcessed = 0\<rparr>
        (st\<lparr>s_last_hash := PoolHash [], s_count_pool := 0, s_db := Some d\<rparr>) =
      Some (Inr sc, st\<lparr>s_last_hash := PoolHash [], s_count_pool := of_nat (length vs), s_db := Some d\<rparr>)"
    "length (sc_als sc) = scan_length 0 vs"
    "\<forall>i < length (sc_als sc). sc_als sc ! i = entry_of (PoolHash [], PoolHash []) vs i"
    using rescan_loop_visits [OF assms(2), of "\<lparr>sc_lastSeq = 0, sc_als = [], sc_poolsProcessed = 0\<rparr>"
        "st\<lparr>s_last_hash := PoolHash [], s_count_pool := 0, s_db := Some d\<rparr>"]
    by (auto simp: scan_ok_def)
  have bounds: "scan_length 0 vs \<le> length blocks" "\<forall>v \<in> set vs. Suc (unat (p_sequence (pool_from_binary v))) \<le> scan_length 0 vs"
    using scan_length_bounds [of vs "length blocks" 0] seq by (auto simp: Suc_le_eq)
  have len: "scan_length 0 vs = length blocks"
  proof (cases "blocks = []")
    case False
    then show ?thesis
      using bounds assms(3,5) by (metis Suc_pred le_antisym length_greater_0_conv lessI nth_mem)
  qed (use bounds in simp)
  have als: "sc_als sc = map ?E blocks"
    using sc(2,3) len assms(3,5) seq
    by (intro nth_equalityI) (auto intro!: entry_of_unique)
  have "rescan ops None st = Some (True, (st\<lparr>s_last_hash := PoolHash [], s_count_pool := of_nat (length vs), s_db := Some d\<rparr>)
      \<lparr>s_last_hash := (if blocks = [] then PoolHash [] else calc_from_data (last blocks))\<rparr>)"
  proof (cases blocks)
    case (Cons b bs)
    have "\<forall>i. Suc i < length (map ?E blocks) \<longrightarrow> snd (map ?E blocks ! Suc i) = fst (map ?E blocks ! i)"
      using assms(6) by simp
    from linked_tip_all [OF this] have "linked_tip (fst (?E b)) (map ?E bs) = calc_from_data (last blocks)"
      using Cons by (simp add: last_map)
    then show ?thesis
      using sc(1) als Cons by (simp add: rescan_def Let_def assms(1))
  qed (use sc(1) als in \<open>simp add: rescan_def Let_def assms(1)\<close>)
  then show ?thesis by simp
qed

theorem rescan_linked_witness:
  "rescan (berkeley_ops map_api) None sample_storage =
    Some (True, sample_storage\<lparr>s_count_pool := 1, s_last_hash := calc_from_data (put_pool sample_pool)\<rparr>)"
proof -
  let ?v = "put_pool sample_pool" and ?ops = "berkeley_ops map_api"
  let ?it = "bdb_iterator_new (Some [?v])"
  have it: "do_new_iterator ?ops (the (s_db sample_storage)) = (Some ?it, the (s_db sample_storage))"
    by (simp add: berkeley_ops_def berkeley_new_iterator_def sample_storage_def map_api_def)
  have "visits ?ops (it_next ?ops (it_seek_to_first ?ops ?it)) []"
    by (rule visits_end) (simp add: berkeley_ops_def map_api_def bdb_move_def bdb_iterator_new_def list_next_def)
  then have "visits ?ops (it_seek_to_first ?ops ?it) [it_value ?ops (it_seek_to_first ?ops ?it)]"
    by (intro visits_value) (simp_all add: berkeley_ops_def map_api_def bdb_move_def bdb_iterator_new_def)
  moreover have "it_value ?ops (it_seek_to_first ?ops ?it) = ?v"
    by (simp add: berkeley_ops_def map_api_def bdb_move_def bdb_iterator_new_def bdb_value_def)
  ultimately have vs: "visits ?ops (it_seek_to_first ?ops ?it) [?v]" by simp
  have "p_sequence sample_sealed = 0"
    unfolding sample_sealed_eq by (simp add: pool_body_def sample_pool_def pool_new_def pool_default_def)
  then have "rescan ?ops None sample_storage = Some (True, sample_storage\<lparr>s_db := Some (the (s_db sample_storage)),
      s_count_pool := of_nat (length [?v]), s_last_hash := (if [?v] = [] then PoolHash [] else calc_from_data (last [?v]))\<rparr>)"
    using sample_sealed_fields(1) by (intro rescan_linked [OF it vs]) simp_all
  then show ?thesis
    by (simp add: sample_storage_def)
qed

text \<open>The scan ends with an error at the first value that is not a pool, and it indexes its table out of
  range exactly for a pool whose sequence number is \<open>2 ^ 32 - 1\<close> or more.\<close>

theorem rescan_value_errors:
  assumes "scan_ok sc"
  shows "(\<not> p_is_valid (pool_from_binary v) \<longrightarrow> rescan_value callback v sc st = Some (Inl StDataIntegrityError, st)) \<and>
    (p_is_valid (pool_from_binary v) \<longrightarrow>
      (rescan_value None v sc st = None \<longleftrightarrow> 2 ^ 32 - 1 \<le> unat (p_sequence (pool_from_binary v))))"
proof -
  let ?n = "unat (p_sequence (pool_from_binary v))"
  have "rescan_value None v sc st = None" if "p_is_valid (pool_from_binary v)" "2 ^ 32 - 1 \<le> ?n"
  proof -
    have "unat (sc_lastSeq sc) \<le> 2 ^ 32 - 1" "unat (ucast (p_sequence (pool_from_binary v)) + 1 :: u32) \<le> 2 ^ 32 - 1"
      using unsigned_less [of "sc_lastSeq sc", where 'a = nat]
        unsigned_less [of "ucast (p_sequence (pool_from_binary v)) + 1 :: u32", where 'a = nat] by simp_all
    then have "ucast (sc_lastSeq sc) \<le> p_sequence (pool_from_binary v)"
      "\<not> ?n < unat (ucast (p_sequence (pool_from_binary v)) + 1 :: u32)"
      using that(2) by (simp_all add: word_le_nat_alt unat_ucast_u32_u64)
    then show ?thesis
      using that(1) by (simp add: rescan_value_def Let_def pool_hash_eq_def)
  qed
  moreover have "rescan_value None v sc st \<noteq> None" if "p_is_valid (pool_from_binary v)" "\<not> 2 ^ 32 - 1 \<le> ?n"
    using rescan_value_step [of v sc st] assms that by (auto simp: scannable_def)
  moreover have "rescan_value callback v sc st = Some (Inl StDataIntegrityError, st)" if "\<not> p_is_valid (pool_from_binary v)"
    using that by (simp add: rescan_value_def Let_def)
  ultimately show ?thesis by blast
qed

theorem rescan_value_errors_witness:
  "rescan_value None [] \<lparr>sc_lastSeq = 0, sc_als = [], sc_poolsProcessed = 0\<rparr> empty_storage =
    Some (Inl StDataIntegrityError, empty_storage)"
  using rescan_value_errors [of "\<lparr>sc_lastSeq = 0, sc_als = [], sc_poolsProcessed = 0\<rparr>" "[]" None empty_storage]
  by (simp add: scan_ok_def pool_from_binary_def pool_default_def)

end
