(* ===== verification/Wallet.thy ===== *)
theory Wallet
  imports StorageWrite
begin

text \<open>
  Wallets (\<open>csdb/src/wallet.cpp\<close>): the amounts of an address per currency, added up over the whole
  chain with the assignment operators of the amounts.  These operators are exact modulo
  \<open>2 ^ 32\<close> integral units and keep fractions of at most one unit (\<open>amount_weak\<close>), although
  not always below one; sums are therefore compared by value.
\<close>

subsection \<open>Adding up amounts\<close>

abbreviation (input) amount_modulus :: int where
  "amount_modulus \<equiv> 4294967296000000000000000000"

definition amount_weak :: "amount \<Rightarrow> bool" where
  "amount_weak a \<longleftrightarrow> fraction a \<le> amount_max_fraction"

text \<open>The amount stands for the integer up to the modulus.\<close>

definition amount_stands :: "amount \<Rightarrow> int \<Rightarrow> bool" where
  "amount_stands a v \<longleftrightarrow> amount_weak a \<and> amount_modulus dvd amount_val a - v"

lemma sint_word_of_int_dvd: "4294967296 dvd sint (word_of_int k :: u32) - k"
proof -
  have "word_of_int (sint (word_of_int k :: u32)) = (word_of_int k :: u32)"
    by simp
  then have "take_bit 32 (sint (word_of_int k :: u32)) = take_bit 32 k"
    unfolding word_of_int_eq_iff by simp
  then show ?thesis
    by (simp add: take_bit_eq_mod mod_eq_dvd_iff)
qed

lemma amount_standsI:
  assumes "integral a = word_of_int k" "uint (fraction a) = f" "f \<le> 1000000000000000000"
    and "v = k * 1000000000000000000 + f"
  shows "amount_stands a v"
proof -
  have "amount_val a - v = (sint (word_of_int k :: u32) - k) * 1000000000000000000"
    using assms by (simp add: amount_val_def algebra_simps)
  moreover have "4294967296 * 1000000000000000000 dvd (sint (word_of_int k :: u32) - k) * 1000000000000000000"
    using sint_word_of_int_dvd [of k] by (rule mult_dvd_mono) simp
  ultimately show ?thesis
    using assms(2,3) by (simp add: amount_stands_def amount_weak_def word_le_def)
qed

lemma amount_stands_self: "amount_weak a \<Longrightarrow> amount_stands a (amount_val a)"
  by (simp add: amount_stands_def)

lemma amount_stands_mod: "amount_stands a u \<Longrightarrow> amount_modulus dvd u - v \<Longrightarrow> amount_stands a v"
  unfolding amount_stands_def using dvd_add [of amount_modulus "amount_val a - u" "u - v"] by simp

lemma amount_add_assign_stands:
  assumes "amount_stands a u" "amount_stands b v"
  shows "amount_stands (amount_add_assign a b) (u + v)"
proof -
  let ?s = "uint (fraction a) + uint (fraction b)" and ?k = "sint (integral a) + sint (integral b)"
  have f: "uint (fraction a) \<le> 1000000000000000000" "uint (fraction b) \<le> 1000000000000000000"
    using assms by (simp_all add: amount_stands_def amount_weak_def word_le_def)
  have sum: "uint (fraction a + fraction b) = ?s"
    using f by (intro uint_add_small) simp
  have "amount_stands (amount_add_assign a b) (amount_val a + amount_val b)"
  proof (cases "fraction a + fraction b > amount_max_fraction")
    case True
    then have "uint (fraction a + fraction b - amount_max_fraction) = ?s - 1000000000000000000"
      using sum uint_sub_small [of amount_max_fraction "fraction a + fraction b"] by (simp add: word_less_def)
    then show ?thesis
      using True f by (intro amount_standsI [of _ "?k + 1" "?s - 1000000000000000000"]) (simp_all add: amount_add_assign_def Let_def amount_val_def)
  next
    case False
    then show ?thesis
      using sum by (intro amount_standsI [of _ ?k ?s])
        (simp_all add: amount_add_assign_def Let_def amount_val_def word_less_def)
  qed
  then show ?thesis
    by (rule amount_stands_mod)
      (use assms dvd_add [of amount_modulus "amount_val a - u" "amount_val b - v"] in \<open>simp add: amount_stands_def algebra_simps\<close>)
qed

lemma amount_sub_assign_stands:
  assumes "amount_stands a u" "amount_stands b v"
  shows "amount_stands (amount_sub_assign a b) (u - v)"
proof -
  let ?k = "sint (integral a) - sint (integral b)"
  have f: "uint (fraction a) \<le> 1000000000000000000" "uint (fraction b) \<le> 1000000000000000000"
    "0 \<le> uint (fraction a)" "0 \<le> uint (fraction b)"
    using assms by (simp_all add: amount_stands_def amount_weak_def word_le_def)
  have "amount_stands (amount_sub_assign a b) (amount_val a - amount_val b)"
  proof (cases "fraction b > fraction a")
    case True
    have "uint (amount_max_fraction - fraction b) = 1000000000000000000 - uint (fraction b)"
      using uint_sub_small [of "fraction b" amount_max_fraction] f by simp
    moreover have "uint (fraction a + (amount_max_fraction - fraction b)) =
        uint (fraction a) + uint (amount_max_fraction - fraction b)"
      using f calculation by (intro uint_add_small) linarith
    ultimately show ?thesis
      using True f by (intro amount_standsI [of _ "?k - 1" "uint (fraction a) + (1000000000000000000 - uint (fraction b))"])
        (simp_all add: amount_sub_assign_def Let_def amount_val_def word_less_def algebra_simps)
  next
    case False
    then have "uint (fraction a - fraction b) = uint (fraction a) - uint (fraction b)"
      by (intro uint_sub_small) (simp add: word_less_def)
    moreover have "uint (fraction a) - uint (fraction b) \<le> 1000000000000000000"
      using f by linarith
    ultimately show ?thesis
      using False by (intro amount_standsI [of _ ?k "uint (fraction a) - uint (fraction b)"])
        (simp_all add: amount_sub_assign_def Let_def amount_val_def word_less_def algebra_simps)
  qed
  then show ?thesis
    by (rule amount_stands_mod)
      (use assms dvd_diff [of amount_modulus "amount_val a - u" "amount_val b - v"] in \<open>simp add: amount_stands_def algebra_simps\<close>)
qed

lemma amount_stands_exact:
  assumes "amount_stands a v" "- 2147483648000000000000000000 < v" "v < 2147483648000000000000000000"
  shows "amount_val a = v"
proof -
  have "uint (fraction a) \<le> 1000000000000000000"
    using assms(1) by (simp add: amount_stands_def amount_weak_def word_le_def)
  then have "- 2147483648000000000000000000 \<le> amount_val a" "amount_val a \<le> 2147483648000000000000000000"
    using sint_range_32 [of "integral a"] uint_lt_64 [of "fraction a"] unfolding amount_val_def by linarith+
  moreover obtain q where "amount_val a - v = amount_modulus * q"
    using assms(1) by (auto simp: amount_stands_def dvd_def)
  moreover have "q = 0"
    using calculation assms(2,3) by linarith
  ultimately show ?thesis by simp
qed

subsection \<open>The class\<close>

record wallet =
  w_address :: address
  w_amounts :: "(currency \<times> amount) list"

definition wallet_default :: wallet where
  "wallet_default = \<lparr>w_address = Address [], w_amounts = []\<rparr>"

definition wallet_is_valid :: "wallet \<Rightarrow> bool" where
  "wallet_is_valid w \<longleftrightarrow> address_is_valid (w_address w)"

definition wallet_currencies :: "wallet \<Rightarrow> currency list" where
  "wallet_currencies w = map fst (w_amounts w)"

definition wallet_amount :: "wallet \<Rightarrow> currency \<Rightarrow> amount" where
  "wallet_amount w c = (case map_find currency_lt c (w_amounts w) of None \<Rightarrow> amount_of_int 0 | Some a \<Rightarrow> a)"

text \<open>\<open>amounts_[currency]\<close> makes a zero amount where there is none.\<close>

definition amounts_at :: "(currency \<times> amount) list \<Rightarrow> currency \<Rightarrow> amount" where
  "amounts_at m c = (case map_find currency_lt c m of None \<Rightarrow> amount_of_int 0 | Some a \<Rightarrow> a)"

definition wallet_transaction :: "address \<Rightarrow> transaction \<Rightarrow> (currency \<times> amount) list \<Rightarrow> (currency \<times> amount) list" where
  "wallet_transaction addr t m =
     (let c = tr_currency t;
          m = (if address_eq (tr_source t) addr
               then map_assign currency_lt c (amount_sub_assign (amounts_at m c) (tr_amount t)) m else m)
      in if address_eq (tr_target t) addr
         then map_assign currency_lt c (amount_add_assign (amounts_at m c) (tr_amount t)) m else m)"

definition wallet_pool :: "address \<Rightarrow> pool \<Rightarrow> (currency \<times> amount) list \<Rightarrow> (currency \<times> amount) list" where
  "wallet_pool addr p m =
     fold (\<lambda>i. wallet_transaction addr (transaction_at p (of_nat i))) [0..<unat (transactions_count p)] m"

partial_function (option) wallet_loop ::
  "('d, 'i) database_ops \<Rightarrow> nat option \<Rightarrow> nat option \<Rightarrow> address \<Rightarrow> pool \<Rightarrow> 'd storages \<Rightarrow> (currency \<times> amount) list \<Rightarrow>
   ((currency \<times> amount) list \<times> 'd storages) option" where
  "wallet_loop ops defaultStorage storage addr p w m =
     (if p_is_valid p
      then (let m = wallet_pool addr p m; (p, w) = pool_load_from ops defaultStorage (p_previous_hash p) storage w
            in wallet_loop ops defaultStorage storage addr p w m)
      else Some (m, w))"

definition wallet_get ::
  "('d, 'i) database_ops \<Rightarrow> nat option \<Rightarrow> address \<Rightarrow> nat option \<Rightarrow> 'd storages \<Rightarrow> (wallet \<times> 'd storages) option" where
  "wallet_get ops defaultStorage addr candidate w =
     (let storage = (if isOpen ops (storage_at w candidate) then candidate else defaultStorage)
      in if \<not> isOpen ops (storage_at w storage) then Some (wallet_default, w)
         else (let (p, w) = pool_load_from ops defaultStorage (s_last_hash (storage_at w storage)) storage w
               in Option.bind (wallet_loop ops defaultStorage storage addr p w []) (\<lambda>(m, w).
                    Some (\<lparr>w_address = addr, w_amounts = m\<rparr>, w))))"

subsection \<open>What a transaction and a pool add\<close>

definition delta :: "address \<Rightarrow> currency \<Rightarrow> transaction \<Rightarrow> int" where
  "delta addr c t =
     (if tr_currency t = c
      then (if address_eq (tr_target t) addr then amount_val (tr_amount t) else 0) -
           (if address_eq (tr_source t) addr then amount_val (tr_amount t) else 0)
      else 0)"

definition amounts_stand :: "(currency \<times> amount) list \<Rightarrow> (currency \<Rightarrow> int) \<Rightarrow> bool" where
  "amounts_stand m f \<longleftrightarrow> map_sorted currency_lt m \<and> (\<forall>c. amount_stands (amounts_at m c) (f c))"

lemma amounts_stand_at: "amounts_stand m f \<Longrightarrow> amount_stands (amounts_at m c) (f c)"
  by (simp add: amounts_stand_def)

lemma amounts_at_assign:
  "map_sorted currency_lt m \<Longrightarrow> amounts_at (map_assign currency_lt c a m) c' = (if c' = c then a else amounts_at m c')"
  by (simp add: amounts_at_def currency_key.find_assign)

lemma amounts_stand_assign:
  assumes "amounts_stand m f" "amount_stands a v"
  shows "amounts_stand (map_assign currency_lt c a m) (f(c := v))"
  using assms by (simp add: amounts_stand_def amounts_at_assign currency_key.sorted_assign)

lemma wallet_transaction_stand:
  assumes "amounts_stand m f" "amount_weak (tr_amount t)"
  shows "amounts_stand (wallet_transaction addr t m) (\<lambda>c. f c + delta addr c t)"
proof -
  let ?c = "tr_currency t" and ?a = "tr_amount t"
  let ?m = "if address_eq (tr_source t) addr then map_assign currency_lt ?c (amount_sub_assign (amounts_at m ?c) ?a) m else m"
  let ?f = "if address_eq (tr_source t) addr then f(?c := f ?c - amount_val ?a) else f"
  note self = amount_stands_self [OF assms(2)]
  have src: "amounts_stand ?m ?f"
    using assms(1) self amounts_stand_at [OF assms(1)] by (simp add: amounts_stand_assign amount_sub_assign_stands)
  then have "amounts_stand (map_assign currency_lt ?c (amount_add_assign (amounts_at ?m ?c) ?a) ?m) (?f(?c := ?f ?c + amount_val ?a))"
    by (intro amounts_stand_assign amount_add_assign_stands self amounts_stand_at)
  moreover have "?f(?c := ?f ?c + amount_val ?a) = (\<lambda>c. f c + delta addr c t)" if "address_eq (tr_target t) addr"
    using that by (auto simp: delta_def fun_eq_iff)
  moreover have "?f = (\<lambda>c. f c + delta addr c t)" if "\<not> address_eq (tr_target t) addr"
    using that by (auto simp: delta_def fun_eq_iff)
  ultimately show ?thesis
    using src by (auto simp: wallet_transaction_def Let_def)
qed

lemma fold_wallet_stand:
  "amounts_stand m f \<Longrightarrow> \<forall>t \<in> set ts. amount_weak (tr_amount t) \<Longrightarrow>
    amounts_stand (fold (wallet_transaction addr) ts m) (\<lambda>c. f c + sum_list (map (delta addr c) ts))"
proof (induction ts arbitrary: m f)
  case (Cons t ts)
  have "amounts_stand (wallet_transaction addr t m) (\<lambda>c. f c + delta addr c t)"
    using Cons.prems by (intro wallet_transaction_stand) simp_all
  from Cons.IH [OF this] Cons.prems show ?case
    by (simp add: add.assoc)
qed simp

lemma transactions_by_index:
  assumes "counted p"
  shows "map (\<lambda>i. transaction_at p (of_nat i)) [0..<unat (transactions_count p)] = p_transactions p"
proof -
  have "unat (of_nat i :: u64) = i" if "i < length (p_transactions p)" for i
    using that assms unsigned_less [of "p_transactionsCount p", where 'a = nat]
    by (simp add: counted_def unat_of_nat take_bit_nat_eq_self)
  then show ?thesis
    using assms by (intro nth_equalityI) (simp_all add: counted_def transaction_at_def)
qed

lemma wallet_pool_fold:
  assumes "counted p"
  shows "wallet_pool addr p m = fold (wallet_transaction addr) (p_transactions p) m"
proof -
  have "fold (wallet_transaction addr) (map (\<lambda>i. transaction_at p (of_nat i)) [0..<unat (transactions_count p)]) m =
      fold (wallet_transaction addr \<circ> (\<lambda>i. transaction_at p (of_nat i))) [0..<unat (transactions_count p)] m"
    by (simp only: fold_map)
  then show ?thesis
    unfolding transactions_by_index [OF assms] by (simp only: wallet_pool_def comp_def)
qed

subsection \<open>The whole chain\<close>

context database_reader
begin

text \<open>Loading through a number leaves an open storage open, with the same view, at that number.\<close>

lemma load_from_step:
  assumes "w s = Some st" "isOpen ops st" "same_view ops st0 st"
  obtains st' p w' where "pool_load_from ops dflt h (Some s) w = (p, w')" "w' s = Some st'" "isOpen ops st'"
    "same_view ops st0 st'" "p_is_valid p = p_is_valid (view ops st0 h)"
    "p_previous_hash p = p_previous_hash (view ops st0 h)" "p_transactions p = p_transactions (view ops st0 h)"
    "p_transactionsCount p = p_transactionsCount (view ops st0 h)"
proof -
  note step = load_same_view [OF assms(3), of h]
  have "isOpen ops (snd (pool_load ops h st))"
    using assms(2) by (auto simp: isOpen_def pool_load_state open_frame split: option.splits)
  moreover have "pool_load_from ops dflt h (Some s) w =
      ((if p_is_valid (view ops st0 h) then set_storage (Some s) (view ops st0 h) else view ops st0 h),
       w(s \<mapsto> snd (pool_load ops h st)))"
    using assms(1,2) unfolding pool_load_from_def by (simp add: Let_def case_prod_beta step(2) [THEN arg_cong, of fst, simplified])
  ultimately show ?thesis
    using that step(1) by (simp add: set_storage_def)
qed

lemma wallet_loop_chain:
  "chain (view ops st0) h ps \<Longrightarrow> w s = Some st \<Longrightarrow> isOpen ops st \<Longrightarrow> same_view ops st0 st \<Longrightarrow>
    list_all counted ps \<Longrightarrow> \<forall>t \<in> set (newest_first ps). amount_weak (tr_amount t) \<Longrightarrow> amounts_stand m f \<Longrightarrow>
    p_is_valid p = p_is_valid (view ops st0 h) \<Longrightarrow> p_previous_hash p = p_previous_hash (view ops st0 h) \<Longrightarrow>
    p_transactions p = p_transactions (view ops st0 h) \<Longrightarrow>
    p_transactionsCount p = p_transactionsCount (view ops st0 h) \<Longrightarrow>
    \<exists>m' w'. wallet_loop ops dflt (Some s) addr p w m = Some (m', w') \<and>
      amounts_stand m' (\<lambda>c. f c + sum_list (map (delta addr c) (newest_first ps)))"
proof (induction "view ops st0" h ps arbitrary: p w st m f rule: chain.induct)
  case (chain_end h)
  then show ?case
    by (subst wallet_loop.simps) simp
next
  case (chain_pool h ps)
  let ?p = "view ops st0 h"
  obtain st' q w' where load: "pool_load_from ops dflt (p_previous_hash ?p) (Some s) w = (q, w')" "w' s = Some st'" "isOpen ops st'"
    "same_view ops st0 st'" "p_is_valid q = p_is_valid (view ops st0 (p_previous_hash ?p))"
    "p_previous_hash q = p_previous_hash (view ops st0 (p_previous_hash ?p))"
    "p_transactions q = p_transactions (view ops st0 (p_previous_hash ?p))"
    "p_transactionsCount q = p_transactionsCount (view ops st0 (p_previous_hash ?p))"
    using load_from_step [of w s st st0, OF chain_pool.prems(1-3)] .
  have "counted p"
    using chain_pool.prems(4,9,10) by (simp add: counted_def)
  then have pool: "wallet_pool addr p m = fold (wallet_transaction addr) (p_transactions ?p) m"
    using chain_pool.prems(9) by (simp add: wallet_pool_fold)
  have stand: "amounts_stand (wallet_pool addr p m) (\<lambda>c. f c + sum_list (map (delta addr c) (p_transactions ?p)))"
    unfolding pool using chain_pool.prems(5,6) by (intro fold_wallet_stand) simp_all
  have "list_all counted ps" "\<forall>t \<in> set (newest_first ps). amount_weak (tr_amount t)"
    using chain_pool.prems(4,5) by simp_all
  from chain_pool.hyps(3) [of w' st', OF load(2-4) this stand load(5-8)]
  show ?case
    using chain_pool.hyps(1) chain_pool.prems(7,8)
    by (subst wallet_loop.simps) (simp add: load(1) Let_def add.assoc rev_map [symmetric])
qed

lemma wallet_get_chain:
  assumes "w s = Some st" "isOpen ops st" "chain (view ops st) (s_last_hash st) ps" "list_all counted ps"
    and "\<forall>t \<in> set (newest_first ps). amount_weak (tr_amount t)"
  shows "\<exists>m w'. wallet_get ops dflt addr (Some s) w = Some (\<lparr>w_address = addr, w_amounts = m\<rparr>, w') \<and>
    amounts_stand m (\<lambda>c. sum_list (map (delta addr c) (newest_first ps)))"
proof -
  obtain st' q w' where load: "pool_load_from ops dflt (s_last_hash st) (Some s) w = (q, w')" "w' s = Some st'" "isOpen ops st'"
    "same_view ops st st'" "p_is_valid q = p_is_valid (view ops st (s_last_hash st))"
    "p_previous_hash q = p_previous_hash (view ops st (s_last_hash st))"
    "p_transactions q = p_transactions (view ops st (s_last_hash st))"
    "p_transactionsCount q = p_transactionsCount (view ops st (s_last_hash st))"
    using load_from_step [of w s st st, OF assms(1,2) same_view_refl] .
  have "amounts_stand [] (\<lambda>_. 0)"
    by (simp add: amounts_stand_def amounts_at_def map_sorted_def amount_stands_def amount_weak_def amount_val_def amount_of_int_def)
  from wallet_loop_chain [of st "s_last_hash st" ps w' s st', OF assms(3) load(2-4) assms(4,5) this load(5-8), of dflt addr]
  obtain m w'' where "wallet_loop ops dflt (Some s) addr q w' [] = Some (m, w'')"
    "amounts_stand m (\<lambda>c. sum_list (map (delta addr c) (newest_first ps)))"
    by auto
  then show ?thesis
    using assms(1,2) by (auto simp: wallet_get_def load(1))
qed

end

text \<open>C24: on a finite chain the wallet of an address is returned, and its amount of each currency is the sum
  of what its transactions brought minus what they took, exactly when that sum is in range and
  modulo \<open>2 ^ 32\<close> units otherwise.\<close>

theorem wallet_get_spec:
  assumes "w s = Some st" "isOpen (berkeley_ops api) st"
    and "chain (view (berkeley_ops api) st) (s_last_hash st) ps" "\<forall>p \<in> set ps. length (p_transactions p) < 2 ^ 32"
    and "\<forall>t \<in> set (newest_first ps). amount_ok (tr_amount t)"
  shows "\<exists>wal w'. wallet_get (berkeley_ops api) dflt addr (Some s) w = Some (wal, w') \<and> w_address wal = addr \<and>
    (\<forall>c. let v = sum_list (map (delta addr c) (newest_first ps)) in
       4294967296000000000000000000 dvd amount_val (wallet_amount wal c) - v \<and>
       (- 2147483648000000000000000000 < v \<and> v < 2147483648000000000000000000 \<longrightarrow> amount_val (wallet_amount wal c) = v))"
proof -
  have "\<forall>t \<in> set (newest_first ps). amount_weak (tr_amount t)"
    using assms(5) by (auto simp: amount_ok_def amount_weak_def)
  from berkeley.wallet_get_chain [of w s st, OF assms(1-3) chain_counted [OF assms(3,4)] this, of dflt addr]
  obtain m w' where run: "wallet_get (berkeley_ops api) dflt addr (Some s) w = Some (\<lparr>w_address = addr, w_amounts = m\<rparr>, w')"
    and m: "amounts_stand m (\<lambda>c. sum_list (map (delta addr c) (newest_first ps)))"
    by blast
  have "wallet_amount \<lparr>w_address = addr, w_amounts = m\<rparr> c = amounts_at m c" for c
    by (simp add: wallet_amount_def amounts_at_def)
  then show ?thesis
    using run amounts_stand_at [OF m] amount_stands_exact [OF amounts_stand_at [OF m]]
    by (intro exI [of _ "\<lparr>w_address = addr, w_amounts = m\<rparr>"] exI [of _ w']) (simp add: Let_def amount_stands_def)
qed

theorem wallet_get_spec_witness:
  "\<exists>wal w'. wallet_get (berkeley_ops map_api) None (Address (replicate 32 1)) (Some 0) [0 \<mapsto> sample_storage] = Some (wal, w') \<and>
    amount_val (wallet_amount wal (Currency ''CS'')) = - 2000000000000000000"
proof -
  obtain t u where ts: "p_transactions sample_sealed = [t, u]"
    using sample_sealed_fields(3) by (auto simp: numeral_2_eq_2 length_Suc_conv)
  have "isOpen (berkeley_ops map_api) sample_storage"
    by (simp add: isOpen_def sample_storage_def berkeley_ops_def berkeley_is_open_def)
  moreover have "\<forall>t \<in> set (newest_first [sample_sealed]). amount_ok (tr_amount t)"
    "map (delta (Address (replicate 32 1)) (Currency ''CS'')) (newest_first [sample_sealed]) =
      [- 1000000000000000000, - 1000000000000000000]"
    unfolding sample_sealed_eq
    by (simp_all add: pool_body_def sample_pool_def pool_new_def pool_default_def update_transactions_def Let_def
      transaction_update_id_def transaction_copy_def transaction_new_def transaction_priv_def
      address_eq_def amount_of_int_def upt_rec amount_ok_def delta_def amount_val_def)
  ultimately show ?thesis
    using wallet_get_spec [of "[0 \<mapsto> sample_storage]" 0 sample_storage map_api, OF _ _ sample_chain, of None "Address (replicate 32 1)"]
      sample_sealed_fields(3)
    by (fastforce simp: Let_def dest: spec [of _ "Currency ''CS''"])
qed

end
