(* ===== verification/Blockchain.thy ===== *)
theory Blockchain
  imports Wallet
begin

text \<open>
  The block chain of the node (\<open>csnode/src/Blockchain.cpp\<close>): writing the next block, reading blocks and
  transactions, and the balance of an address with its cache.  The storage is the one numbered
  \<open>s\<close>.  \<open>balance_of\<close> is the reference for the balance, without a cache: the balance recorded in the
  newest own transaction plus everything received in its block and the newer ones.
\<close>

subsection \<open>Blocks\<close>

definition writeLastBlock ::
  "('d, 'i) database_ops \<Rightarrow> nat option \<Rightarrow> nat \<Rightarrow> pool \<Rightarrow> 'd storages \<Rightarrow> pool \<times> 'd storages" where
  "writeLastBlock ops defaultStorage s p w =
     (let st = storage_at w (Some s);
          p = set_storage (Some s) p;
          p = set_previous_hash (s_last_hash st) p;
          p = set_sequence (s_count_pool st) p;
          (_, p) = pool_compose p;
          (_, p, w) = pool_save ops defaultStorage None p w
      in (p, w))"

definition getLastHash :: "nat \<Rightarrow> 'd storages \<Rightarrow> pool_hash" where
  "getLastHash s w = s_last_hash (storage_at w (Some s))"

definition getSize :: "nat \<Rightarrow> 'd storages \<Rightarrow> u64" where
  "getSize s w = s_count_pool (storage_at w (Some s))"

definition loadBlock :: "('d, 'i) database_ops \<Rightarrow> nat \<Rightarrow> pool_hash \<Rightarrow> 'd storages \<Rightarrow> pool \<times> 'd storages" where
  "loadBlock ops s ph w = (let (p, st) = pool_load ops ph (storage_at w (Some s)) in (p, w(s \<mapsto> st)))"

definition loadBlockMeta ::
  "('d, 'i) database_ops \<Rightarrow> nat \<Rightarrow> pool_hash \<Rightarrow> 'd storages \<Rightarrow> (pool \<times> u64 option) \<times> 'd storages" where
  "loadBlockMeta ops s ph w = (let (p, st) = pool_load_meta ops ph (storage_at w (Some s)) in (p, w(s \<mapsto> st)))"

definition loadTransaction ::
  "('d, 'i) database_ops \<Rightarrow> nat \<Rightarrow> transaction_id \<Rightarrow> 'd storages \<Rightarrow> transaction \<times> 'd storages" where
  "loadTransaction ops s i w = (let (t, st) = storage_transaction ops i (storage_at w (Some s)) in (t, w(s \<mapsto> st)))"

subsection \<open>Balances\<close>

interpretation address_key: key_order address_lt
  unfolding address_lt_def by (rule key_order_image) (rule address.expand)

type_synonym balances_cache = "(address \<times> (pool_hash \<times> amount)) list"

text \<open>One transaction: whether the address has sent, the balance it recorded, and what it received.\<close>

fun balance_transaction :: "address \<Rightarrow> transaction \<Rightarrow> bool \<times> amount \<times> amount \<Rightarrow> bool \<times> amount \<times> amount" where
  "balance_transaction addr tr (foundSource, recordedBalance, result) =
     (if address_eq (tr_source tr) addr then (True, tr_balance tr, result)
      else if address_eq (tr_target tr) addr then (foundSource, recordedBalance, amount_add_assign result (tr_amount tr))
      else (foundSource, recordedBalance, result))"

definition balance_block :: "address \<Rightarrow> pool \<Rightarrow> amount \<Rightarrow> bool \<times> amount \<times> amount" where
  "balance_block addr p result =
     fold (\<lambda>i. balance_transaction addr (transaction_at p (of_nat i))) [0..<unat (transactions_count p)]
       (False, amount_of_int 0, result)"

partial_function (option) balance_loop ::
  "('d, 'i) database_ops \<Rightarrow> nat \<Rightarrow> address \<Rightarrow> pool_hash \<Rightarrow> pool \<Rightarrow> amount \<Rightarrow> 'd storages \<Rightarrow> (bool \<times> amount \<times> 'd storages) option" where
  "balance_loop ops s addr lastCheckedHash pool_curr result w =
     (if p_is_valid pool_curr \<and> \<not> pool_hash_eq (fst (pool_hash_of pool_curr)) lastCheckedHash
      then (let (foundSource, recordedBalance, result) = balance_block addr pool_curr result
            in if foundSource then Some (True, amount_add_assign result recordedBalance, w)
               else (let (pool_curr, w) = loadBlock ops s (p_previous_hash pool_curr) w
                     in balance_loop ops s addr lastCheckedHash pool_curr result w))
      else Some (False, result, w))"

definition getBalance ::
  "('d, 'i) database_ops \<Rightarrow> nat \<Rightarrow> address \<Rightarrow> balances_cache \<Rightarrow> 'd storages \<Rightarrow> (amount \<times> balances_cache \<times> 'd storages) option" where
  "getBalance ops s addr cache w =
     (let lastHash = getLastHash s w;
          (lastCheckedHash, cachedBalance) =
            (case map_find address_lt addr cache of None \<Rightarrow> (PoolHash [], amount_of_int 0) | Some e \<Rightarrow> e)
      in if map_find address_lt addr cache \<noteq> None \<and> pool_hash_eq lastCheckedHash lastHash
         then Some (cachedBalance, cache, w)
         else (let (pool_curr, w) = loadBlock ops s lastHash w
               in Option.bind (balance_loop ops s addr lastCheckedHash pool_curr (amount_of_int 0) w)
                    (\<lambda>(foundSource, result, w).
                       let result = (if \<not> foundSource then amount_add_assign result cachedBalance else result)
                       in Some (result, map_assign address_lt addr (lastHash, result) cache, w))))"

subsection \<open>The reference\<close>

definition received :: "address \<Rightarrow> transaction list \<Rightarrow> int" where
  "received addr ts = sum_list (map (\<lambda>t. amount_val (tr_amount t))
     (filter (\<lambda>t. address_eq (tr_target t) addr \<and> \<not> address_eq (tr_source t) addr) ts))"

definition own :: "address \<Rightarrow> transaction list \<Rightarrow> transaction list" where
  "own addr ts = filter (\<lambda>t. address_eq (tr_source t) addr) ts"

primrec balance_of :: "address \<Rightarrow> pool list \<Rightarrow> int" where
  "balance_of addr [] = 0"
| "balance_of addr (p # ps) =
     received addr (p_transactions p) +
     (if own addr (p_transactions p) = [] then balance_of addr ps
      else amount_val (tr_balance (last (own addr (p_transactions p)))))"

text \<open>What an address received minus what it sent, in whatever currency, and the balances a sender would
  have to record for the reference to be that sum: everything in the older blocks minus what it
  sends in the same block.\<close>

definition sent :: "address \<Rightarrow> transaction list \<Rightarrow> int" where
  "sent addr ts = sum_list (map (\<lambda>t. amount_val (tr_amount t)) (own addr ts))"

primrec ledger :: "address \<Rightarrow> pool list \<Rightarrow> int" where
  "ledger addr [] = 0"
| "ledger addr (p # ps) = ledger addr ps + received addr (p_transactions p) - sent addr (p_transactions p)"

primrec recorded :: "address \<Rightarrow> pool list \<Rightarrow> bool" where
  "recorded addr [] \<longleftrightarrow> True"
| "recorded addr (p # ps) \<longleftrightarrow> recorded addr ps \<and> (own addr (p_transactions p) \<noteq> [] \<longrightarrow>
     amount_val (tr_balance (last (own addr (p_transactions p)))) = ledger addr ps - sent addr (p_transactions p))"

lemma balance_of_ledger: "recorded addr ps \<Longrightarrow> balance_of addr ps = ledger addr ps"
  by (induction ps) (auto simp: sent_def)

definition amounts_ok :: "transaction \<Rightarrow> bool" where
  "amounts_ok t \<longleftrightarrow> amount_weak (tr_amount t) \<and> amount_weak (tr_balance t)"

lemma received_simps [simp]:
  "received addr [] = 0"
  "received addr (ts @ [t]) = received addr ts +
     (if address_eq (tr_target t) addr \<and> \<not> address_eq (tr_source t) addr then amount_val (tr_amount t) else 0)"
  by (simp_all add: received_def)

lemma own_simps [simp]:
  "own addr [] = []" "own addr (ts @ [t]) = own addr ts @ (if address_eq (tr_source t) addr then [t] else [])"
  by (simp_all add: own_def)

lemma fold_balance:
  assumes "amount_stands result v" "\<forall>t \<in> set ts. amounts_ok t"
  shows "\<exists>result'. fold (balance_transaction addr) ts (False, amount_of_int 0, result) =
      (own addr ts \<noteq> [], (if own addr ts = [] then amount_of_int 0 else tr_balance (last (own addr ts))), result') \<and>
    amount_stands result' (v + received addr ts)"
  using assms(2)
proof (induction ts rule: rev_induct)
  case Nil
  then show ?case using assms(1) by simp
next
  case (snoc t ts)
  then obtain result' where "fold (balance_transaction addr) ts (False, amount_of_int 0, result) =
      (own addr ts \<noteq> [], (if own addr ts = [] then amount_of_int 0 else tr_balance (last (own addr ts))), result')"
    "amount_stands result' (v + received addr ts)"
    by auto
  then show ?case
    using amount_add_assign_stands [OF _ amount_stands_self, of result' "v + received addr ts" "tr_amount t"] snoc.prems
    by (auto simp: amounts_ok_def add.assoc)
qed

lemma balance_block_spec:
  assumes "counted p" "amount_stands result v" "\<forall>t \<in> set (p_transactions p). amounts_ok t"
  shows "\<exists>result'. balance_block addr p result =
      (own addr (p_transactions p) \<noteq> [],
       (if own addr (p_transactions p) = [] then amount_of_int 0 else tr_balance (last (own addr (p_transactions p)))), result') \<and>
    amount_stands result' (v + received addr (p_transactions p))"
proof -
  have "fold (balance_transaction addr) (map (\<lambda>i. transaction_at p (of_nat i)) [0..<unat (transactions_count p)]) x =
      fold (balance_transaction addr \<circ> (\<lambda>i. transaction_at p (of_nat i))) [0..<unat (transactions_count p)] x" for x
    by (simp only: fold_map)
  then have "balance_block addr p result = fold (balance_transaction addr) (p_transactions p) (False, amount_of_int 0, result)"
    unfolding transactions_by_index [OF assms(1)] by (simp only: balance_block_def comp_def)
  then show ?thesis
    using fold_balance [OF assms(2,3)] by simp
qed

definition has_own :: "address \<Rightarrow> pool list \<Rightarrow> bool" where
  "has_own addr ps \<longleftrightarrow> (\<exists>p \<in> set ps. own addr (p_transactions p) \<noteq> [])"

lemma balance_of_append:
  "balance_of addr (newer @ older) = balance_of addr newer + (if has_own addr newer then 0 else balance_of addr older)"
  by (induction newer) (auto simp: has_own_def)

lemma pool_hash_eq_iff [simp]: "pool_hash_eq a b \<longleftrightarrow> a = b"
  by (cases a; cases b) (simp add: pool_hash_eq_def)

lemma sealed_hash_nonempty: "pool_sealed p \<Longrightarrow> p_hash p \<noteq> PoolHash []"
  using calc_from_data_nonempty [of "p_binary p"] by (auto simp: pool_sealed_def pool_hash_is_empty_def)

lemma sealed_hash_of: "pool_sealed p \<Longrightarrow> fst (pool_hash_of p) = p_hash p"
  by (simp add: pool_hash_of_def pool_sealed_def Let_def)

text \<open>The entries of the cache are balances of the chain from the hash they name on.\<close>

definition cache_ok :: "pool list \<Rightarrow> balances_cache \<Rightarrow> bool" where
  "cache_ok ps cache \<longleftrightarrow> map_sorted address_lt cache \<and>
     (\<forall>addr h b. map_find address_lt addr cache = Some (h, b) \<longrightarrow>
        amount_stands b (balance_of addr (dropWhile (\<lambda>p. p_hash p \<noteq> h) ps)))"

lemma cache_ok_grow:
  assumes "cache_ok ps cache" "\<forall>addr h b. map_find address_lt addr cache = Some (h, b) \<longrightarrow> h \<noteq> p_hash p"
  shows "cache_ok (p # ps) cache"
  using assms by (auto simp: cache_ok_def)

context database_reader
begin

lemma load_block_step:
  assumes "w s = Some st" "same_view ops st0 st"
  shows "loadBlock ops s h w = (view ops st0 h, w(s \<mapsto> snd (pool_load ops h st)))"
    and "same_view ops st0 (snd (pool_load ops h st))"
  using load_same_view [OF assms(2), of h] assms(1) by (simp_all add: loadBlock_def Let_def case_prod_beta prod_eq_iff)

lemma balance_loop_chain:
  "chain (view ops st0) h ps \<Longrightarrow> w s = Some st \<Longrightarrow> same_view ops st0 st \<Longrightarrow> list_all counted ps \<Longrightarrow> list_all pool_sealed ps \<Longrightarrow>
    \<forall>t \<in> set (newest_first ps). amounts_ok t \<Longrightarrow> amount_stands result v \<Longrightarrow>
    \<exists>r w' st'. balance_loop ops s addr checked (view ops st0 h) result w =
        Some (has_own addr (takeWhile (\<lambda>p. p_hash p \<noteq> checked) ps), r, w') \<and>
      amount_stands r (v + balance_of addr (takeWhile (\<lambda>p. p_hash p \<noteq> checked) ps)) \<and>
      w' s = Some st' \<and> same_view ops st0 st'"
proof (induction "view ops st0" h ps arbitrary: w st result v rule: chain.induct)
  case (chain_end h)
  then show ?case
    by (subst balance_loop.simps) (simp add: has_own_def)
next
  case (chain_pool h ps)
  let ?p = "view ops st0 h"
  have hash: "fst (pool_hash_of ?p) = p_hash ?p"
    using chain_pool.prems(4) by (simp add: sealed_hash_of)
  obtain r where r: "balance_block addr ?p result =
      (own addr (p_transactions ?p) \<noteq> [],
       (if own addr (p_transactions ?p) = [] then amount_of_int 0 else tr_balance (last (own addr (p_transactions ?p)))), r)"
    "amount_stands r (v + received addr (p_transactions ?p))"
    using balance_block_spec [OF _ chain_pool.prems(6), of ?p addr] chain_pool.prems(3,5) by auto
  note step = load_block_step [where w = w and s = s, OF chain_pool.prems(1,2), of "p_previous_hash ?p"]
  show ?case
  proof (cases "p_hash ?p = checked \<or> own addr (p_transactions ?p) \<noteq> []")
    case True
    have "amount_weak (tr_balance (last (own addr (p_transactions ?p))))" if "own addr (p_transactions ?p) \<noteq> []"
      using last_in_set [OF that] chain_pool.prems(5) by (auto simp: own_def amounts_ok_def)
    then show ?thesis
      using True chain_pool.hyps(1) chain_pool.prems(1,2,6) r(1) hash
        amount_add_assign_stands [OF r(2) amount_stands_self]
      by (subst balance_loop.simps) (auto simp: has_own_def add.assoc)
  next
    case False
    let ?st = "snd (pool_load ops (p_previous_hash ?p) st)"
    have "(w(s \<mapsto> ?st)) s = Some ?st"
      by simp
    from chain_pool.hyps(3) [of "w(s \<mapsto> ?st)" ?st, OF this step(2) _ _ _ r(2)]
      False chain_pool.hyps(1) chain_pool.prems(3-5) r(1) hash
    show ?thesis
      by (subst balance_loop.simps) (simp add: step(1) has_own_def add.assoc)
  qed
qed

lemma getBalance_chain:
  assumes "w s = Some st" "chain (view ops st) (s_last_hash st) ps" "list_all counted ps"
    and "\<forall>t \<in> set (newest_first ps). amounts_ok t" "list_all pool_sealed ps"
    and "ps \<noteq> [] \<longrightarrow> p_hash (hd ps) = s_last_hash st" "cache_ok ps cache"
  shows "\<exists>r cache' w'. getBalance ops s addr cache w = Some (r, cache', w') \<and>
    amount_stands r (balance_of addr ps) \<and> cache_ok ps cache' \<and>
    (\<forall>a h b. map_find address_lt a cache' = Some (h, b) \<longrightarrow> h = s_last_hash st \<or> map_find address_lt a cache = Some (h, b))"
proof -
  define e where "e = (case map_find address_lt addr cache of None \<Rightarrow> (PoolHash [], amount_of_int 0) | Some e \<Rightarrow> e)"
  obtain checked cached where e: "e = (checked, cached)" by (cases e)
  let ?newer = "takeWhile (\<lambda>p. p_hash p \<noteq> checked) ps" and ?older = "dropWhile (\<lambda>p. p_hash p \<noteq> checked) ps"
  have last: "getLastHash s w = s_last_hash st"
    using assms(1) by (simp add: getLastHash_def)
  have whole: "dropWhile (\<lambda>p. p_hash p \<noteq> s_last_hash st) ps = ps"
    using assms(6) by (cases ps) auto
  have zero: "amount_stands (amount_of_int 0) 0"
    by (simp add: amount_stands_def amount_weak_def amount_val_def amount_of_int_def)
  have "balance_of addr ?older = 0" if "map_find address_lt addr cache = None"
  proof -
    have "?older = []"
      using that e assms(5) sealed_hash_nonempty by (auto simp: e_def dropWhile_eq_Nil_conv list_all_iff)
    then show ?thesis by (simp only: balance_of.simps)
  qed
  then have cached: "amount_stands cached (balance_of addr ?older)"
    using assms(7) e zero by (auto simp: e_def cache_ok_def split: option.splits)
  show ?thesis
  proof (cases "map_find address_lt addr cache \<noteq> None \<and> checked = s_last_hash st")
    case True
    then show ?thesis
      using cached whole assms(7) e last by (auto simp: getBalance_def e_def split: option.splits)
  next
    case False
    note step = load_block_step [where w = w and s = s, OF assms(1) same_view_refl, of "s_last_hash st"]
    let ?st = "snd (pool_load ops (s_last_hash st) st)"
    have "(w(s \<mapsto> ?st)) s = Some ?st"
      by simp
    from balance_loop_chain [of st "s_last_hash st" ps "w(s \<mapsto> ?st)" s ?st, OF assms(2) this step(2) assms(3,5,4) zero, of addr checked]
    obtain r w' where loop: "balance_loop ops s addr checked (view ops st (s_last_hash st)) (amount_of_int 0) (w(s \<mapsto> ?st)) =
        Some (has_own addr ?newer, r, w')" "amount_stands r (balance_of addr ?newer)"
      by auto
    define r' where "r' = (if \<not> has_own addr ?newer then amount_add_assign r cached else r)"
    have "amount_stands r' (balance_of addr (?newer @ ?older))"
      unfolding r'_def balance_of_append using loop(2) amount_add_assign_stands [OF loop(2) cached] by simp
    then have stands: "amount_stands r' (balance_of addr ps)"
      by simp
    have "getBalance ops s addr cache w = Some (r', map_assign address_lt addr (s_last_hash st, r') cache, w')"
      using False unfolding getBalance_def last e_def [symmetric] e by (auto simp: Let_def step(1) loop(1) r'_def)
    moreover have "cache_ok ps (map_assign address_lt addr (s_last_hash st, r') cache)"
      using assms(7) stands whole
      by (auto simp: cache_ok_def address_key.find_assign address_key.sorted_assign split: if_splits)
    ultimately show ?thesis
      using stands assms(7) by (auto simp: cache_ok_def address_key.find_assign split: if_splits)
  qed
qed

end

text \<open>C26: with a cache whose entries are balances of parts of the chain, the balance returned is that of the
  reference over the whole chain (exactly, when it is in range), which is what the address received
  minus what it sent if its transactions record such balances; and the new cache has such
  entries again, also when a block with a new hash is added to the chain.\<close>

theorem getBalance_cached:
  assumes "w s = Some st" "chain (view (berkeley_ops api) st) (s_last_hash st) ps"
    and "\<forall>p \<in> set ps. length (p_transactions p) < 2 ^ 32"
    and "\<forall>t \<in> set (newest_first ps). amount_ok (tr_amount t) \<and> amount_ok (tr_balance t)"
    and "ps \<noteq> [] \<longrightarrow> p_hash (hd ps) = s_last_hash st" "cache_ok ps cache"
  shows "\<exists>r cache' w'. getBalance (berkeley_ops api) s addr cache w = Some (r, cache', w') \<and>
    amount_stands r (balance_of addr ps) \<and>
    (- 2147483648000000000000000000 < balance_of addr ps \<and> balance_of addr ps < 2147483648000000000000000000 \<longrightarrow>
      amount_val r = balance_of addr ps) \<and>
    (recorded addr ps \<longrightarrow> balance_of addr ps = ledger addr ps) \<and> cache_ok ps cache' \<and>
    (\<forall>p. p_hash p \<noteq> s_last_hash st \<and> (\<forall>a h b. map_find address_lt a cache = Some (h, b) \<longrightarrow> h \<noteq> p_hash p) \<longrightarrow>
      cache_ok (p # ps) cache')"
proof -
  have ok: "\<forall>t \<in> set (newest_first ps). amounts_ok t"
    using assms(4) by (auto simp: amounts_ok_def amount_ok_def amount_weak_def)
  obtain r cache' w' where run: "getBalance (berkeley_ops api) s addr cache w = Some (r, cache', w')"
    "amount_stands r (balance_of addr ps)" "cache_ok ps cache'"
    "\<forall>a h b. map_find address_lt a cache' = Some (h, b) \<longrightarrow> h = s_last_hash st \<or> map_find address_lt a cache = Some (h, b)"
    using berkeley.getBalance_chain [of w s st, OF assms(1,2) chain_counted [OF assms(2,3)] ok chain_sealed [OF assms(2)] assms(5,6)]
    by blast
  moreover have "cache_ok (p # ps) cache'"
    if "p_hash p \<noteq> s_last_hash st" "\<forall>a h b. map_find address_lt a cache = Some (h, b) \<longrightarrow> h \<noteq> p_hash p" for p
    using that run(4) by (intro cache_ok_grow [OF run(3)]) metis
  ultimately show ?thesis
    using amount_stands_exact [OF run(2)] balance_of_ledger by blast
qed

theorem getBalance_cached_witness:
  "\<exists>r cache' w'. getBalance (berkeley_ops map_api) 0 (Address (replicate 32 2)) [] [0 \<mapsto> sample_storage] = Some (r, cache', w') \<and>
    amount_val r = 1000000000000000000"
proof -
  obtain t u where ts: "p_transactions sample_sealed = [t, u]"
    using sample_sealed_fields(3) by (auto simp: numeral_2_eq_2 length_Suc_conv)
  have bal: "balance_of (Address (replicate 32 2)) [sample_sealed] = 1000000000000000000"
    "\<forall>t \<in> set (newest_first [sample_sealed]). amount_ok (tr_amount t) \<and> amount_ok (tr_balance t)"
    unfolding sample_sealed_eq
    by (simp_all add: pool_body_def sample_pool_def pool_new_def pool_default_def update_transactions_def Let_def
      transaction_update_id_def transaction_copy_def transaction_new_def transaction_priv_def
      address_eq_def amount_of_int_def upt_rec amount_ok_def amount_val_def received_def own_def)
  have "p_hash (hd [sample_sealed]) = s_last_hash sample_storage"
    by (simp add: sample_sealed_fields(4)) (simp add: sample_storage_def)
  then have "\<exists>r cache' w'. getBalance (berkeley_ops map_api) 0 (Address (replicate 32 2)) [] [0 \<mapsto> sample_storage] = Some (r, cache', w') \<and>
      (- 2147483648000000000000000000 < balance_of (Address (replicate 32 2)) [sample_sealed] \<and>
       balance_of (Address (replicate 32 2)) [sample_sealed] < 2147483648000000000000000000 \<longrightarrow>
       amount_val r = balance_of (Address (replicate 32 2)) [sample_sealed])"
    using getBalance_cached [of "[0 \<mapsto> sample_storage]" 0 sample_storage map_api, OF _ sample_chain _ bal(2), of "[]" "Address (replicate 32 2)"]
      sample_sealed_fields(3) by (auto simp: cache_ok_def map_sorted_def)
  then show ?thesis
    unfolding bal(1) by simp
qed

subsection \<open>Writing blocks\<close>

lemma chain_cong:
  "chain load h ps \<Longrightarrow> load' h = load h \<Longrightarrow> \<forall>p \<in> set ps. load' (p_previous_hash p) = load (p_previous_hash p) \<Longrightarrow>
    chain load' h ps"
proof (induction rule: chain.induct)
  case (chain_pool load h ps)
  then have "chain load' (p_previous_hash (load h)) ps" by simp
  then show ?case
    using chain.chain_pool [of load' h ps] chain_pool.hyps(1) chain_pool.prems(1) by simp
qed (simp add: chain.chain_end)

text \<open>The block that \<open>writeLastBlock\<close> makes of a pool.\<close>

definition next_block :: "nat \<Rightarrow> 'd storage \<Rightarrow> pool \<Rightarrow> pool" where
  "next_block s st p = set_sequence (s_count_pool st) (set_previous_hash (s_last_hash st) (set_storage (Some s) p))"

lemma next_block_fields:
  assumes "\<not> p_read_only p"
  shows "p_is_valid (next_block s st p)" "\<not> p_read_only (next_block s st p)" "p_storage (next_block s st p) = Some s"
    "p_previous_hash (next_block s st p) = s_last_hash st" "p_sequence (next_block s st p) = s_count_pool st"
    "p_transactions (next_block s st p) = p_transactions p"
  using assms by (simp_all add: next_block_def set_sequence_def set_previous_hash_def set_storage_def)

lemma compose_storage [simp]: "p_storage (snd (pool_compose p)) = p_storage p"
  by (simp add: pool_compose_def priv_compose_def update_transactions_def Let_def)

abbreviation block_bytes :: "nat \<Rightarrow> 'd storage \<Rightarrow> pool \<Rightarrow> byte_array" where
  "block_bytes s st p \<equiv> put_pool (next_block s st p)"

abbreviation block_hash :: "nat \<Rightarrow> 'd storage \<Rightarrow> pool \<Rightarrow> pool_hash" where
  "block_hash s st p \<equiv> calc_from_data (block_bytes s st p)"

lemma pool_update_storage [simp]: "p_storage p = s \<Longrightarrow> p\<lparr>p_storage := s\<rparr> = p"
  by (cases p) simp

lemma writeLastBlock_enqueues:
  assumes "w s = Some st" "s_db st = Some d" "db_blocks d \<noteq> None" "\<not> p_read_only p"
    and "fst (berkeley_exists api (hash_value (block_hash s st p)) d) = False"
  shows "snd (writeLastBlock (berkeley_ops api) dflt s p w) s =
    Some (st\<lparr>s_write_queue := s_write_queue st @ [snd (pool_compose (next_block s st p))], s_last_error := StNoError\<rparr>)"
proof -
  let ?b = "next_block s st p"
  let ?c = "snd (pool_compose ?b)"
  note b = next_block_fields [OF assms(4), of s st]
  have c: "p_is_valid ?c" "p_hash ?c = block_hash s st p" "p_storage ?c = Some s" "\<not> pool_hash_is_empty (p_hash ?c)"
    using pool_compose_sealed [OF b(1,2)] b(1-3) by (simp_all add: pool_sealed_def pool_compose_def priv_compose_def)
  have open_st: "isOpen (berkeley_ops api) st"
    using assms(2,3) by (simp add: isOpen_def berkeley_ops_def berkeley_is_open_def)
  have "get_storage (berkeley_ops api) dflt w None ?c = Some s"
    using c(3) open_st assms(1) by (simp add: get_storage_def)
  moreover have "storage_pool_save (berkeley_ops api) ?c st =
      (True, st\<lparr>s_write_queue := s_write_queue st @ [?c], s_last_error := StNoError\<rparr>)"
    using assms(2,3,5) c open_st
    by (cases st) (simp add: storage_pool_save_def pool_hash_of_def Let_def berkeley_ops_def berkeley_exists_def split: if_splits)
  ultimately have "pool_save (berkeley_ops api) dflt None ?c w =
      (True, ?c, w(s \<mapsto> st\<lparr>s_write_queue := s_write_queue st @ [?c], s_last_error := StNoError\<rparr>))"
    using c assms(1) open_st by (simp add: pool_save_def Let_def)
  then show ?thesis
    using assms(1) unfolding writeLastBlock_def
    by (simp add: Let_def case_prod_beta next_block_def [symmetric])
qed

lemma write_pool_sealed:
  assumes "s_db st = Some d" "pool_sealed c"
  shows "write_pool (berkeley_ops api) c st =
    Some (st\<lparr>s_db := Some (snd (berkeley_put api (hash_value (p_hash c)) (ucast (p_sequence c)) (p_binary c) d)),
      s_count_pool := s_count_pool st + 1,
      s_last_hash := (if s_last_hash st = p_previous_hash c then p_hash c else s_last_hash st)\<rparr>)"
  using assms by (simp add: write_pool_def pool_sealed_def pool_hash_of_def Let_def berkeley_ops_def case_prod_beta)

lemma view_berkeley:
  assumes "s_db st = Some d" "berkeley_is_open d"
  shows "view (berkeley_ops api) st k =
    (if pool_hash_is_empty k then pool_default
     else case berkeley_lookup api d (hash_value k) of None \<Rightarrow> pool_default | Some data \<Rightarrow> pool_from_binary data)"
  using assms by (simp add: pool_load_result berkeley_ops_def berkeley_lookup_def)

text \<open>The tables hold the blocks under the record numbers up to the number of pools.\<close>

definition store_inv :: "('r, 'h, 'c) bdb_api \<Rightarrow> ('r, 'h) berkeley storage \<Rightarrow> bool" where
  "store_inv api st \<longleftrightarrow> s_write_queue st = [] \<and> unat (s_count_pool st) < 2 ^ 32 - 1 \<and>
     (\<exists>d seqs. s_db st = Some d \<and> db_blocks d \<noteq> None \<and> db_seq_no d = Some seqs \<and>
        (\<forall>k n. hash_get api seqs k = (0, n) \<longrightarrow> unat n \<le> unat (s_count_pool st)))"

lemma record_number:
  assumes "unat (c :: u64) < 2 ^ 32 - 1"
  shows "unat (ucast c + 1 :: u32) = Suc (unat c)"
proof -
  have "unat (ucast c :: u32) = unat c"
    using assms by (simp add: unsigned_ucast_eq take_bit_nat_eq_self)
  then show ?thesis
    using assms by (simp add: unat_word_ariths)
qed

text \<open>C3: the block that is made of a pool and written by the next round of the writer, if the database takes
  it, becomes the head of the chain: it continues the chain there was, under its own hash and with
  the next sequence number, and nothing of the chain is lost.\<close>

theorem writeLastBlock_extends_chain:
  assumes "bdb_laws api" "w s = Some st" "store_inv api st" "chain (view (berkeley_ops api) st) (s_last_hash st) ps"
    and "\<not> p_read_only p" "pool_ok (next_block s st p)"
    and "fst (berkeley_exists api (hash_value (block_hash s st p)) (the (s_db st))) = False"
    and "fst (berkeley_put api (hash_value (block_hash s st p)) (ucast (s_count_pool st)) (block_bytes s st p) (the (s_db st)))"
    and "s_last_hash st \<noteq> block_hash s st p" "\<forall>q \<in> set ps. p_previous_hash q \<noteq> block_hash s st p"
  shows "\<exists>st1 st2. snd (writeLastBlock (berkeley_ops api) dflt s p w) s = Some st1 \<and>
    write_routine (berkeley_ops api) st1 = Some st2 \<and>
    s_last_hash st2 = block_hash s st p \<and> s_count_pool st2 = s_count_pool st + 1 \<and>
    chain (view (berkeley_ops api) st2) (s_last_hash st2) (pool_from_binary (block_bytes s st p) # ps) \<and>
    p_previous_hash (pool_from_binary (block_bytes s st p)) = s_last_hash st \<and>
    p_sequence (pool_from_binary (block_bytes s st p)) = s_count_pool st"
proof -
  let ?b = "next_block s st p" and ?h = "block_hash s st p"
  let ?c = "snd (pool_compose ?b)"
  obtain d seqs where d: "s_db st = Some d" "db_blocks d \<noteq> None" "db_seq_no d = Some seqs" "s_write_queue st = []"
    and records: "unat (s_count_pool st) < 2 ^ 32 - 1" "\<forall>k n. hash_get api seqs k = (0, n) \<longrightarrow> unat n \<le> unat (s_count_pool st)"
    using assms(3) by (auto simp: store_inv_def)
  define st1 where "st1 = st\<lparr>s_write_queue := [?c], s_last_error := StNoError\<rparr>"
  define d' where "d' = snd (berkeley_put api (hash_value ?h) (ucast (s_count_pool st)) (block_bytes s st p) d)"
  define st2 where "st2 = st1\<lparr>s_db := Some d', s_count_pool := s_count_pool st + 1, s_last_hash := ?h, s_write_queue := []\<rparr>"
  note b = next_block_fields [OF assms(5), of s st]
  have c: "pool_sealed ?c" "p_binary ?c = block_bytes s st p" "p_hash ?c = ?h"
    using pool_compose_sealed [OF b(1,2)] by (simp_all add: pool_sealed_def)
  have enq: "snd (writeLastBlock (berkeley_ops api) dflt s p w) s = Some st1"
    using writeLastBlock_enqueues [of w s st, OF assms(2) d(1,2) assms(5)] assms(7) d(1,4) by (simp add: st1_def)
  have "s_db st1 = Some d"
    by (simp add: st1_def d(1))
  from write_pool_sealed [OF this c(1), of api] have run: "write_routine (berkeley_ops api) st1 = Some st2"
    by (simp add: write_routine_def st1_def st2_def d'_def c b)
  have put: "berkeley_put api (hash_value ?h) (ucast (s_count_pool st)) (block_bytes s st p) d = (True, d')"
    using assms(8) d(1) by (simp add: d'_def prod_eq_iff)
  note stored = berkeley_put_lookup [OF assms(1) put d(3)]
  have views: "view (berkeley_ops api) st2 k =
      (if k = ?h then pool_from_binary (block_bytes s st p) else view (berkeley_ops api) st k)" for k
  proof (cases "k = ?h")
    case True
    then show ?thesis
      using view_berkeley [of st2 d' api k] stored by (simp add: st2_def)
  next
    case False
    have "n \<noteq> ucast (s_count_pool st) + 1" if "hash_get api seqs (hash_value k) = (0, n)" for n
      using that records record_number [OF records(1)] by fastforce
    moreover have "hash_value k \<noteq> hash_value ?h"
      using False by (auto dest: pool_hash.expand)
    ultimately have "berkeley_lookup api d' (hash_value k) = berkeley_lookup api d (hash_value k)"
      using berkeley_put_others [OF assms(1) put d(3)] by blast
    then show ?thesis
      using False view_berkeley [of st2 d' api k] view_berkeley [of st d api k] stored(2) d(1,2)
      by (simp add: st2_def berkeley_is_open_def)
  qed
  have block: "pool_from_binary (block_bytes s st p) = ?c\<lparr>p_storage := None, p_transactionsCount := of_nat (length (p_transactions ?b))\<rparr>"
    using from_binary_compose [OF assms(6) b(1,2)] c(2) by simp
  have valid: "p_is_valid (pool_from_binary (block_bytes s st p))" "p_previous_hash (pool_from_binary (block_bytes s st p)) = s_last_hash st"
    "p_sequence (pool_from_binary (block_bytes s st p)) = s_count_pool st"
    unfolding block using b by (simp_all add: pool_compose_def priv_compose_def)
  have "chain (view (berkeley_ops api) st2) (s_last_hash st) ps"
    using assms(9,10) views by (intro chain_cong [OF assms(4)]) simp_all
  then have "chain (view (berkeley_ops api) st2) ?h (view (berkeley_ops api) st2 ?h # ps)"
    using valid by (intro chain.chain_pool) (simp_all add: views)
  then have "chain (view (berkeley_ops api) st2) (s_last_hash st2) (pool_from_binary (block_bytes s st p) # ps)"
    by (simp add: views) (simp add: st2_def)
  then show ?thesis
    using enq run valid(2,3) by (intro exI [of _ st1] exI [of _ st2]) (simp add: st2_def)
qed

text \<open>C25: if two blocks are handed in before the writer's next round, both get the same previous hash and
  sequence number: the last hash moves to the first of them, and loading it gives the second.\<close>

theorem writeLastBlock_race:
  assumes "bdb_laws api" "w s = Some st" "store_inv api st" "\<not> p_read_only p" "\<not> p_read_only q"
    and "fst (berkeley_exists api (hash_value (block_hash s st p)) (the (s_db st))) = False"
    and "fst (berkeley_exists api (hash_value (block_hash s st q)) (the (s_db st))) = False"
    and "s_last_hash st \<noteq> block_hash s st p"
    and "berkeley_put api (hash_value (block_hash s st p)) (ucast (s_count_pool st)) (block_bytes s st p) (the (s_db st)) = (True, d1)"
    and "berkeley_put api (hash_value (block_hash s st q)) (ucast (s_count_pool st)) (block_bytes s st q) d1 = (True, d2)"
  shows "\<exists>st1 st2. snd (writeLastBlock (berkeley_ops api) dflt s q (snd (writeLastBlock (berkeley_ops api) dflt s p w))) s = Some st1 \<and>
    write_routine (berkeley_ops api) st1 = Some st2 \<and>
    s_count_pool st2 = s_count_pool st + 2 \<and> s_last_hash st2 = block_hash s st p \<and>
    fst (pool_load (berkeley_ops api) (s_last_hash st2) st2) = pool_from_binary (block_bytes s st q)"
proof -
  let ?c1 = "snd (pool_compose (next_block s st p))" and ?c2 = "snd (pool_compose (next_block s st q))"
  obtain d seqs where d: "s_db st = Some d" "db_blocks d \<noteq> None" "db_seq_no d = Some seqs" "s_write_queue st = []"
    using assms(3) by (auto simp: store_inv_def)
  define w1 where "w1 = snd (writeLastBlock (berkeley_ops api) dflt s p w)"
  define st1 where "st1 = st\<lparr>s_write_queue := [?c1], s_last_error := StNoError\<rparr>"
  define st2 where "st2 = st\<lparr>s_write_queue := [?c1, ?c2], s_last_error := StNoError\<rparr>"
  define st3 where "st3 = st2\<lparr>s_db := Some d2, s_count_pool := s_count_pool st + 2, s_last_hash := block_hash s st p, s_write_queue := []\<rparr>"
  have w1: "w1 s = Some st1"
    using writeLastBlock_enqueues [of w s st, OF assms(2) d(1,2) assms(4)] assms(6) d(1,4) by (simp add: w1_def st1_def)
  have same: "next_block s st1 q = next_block s st q"
    by (simp add: next_block_def st1_def)
  have "s_db st1 = Some d"
    by (simp add: st1_def d(1))
  from writeLastBlock_enqueues [of w1 s st1, OF w1 this d(2) assms(5)] assms(7) d(1)
  have enq: "snd (writeLastBlock (berkeley_ops api) dflt s q w1) s = Some st2"
    by (simp add: same) (simp add: st1_def st2_def)
  have c: "pool_sealed ?c1" "p_binary ?c1 = block_bytes s st p" "p_hash ?c1 = block_hash s st p"
    "pool_sealed ?c2" "p_binary ?c2 = block_bytes s st q" "p_hash ?c2 = block_hash s st q"
    using pool_compose_sealed [OF next_block_fields(1,2) [OF assms(4)], of s st]
      pool_compose_sealed [OF next_block_fields(1,2) [OF assms(5)], of s st] by (simp_all add: pool_sealed_def)
  have "write_pool (berkeley_ops api) ?c1 st2 =
      Some (st2\<lparr>s_db := Some d1, s_count_pool := s_count_pool st + 1, s_last_hash := block_hash s st p\<rparr>)"
    using write_pool_sealed [of st2 d, OF _ c(1), of api] assms(9) d(1) c(2,3) next_block_fields [OF assms(4), of s st]
    by (simp add: st2_def)
  moreover have "write_pool (berkeley_ops api) ?c2
      (st2\<lparr>s_db := Some d1, s_count_pool := s_count_pool st + 1, s_last_hash := block_hash s st p, s_write_queue := [?c2]\<rparr>) =
      Some (st2\<lparr>s_db := Some d2, s_count_pool := s_count_pool st + 2, s_last_hash := block_hash s st p, s_write_queue := [?c2]\<rparr>)"
    using write_pool_sealed [OF _ c(4), of _ d1 api] assms(8,10) c(5,6) next_block_fields [OF assms(5), of s st]
    by (auto simp: add.assoc)
  ultimately have run: "write_routine (berkeley_ops api) st2 = Some st3"
    by (simp add: write_routine_def st3_def) (simp add: st2_def)
  have "berkeley_lookup api d2 (hash_value (block_hash s st p)) = Some (block_bytes s st q)" "berkeley_is_open d2"
    using berkeley_put_same_record [OF assms(1) _ d(3) assms(10)] assms(9) d(1) by auto
  then have "view (berkeley_ops api) st3 (s_last_hash st3) = pool_from_binary (block_bytes s st q)"
    using view_berkeley [of st3 d2 api] by (simp add: st3_def)
  then show ?thesis
    using enq run w1_def by (intro exI [of _ st2] exI [of _ st3]) (simp add: st3_def)
qed

lemma calc_not_empty: "PoolHash [] \<noteq> calc_from_data d"
  using calc_from_data_nonempty [of d] by (metis pool_hash.sel pool_hash_is_empty_def)

lemma map_api_put:
  "berkeley_put map_api k n v \<lparr>db_blocks = Some r, db_seq_no = Some h, db_last_error = e\<rparr> =
    (True, \<lparr>db_blocks = Some (r(n + 1 \<mapsto> v)), db_seq_no = Some (h(k \<mapsto> n + 1)), db_last_error = DbNoError\<rparr>)"
  by (simp add: berkeley_put_def map_api_def)

lemma empty_storage_open:
  "[0 \<mapsto> empty_storage] 0 = Some empty_storage" "store_inv map_api empty_storage"
  "chain (view (berkeley_ops map_api) empty_storage) (s_last_hash empty_storage) []"
  "s_last_hash empty_storage = PoolHash []" "s_count_pool empty_storage = 0"
  "fst (berkeley_exists map_api k (the (s_db empty_storage))) = False"
  "fst (berkeley_put map_api k n v (the (s_db empty_storage)))"
proof -
  show "chain (view (berkeley_ops map_api) empty_storage) (s_last_hash empty_storage) []"
    by (rule chain_end) (simp add: pool_load_result empty_storage_def storage_default_def pool_hash_is_empty_def
        berkeley_ops_def pool_default_def)
qed (simp_all add: store_inv_def empty_storage_def storage_default_def map_api_def berkeley_exists_def berkeley_put_def)

theorem writeLastBlock_extends_chain_witness:
  "\<exists>st1 st2. snd (writeLastBlock (berkeley_ops map_api) None 0 (pool_new (PoolHash []) 0 None) [0 \<mapsto> empty_storage]) 0 = Some st1 \<and>
    write_routine (berkeley_ops map_api) st1 = Some st2 \<and> s_count_pool st2 = 1 \<and>
    (\<exists>p. chain (view (berkeley_ops map_api) st2) (s_last_hash st2) [p])"
proof -
  let ?p = "pool_new (PoolHash []) 0 None"
  have "pool_ok (next_block 0 empty_storage ?p)" "\<not> p_read_only ?p"
    by (simp_all add: next_block_def set_sequence_def set_previous_hash_def set_storage_def pool_new_def pool_default_def
        pool_ok_def map_ok_def empty_storage_open(4))
  then show ?thesis
    using writeLastBlock_extends_chain [of map_api "[0 \<mapsto> empty_storage]" 0 empty_storage, OF map_api_laws empty_storage_open(1-3), of ?p None]
    by (auto simp: empty_storage_open(4-7) calc_not_empty)
qed

theorem writeLastBlock_race_witness:
  "\<exists>st1 st2. snd (writeLastBlock (berkeley_ops map_api) None 0 (pool_new (PoolHash []) 0 None)
      (snd (writeLastBlock (berkeley_ops map_api) None 0 sample_pool [0 \<mapsto> empty_storage]))) 0 = Some st1 \<and>
    write_routine (berkeley_ops map_api) st1 = Some st2 \<and> s_count_pool st2 = 2 \<and>
    s_last_hash st2 = block_hash 0 empty_storage sample_pool \<and>
    fst (pool_load (berkeley_ops map_api) (s_last_hash st2) st2) =
      pool_from_binary (block_bytes 0 empty_storage (pool_new (PoolHash []) 0 None))"
proof -
  let ?p = "pool_new (PoolHash []) 0 None"
  have "\<not> p_read_only ?p" "\<not> p_read_only sample_pool"
    by (simp_all add: sample_pool_def pool_new_def pool_default_def)
  moreover have "s_db empty_storage = Some \<lparr>db_blocks = Some Map.empty, db_seq_no = Some Map.empty, db_last_error = DbNoError\<rparr>"
    by (simp add: empty_storage_def)
  ultimately show ?thesis
    using writeLastBlock_race [of map_api "[0 \<mapsto> empty_storage]" 0 empty_storage sample_pool ?p,
        OF map_api_laws empty_storage_open(1,2) _ _ empty_storage_open(6) empty_storage_open(6)]
    by (simp add: empty_storage_open(4,5) calc_not_empty map_api_put)
qed

end
