(* ===== verification/KeyRings.thy ===== *)
theory KeyRings
  imports Prelude
begin

text \<open>
  The bounded tables of \<open>net/include/net/Structures.hpp\<close> that throw out their oldest key when they are
  full: \<open>CircularMap\<close>, which counts how often a key came, and \<open>NodesRing\<close>, the known endpoints.
  Both move their queue of keys by \<open>ring_push\<close>; the locale \<open>evicting\<close> states this contract, and what
  it gives (distinct keys, bounded length, which keys are still known) is proved once.  The hash
  tables are maps; \<open>Capacity\<close> is positive in every instance.
\<close>

subsection \<open>The queue of keys\<close>

definition ring_push :: "nat \<Rightarrow> 'k \<Rightarrow> 'k list \<Rightarrow> 'k list" where
  "ring_push cap k q = (if k \<in> set q then q else (if length q = cap then tl q else q) @ [k])"

lemma ring_push_distinct: "distinct q \<Longrightarrow> distinct (ring_push cap k q)"
  by (cases q) (auto simp: ring_push_def)

lemma ring_push_length: "0 < cap \<Longrightarrow> length q \<le> cap \<Longrightarrow> length (ring_push cap k q) \<le> cap"
  by (auto simp: ring_push_def)

lemma ring_push_member: "k \<in> set (ring_push cap k q)"
  by (simp add: ring_push_def)

lemma ring_push_subset: "set (ring_push cap k q) \<subseteq> insert k (set q)"
  by (cases q) (auto simp: ring_push_def)

text \<open>A key stays as long as the keys behind it and the new keys that come are fewer than the capacity.\<close>

lemma ring_push_behind:
  assumes "q = older @ k # newer" "distinct q" "length q \<le> cap" "j \<noteq> k \<or> k \<in> set q"
    and "length newer + (if j \<in> set q then 0 else 1) < cap"
  shows "\<exists>older'. ring_push cap j q = older' @ k # (if j \<in> set q then newer else newer @ [j])"
proof (cases older)
  case Nil
  then show ?thesis
    using assms by (auto simp: ring_push_def split: if_splits)
next
  case (Cons a as)
  then show ?thesis
    using assms by (auto simp: ring_push_def)
qed

text \<open>The new keys of a sequence of pushes: those that were not known when they came.\<close>

primrec ring_pushes :: "nat \<Rightarrow> 'k list \<Rightarrow> 'k list \<Rightarrow> 'k list" where
  "ring_pushes cap [] q = q"
| "ring_pushes cap (k # ks) q = ring_pushes cap ks (ring_push cap k q)"

lemma ring_pushes_inv:
  "0 < cap \<Longrightarrow> distinct q \<Longrightarrow> length q \<le> cap \<Longrightarrow> distinct (ring_pushes cap ks q) \<and> length (ring_pushes cap ks q) \<le> cap"
  by (induction ks arbitrary: q) (simp_all add: ring_push_distinct ring_push_length)

lemma ring_pushes_keep:
  "q = older @ k # newer \<Longrightarrow> distinct q \<Longrightarrow> 0 < cap \<Longrightarrow> length q \<le> cap \<Longrightarrow>
    card (set newer \<union> (set ks - {k})) < cap \<Longrightarrow> k \<in> set (ring_pushes cap ks q)"
proof (induction ks arbitrary: q older newer)
  case (Cons j ks)
  let ?newer = "if j \<in> set q then newer else newer @ [j]"
  have fin: "finite (set newer \<union> (set (j # ks) - {k}))" by simp
  have "card (set newer) = length newer"
    using Cons.prems(1,2) by (simp add: distinct_card)
  moreover have "set ?newer \<union> (set ks - {k}) \<subseteq> set newer \<union> (set (j # ks) - {k})"
    using Cons.prems(1) by auto
  moreover have "length newer + (if j \<in> set q then 0 else 1) \<le> card (set newer \<union> (set (j # ks) - {k}))"
  proof (cases "j \<in> set q")
    case True
    then show ?thesis
      using card_mono [OF fin, of "set newer"] calculation(1) by auto
  next
    case False
    then have "card (insert j (set newer)) = Suc (length newer)"
      using Cons.prems(1) calculation(1) by auto
    moreover have "insert j (set newer) \<subseteq> set newer \<union> (set (j # ks) - {k})"
      using False Cons.prems(1) by auto
    ultimately show ?thesis
      using card_mono [OF fin, of "insert j (set newer)"] False by auto
  qed
  ultimately have small: "length newer + (if j \<in> set q then 0 else 1) < cap" "card (set ?newer \<union> (set ks - {k})) < cap"
    using Cons.prems(5) card_mono [OF fin] by (force, meson fin card_mono le_less_trans)
  have "j \<noteq> k \<or> k \<in> set q"
    using Cons.prems(1) by simp
  from ring_push_behind [OF Cons.prems(1,2,4) this small(1)] obtain older'
    where "ring_push cap j q = older' @ k # ?newer" by blast
  from Cons.IH [OF this ring_push_distinct [OF Cons.prems(2)] Cons.prems(3) ring_push_length [OF Cons.prems(3,4)] small(2)]
  show ?case by simp
qed simp

subsection \<open>The contract of an evicting table\<close>

locale evicting =
  fixes cap :: nat and push :: "'k \<Rightarrow> 's \<Rightarrow> 's" and keys :: "'s \<Rightarrow> 'k list" and inv :: "'s \<Rightarrow> bool"
  assumes cap_pos: "0 < cap"
    and inv_keys: "inv s \<Longrightarrow> distinct (keys s) \<and> length (keys s) \<le> cap"
    and push_inv: "inv s \<Longrightarrow> inv (push k s)"
    and push_keys: "inv s \<Longrightarrow> keys (push k s) = ring_push cap k (keys s)"
begin

lemma fold_push: "inv s \<Longrightarrow> inv (fold push ks s) \<and> keys (fold push ks s) = ring_pushes cap ks (keys s)"
  by (induction ks arbitrary: s) (simp_all add: push_inv push_keys)

lemma bounded: "inv s \<Longrightarrow> length (keys (fold push ks s)) \<le> cap"
  using fold_push inv_keys by blast

lemma pushed_known: "inv s \<Longrightarrow> k \<in> set (keys (push k s))"
  by (simp add: push_keys ring_push_member)

text \<open>A key that was new is known until as many other keys as the table holds have come.\<close>

lemma known_within_window:
  assumes "inv s" "k \<notin> set (keys s)" "card (set ks - {k}) < cap"
  shows "k \<in> set (keys (fold push ks (push k s)))"
proof -
  obtain older where "keys (push k s) = older @ k # []"
    using assms(1,2) by (auto simp: push_keys ring_push_def)
  moreover have "inv (push k s)"
    using assms(1) by (rule push_inv)
  ultimately show ?thesis
    using ring_pushes_keep [of "keys (push k s)" older k "[]" cap ks] inv_keys [of "push k s"] cap_pos assms(3)
      fold_push [of "push k s" ks] by simp
qed

end

subsection \<open>CircularMap\<close>

record 'k circular_map =
  cm_map :: "'k \<rightharpoonup> u32"
  cm_queue :: "'k list"

definition circular_map_new :: "'k circular_map" where
  "circular_map_new = \<lparr>cm_map = Map.empty, cm_queue = []\<rparr>"

definition pushAndIncrease :: "nat \<Rightarrow> 'k \<Rightarrow> 'k circular_map \<Rightarrow> u32 \<times> 'k circular_map" where
  "pushAndIncrease Capacity key m =
     (case cm_map m key of
        None \<Rightarrow>
          (let m = (if length (cm_queue m) = Capacity
                    then \<lparr>cm_map = (cm_map m)(hd (cm_queue m) := None), cm_queue = tl (cm_queue m)\<rparr> else m)
           in (1, \<lparr>cm_map = (cm_map m)(key \<mapsto> 1), cm_queue = cm_queue m @ [key]\<rparr>))
      | Some v \<Rightarrow> (v + 1, m\<lparr>cm_map := (cm_map m)(key \<mapsto> v + 1)\<rparr>))"

definition circular_map_inv :: "nat \<Rightarrow> 'k circular_map \<Rightarrow> bool" where
  "circular_map_inv cap m \<longleftrightarrow> distinct (cm_queue m) \<and> length (cm_queue m) \<le> cap \<and> dom (cm_map m) = set (cm_queue m)"

lemma circular_map_known: "circular_map_inv cap m \<Longrightarrow> cm_map m k = None \<longleftrightarrow> k \<notin> set (cm_queue m)"
  by (auto simp: circular_map_inv_def)

lemma push_queue:
  "circular_map_inv cap m \<Longrightarrow> cm_queue (snd (pushAndIncrease cap k m)) = ring_push cap k (cm_queue m)"
  using circular_map_known [of cap m k] by (auto simp: pushAndIncrease_def ring_push_def Let_def split: option.splits)

lemma push_map:
  assumes "circular_map_inv cap m" "0 < cap"
  shows "cm_map (snd (pushAndIncrease cap k m)) j =
    (if j = k then Some (case cm_map m k of None \<Rightarrow> 1 | Some v \<Rightarrow> v + 1)
     else if j \<in> set (ring_push cap k (cm_queue m)) then cm_map m j else None)"
proof -
  have "cm_map m k = None \<Longrightarrow> k \<notin> set (cm_queue m)" "\<And>v. cm_map m k = Some v \<Longrightarrow> k \<in> set (cm_queue m)"
    "j \<notin> set (cm_queue m) \<Longrightarrow> cm_map m j = None" "distinct (cm_queue m)"
    using assms by (auto simp: circular_map_inv_def)
  then show ?thesis
    using assms(2) by (cases "cm_queue m") (auto simp: pushAndIncrease_def ring_push_def Let_def split: option.splits)
qed

lemma push_circular_inv:
  assumes "circular_map_inv cap m" "0 < cap"
  shows "circular_map_inv cap (snd (pushAndIncrease cap k m))"
proof -
  have "cm_map (snd (pushAndIncrease cap k m)) j \<noteq> None \<longleftrightarrow> j \<in> set (ring_push cap k (cm_queue m))" for j
    using push_map [OF assms, of k j] ring_push_member [of k cap] ring_push_subset [of cap k "cm_queue m"]
      circular_map_known [OF assms(1), of j] by auto
  then have "dom (cm_map (snd (pushAndIncrease cap k m))) = set (ring_push cap k (cm_queue m))"
    by (simp add: dom_def)
  then show ?thesis
    using assms push_queue [OF assms(1)]
    by (simp add: circular_map_inv_def ring_push_distinct ring_push_length)
qed

abbreviation push_key :: "nat \<Rightarrow> 'k \<Rightarrow> 'k circular_map \<Rightarrow> 'k circular_map" where
  "push_key cap k m \<equiv> snd (pushAndIncrease cap k m)"

lemma circular_map_evicting: "0 < cap \<Longrightarrow> evicting cap (push_key cap) cm_queue (circular_map_inv cap)"
  by unfold_locales (simp_all add: push_queue push_circular_inv, simp_all add: circular_map_inv_def)

text \<open>The table of the node for packets it has seen.\<close>

interpretation back_data: evicting 50000 "push_key 50000" cm_queue "circular_map_inv 50000"
  by (rule circular_map_evicting) simp

lemma count_while_known:
  assumes "0 < cap" "circular_map_inv cap m" "k \<notin> set (cm_queue m)"
  shows "card (set ks - {k}) < cap \<Longrightarrow>
    cm_map (fold (push_key cap) ks (push_key cap k m)) k = Some (of_nat (Suc (count_list ks k)))"
proof (induction ks rule: rev_induct)
  case Nil
  have "cm_map m k = None"
    using circular_map_known [OF assms(2)] assms(3) by simp
  then show ?case
    using push_map [OF assms(2,1), of k k] by simp
next
  case (snoc j ks)
  note ev = circular_map_evicting [OF assms(1)]
  let ?m = "fold (push_key cap) ks (push_key cap k m)"
  have less: "card (set ks - {k}) < cap"
    using snoc.prems by (auto elim!: le_less_trans [OF card_mono, rotated 2])
  have inv: "circular_map_inv cap ?m"
    using evicting.fold_push [OF ev] evicting.push_inv [OF ev assms(2)] by blast
  have "k \<in> set (cm_queue (push_key cap j ?m))"
    using evicting.known_within_window [OF ev assms(2,3), of "ks @ [j]"] snoc.prems by simp
  then have "k \<in> set (ring_push cap j (cm_queue ?m))"
    by (simp add: push_queue [OF inv])
  then show ?case
    using push_map [OF inv assms(1), of j k] snoc.IH [OF less] by (auto simp: add.commute)
qed

text \<open>The counter of a key that is new starts at one, and it counts every further time the key comes,
  for as long as fewer other keys have come than the table holds.\<close>

theorem circular_map_counts:
  assumes "0 < cap" "circular_map_inv cap m" "k \<notin> set (cm_queue m)" "card (set ks - {k}) < cap"
  shows "fst (pushAndIncrease cap k m) = 1 \<and>
    fst (pushAndIncrease cap k (fold (push_key cap) ks (push_key cap k m))) = of_nat (count_list ks k + 2) \<and>
    circular_map_inv cap (fold (push_key cap) ks (push_key cap k m))"
proof -
  note ev = circular_map_evicting [OF assms(1)]
  have "circular_map_inv cap (fold (push_key cap) ks (push_key cap k m))"
    using evicting.fold_push [OF ev] evicting.push_inv [OF ev assms(2)] by blast
  moreover have "cm_map m k = None"
    using circular_map_known [OF assms(2)] assms(3) by simp
  ultimately show ?thesis
    using count_while_known [OF assms] by (simp add: pushAndIncrease_def Let_def)
qed

theorem circular_map_counts_witness:
  "fst (pushAndIncrease 2 7 (fold (push_key 2) [7, 8, 8] (push_key 2 (7 :: nat) circular_map_new))) = 3"
  using circular_map_counts [of 2 circular_map_new "7 :: nat" "[7, 8, 8]"]
  by (simp add: circular_map_inv_def circular_map_new_def)

subsection \<open>NodesRing\<close>

record 'e nodes_ring =
  nr_nodes :: "'e set"
  nr_endpoints :: "'e list"

definition nodes_ring_new :: "'e nodes_ring" where
  "nodes_ring_new = \<lparr>nr_nodes = {}, nr_endpoints = []\<rparr>"

definition ring_place :: "nat \<Rightarrow> 'e \<Rightarrow> 'e nodes_ring \<Rightarrow> bool \<times> 'e nodes_ring" where
  "ring_place Capacity ep r =
     (if ep \<notin> nr_nodes r
      then (let r = (if length (nr_endpoints r) = Capacity
                     then \<lparr>nr_nodes = nr_nodes r - {hd (nr_endpoints r)}, nr_endpoints = tl (nr_endpoints r)\<rparr> else r)
            in (True, \<lparr>nr_nodes = insert ep (nr_nodes r), nr_endpoints = nr_endpoints r @ [ep]\<rparr>))
      else (False, r))"

definition nodes_ring_inv :: "nat \<Rightarrow> 'e nodes_ring \<Rightarrow> bool" where
  "nodes_ring_inv cap r \<longleftrightarrow> distinct (nr_endpoints r) \<and> length (nr_endpoints r) \<le> cap \<and> nr_nodes r = set (nr_endpoints r)"

interpretation known_nodes: evicting 500 "\<lambda>ep r. snd (ring_place 500 ep r)" nr_endpoints "nodes_ring_inv 500"
proof
  fix r :: "'e nodes_ring" and ep
  assume inv: "nodes_ring_inv 500 r"
  show keys: "nr_endpoints (snd (ring_place 500 ep r)) = ring_push 500 ep (nr_endpoints r)"
    using inv by (auto simp: ring_place_def ring_push_def nodes_ring_inv_def Let_def)
  have "nr_nodes (snd (ring_place 500 ep r)) = set (ring_push 500 ep (nr_endpoints r))"
    using inv by (cases "nr_endpoints r") (auto simp: ring_place_def ring_push_def nodes_ring_inv_def Let_def)
  then show "nodes_ring_inv 500 (snd (ring_place 500 ep r))"
    using inv keys by (simp add: nodes_ring_inv_def ring_push_distinct ring_push_length)
qed (simp_all add: nodes_ring_inv_def)

end
