(* ===== verification/Packets.thy ===== *)
theory Packets
  imports KeyRings Blake2s Streams
begin

text \<open>
  Packets of the transport (\<open>net/include/net/Packet.hpp\<close>): their fields, the reference-counted
  pointers \<open>PacketPtr\<close> with the memory pages of \<open>PacketManager\<close>, and the numbering of messages by
  \<open>MessageHasher\<close>.  The pointers are modelled with an explicit heap: a counter per packet and what
  each pointer variable holds.  \<open>packet_step\<close> are the operations on pointers, and
  \<open>packet_inv\<close> relates the counters to the variables.
\<close>

subsection \<open>Packets and their bytes\<close>

abbreviation (input) hash_length :: nat where "hash_length \<equiv> 40"
abbreviation (input) publicKey_length :: nat where "publicKey_length \<equiv> 32"
abbreviation (input) max_length :: nat where "max_length \<equiv> 62440"

record packet =
  pk_command :: u8
  pk_subcommand :: u8
  pk_version :: u8
  pk_origin_ip :: u32
  pk_hash :: byte_array
  pk_publicKey :: byte_array
  pk_HashBlock :: byte_array
  pk_header :: u16
  pk_countHeader :: u16
  pk_data :: byte_array

definition packet_ok :: "packet \<Rightarrow> bool" where
  "packet_ok p \<longleftrightarrow> length (pk_hash p) = hash_length \<and> length (pk_publicKey p) = publicKey_length \<and>
     length (pk_HashBlock p) = hash_length \<and> length (pk_data p) = max_length"

definition headerLength :: nat where
  "headerLength = 1 + 1 + 1 + 4 + hash_length + publicKey_length + hash_length + 2 + 2"

text \<open>The packed layout of the structure, and the structure a socket has filled with bytes.\<close>

definition header_bytes :: "packet \<Rightarrow> byte_array" where
  "header_bytes p =
     [pk_command p, pk_subcommand p, pk_version p] @ put_int (pk_origin_ip p) @ pk_hash p @ pk_publicKey p @ pk_HashBlock p @
     put_int (pk_header p) @ put_int (pk_countHeader p)"

definition packet_bytes :: "packet \<Rightarrow> byte_array" where
  "packet_bytes p = header_bytes p @ pk_data p"

definition packet_of_bytes :: "byte_array \<Rightarrow> packet" where
  "packet_of_bytes bs =
     \<lparr>pk_command = bs ! 0, pk_subcommand = bs ! 1, pk_version = bs ! 2, pk_origin_ip = le_word (take 4 (drop 3 bs)),
      pk_hash = take hash_length (drop 7 bs), pk_publicKey = take publicKey_length (drop 47 bs),
      pk_HashBlock = take hash_length (drop 79 bs), pk_header = le_word (take 2 (drop 119 bs)),
      pk_countHeader = le_word (take 2 (drop 121 bs)), pk_data = drop 123 bs\<rparr>"

definition receive_into :: "packet \<Rightarrow> byte_array \<Rightarrow> packet" where
  "receive_into old bs = packet_of_bytes (memcpy_at (packet_bytes old) 0 bs)"

lemma length_header_bytes: "packet_ok p \<Longrightarrow> length (header_bytes p) = headerLength"
  by (simp add: header_bytes_def packet_ok_def headerLength_def put_int_def)

lemma header_bytes_data [simp]: "header_bytes (p\<lparr>pk_data := d\<rparr>) = header_bytes p"
  by (simp add: header_bytes_def)

lemma packet_of_bytes:
  assumes "packet_ok p"
  shows "packet_of_bytes (header_bytes p @ d) = p\<lparr>pk_data := d\<rparr>"
  using assms by (cases p) (simp add: packet_ok_def packet_of_bytes_def header_bytes_def put_int_def le_word_le_bytes)

text \<open>A packet of which the header and \<open>n\<close> bytes of data arrive over one of earlier: its fields and
  these bytes, followed by what the earlier packet left.\<close>

lemma receive_into_sent:
  assumes "packet_ok p" "packet_ok old" "n \<le> max_length"
  shows "receive_into old (take (headerLength + n) (packet_bytes p)) = p\<lparr>pk_data := take n (pk_data p) @ drop n (pk_data old)\<rparr>"
proof -
  have "take (headerLength + n) (packet_bytes p) = header_bytes p @ take n (pk_data p)"
    using length_header_bytes [OF assms(1)] by (simp add: packet_bytes_def)
  moreover have "length (take n (pk_data p)) = n"
    using assms by (simp add: packet_ok_def)
  ultimately have "memcpy_at (packet_bytes old) 0 (take (headerLength + n) (packet_bytes p)) =
      header_bytes p @ take n (pk_data p) @ drop n (pk_data old)"
    using length_header_bytes [OF assms(1)] length_header_bytes [OF assms(2)] by (simp add: memcpy_at_def packet_bytes_def)
  then show ?thesis
    by (simp only: receive_into_def packet_of_bytes [OF assms(1)])
qed

subsection \<open>MessageHasher and the hash of a key\<close>

text \<open>\<open>blake2s\<close> called on a destination inside an array; a refused call leaves it as it is.\<close>

definition blake2s_into :: "byte_array \<Rightarrow> nat \<Rightarrow> nat \<Rightarrow> byte_array \<Rightarrow> byte_array" where
  "blake2s_into dst off outlen inp = (case blake2s outlen inp [] of None \<Rightarrow> dst | Some h \<Rightarrow> memcpy_at dst off h)"

definition hasher_init :: "byte_array \<Rightarrow> byte_array \<Rightarrow> byte_array" where
  "hasher_init publicKey internal = memcpy_at (memcpy_at internal 0 (replicate 32 0)) 32 publicKey"

definition nextHash :: "nat \<Rightarrow> byte_array \<Rightarrow> byte_array \<Rightarrow> byte_array \<Rightarrow> byte_array \<times> byte_array" where
  "nextHash HashSize data out internal =
     (let internal = blake2s_into internal (32 + publicKey_length) HashSize data;
          out = memcpy_at out 0 (replicate (hash_length - HashSize) 0);
          out = blake2s_into out (hash_length - HashSize) HashSize internal
      in (out, memcpy_at internal 0 (store32 (load32 internal + 1))))"

definition hash_of_Hash :: "byte_array \<Rightarrow> u64" where
  "hash_of_Hash str = fold (\<lambda>c result. (result XOR scast c) * 1099511628211) (take hash_length str) 14695981039346656037"

lemma length_store32 [simp]: "length (store32 w) = 4"
  by (simp add: store32_def)

lemma load32_store32: "load32 (store32 w @ bs) = w"
proof (rule bit_word_eqI)
  fix i assume "i < LENGTH(32)"
  then show "bit (load32 (store32 w @ bs)) i \<longleftrightarrow> bit w i"
    by (cases "i < 24"; cases "i < 16") (auto simp: load32_def store32_def bit_simps)
qed

lemma blake2s_into_Some: "blake2s n inp [] = Some h \<Longrightarrow> blake2s_into dst off n inp = memcpy_at dst off h"
  by (simp add: blake2s_into_def)

text \<open>The number a hasher is at, and its state.\<close>

definition hasher_inv :: "byte_array \<Rightarrow> nat \<Rightarrow> byte_array \<Rightarrow> bool" where
  "hasher_inv publicKey n internal \<longleftrightarrow>
     (\<exists>h. length h = 32 \<and> internal = store32 (of_nat n) @ replicate 28 0 @ publicKey @ h)"

lemma hasher_init_inv:
  assumes "length publicKey = publicKey_length" "length internal = 96"
  shows "hasher_inv publicKey 0 (hasher_init publicKey internal)"
  unfolding hasher_inv_def
  using assms by (intro exI [of _ "drop 64 internal"]) (simp add: hasher_init_def memcpy_at_def store32_def eval_nat_numeral)

text \<open>What a message's number is hashed from: the counter, the key of the sender and the digest of the data.\<close>

lemma nextHash_spec:
  assumes "hasher_inv publicKey n internal" "length publicKey = publicKey_length" "length out = hash_length"
    "blake2s 32 data [] = Some d"
  shows "\<exists>h. blake2s 32 (store32 (of_nat n) @ replicate 28 0 @ publicKey @ d) [] = Some h \<and> length h = 32 \<and>
      fst (nextHash 32 data out internal) = replicate 8 0 @ h"
    "hasher_inv publicKey (Suc n) (snd (nextHash 32 data out internal))"
proof -
  let ?internal = "store32 (of_nat n) @ replicate 28 0 @ publicKey @ d"
  have d: "length d = 32"
    using blake2s_total [of 32 data] assms(4) by simp
  have mem: "blake2s_into internal 64 32 data = ?internal"
    using assms d by (auto simp: hasher_inv_def blake2s_into_def memcpy_at_def)
  obtain h where h: "blake2s 32 ?internal [] = Some h" "length h = 32"
    using blake2s_total [of 32 ?internal] by auto
  show "\<exists>h. blake2s 32 ?internal [] = Some h \<and> length h = 32 \<and> fst (nextHash 32 data out internal) = replicate 8 0 @ h"
    using h assms(3) by (simp add: nextHash_def mem Let_def blake2s_into_Some memcpy_at_def)
  have "snd (nextHash 32 data out internal) = store32 (of_nat (Suc n)) @ replicate 28 0 @ publicKey @ d"
    by (simp add: nextHash_def mem Let_def load32_store32 memcpy_at_def add.commute)
  then show "hasher_inv publicKey (Suc n) (snd (nextHash 32 data out internal))"
    using d by (auto simp: hasher_inv_def)
qed

subsection \<open>Pointers and pages\<close>

record 'h packet_heap =
  ph_ptr :: "'h \<Rightarrow> nat option"
  ph_counter :: "nat \<Rightarrow> u32"
  ph_freeStack :: "nat list"
  ph_pages :: nat

definition ptr_increment :: "nat option \<Rightarrow> 'h packet_heap \<Rightarrow> 'h packet_heap" where
  "ptr_increment p st =
     (case p of None \<Rightarrow> st | Some a \<Rightarrow> st\<lparr>ph_counter := (ph_counter st)(a := ph_counter st a + 1)\<rparr>)"

definition freeMem :: "nat \<Rightarrow> 'h packet_heap \<Rightarrow> 'h packet_heap" where
  "freeMem a st = st\<lparr>ph_freeStack := ph_freeStack st @ [a]\<rparr>"

definition ptr_decrement :: "nat option \<Rightarrow> 'h packet_heap \<Rightarrow> 'h packet_heap" where
  "ptr_decrement p st =
     (case p of None \<Rightarrow> st
      | Some a \<Rightarrow>
        (let st = st\<lparr>ph_counter := (ph_counter st)(a := ph_counter st a - 1)\<rparr>
         in if ph_counter st a = 0 then freeMem a st else st))"

definition set_ptr :: "'h \<Rightarrow> nat option \<Rightarrow> 'h packet_heap \<Rightarrow> 'h packet_heap" where
  "set_ptr h p st = st\<lparr>ph_ptr := (ph_ptr st)(h := p)\<rparr>"

definition ptr_copy_construct :: "'h \<Rightarrow> 'h \<Rightarrow> 'h packet_heap \<Rightarrow> 'h packet_heap" where
  "ptr_copy_construct h rhs st = ptr_increment (ph_ptr st rhs) (set_ptr h (ph_ptr st rhs) st)"

definition ptr_destroy :: "'h \<Rightarrow> 'h packet_heap \<Rightarrow> 'h packet_heap" where
  "ptr_destroy h st = set_ptr h None (ptr_decrement (ph_ptr st h) st)"

definition ptr_move_construct :: "'h \<Rightarrow> 'h \<Rightarrow> 'h packet_heap \<Rightarrow> 'h packet_heap" where
  "ptr_move_construct h rhs st = set_ptr rhs None (set_ptr h (ph_ptr st rhs) st)"

definition ptr_copy_assign :: "'h \<Rightarrow> 'h \<Rightarrow> 'h packet_heap \<Rightarrow> 'h packet_heap" where
  "ptr_copy_assign h rhs st =
     (if ph_ptr st h \<noteq> ph_ptr st rhs
      then (let p = ph_ptr st rhs in ptr_increment p (set_ptr h p (ptr_decrement (ph_ptr st h) st)))
      else st)"

definition ptr_move_assign :: "'h \<Rightarrow> 'h \<Rightarrow> 'h packet_heap \<Rightarrow> 'h packet_heap" where
  "ptr_move_assign h rhs st =
     (let st = (if ph_ptr st h \<noteq> ph_ptr st rhs
                then (let p = ph_ptr st rhs in set_ptr h p (ptr_decrement (ph_ptr st h) st))
                else st)
      in set_ptr rhs None st)"

definition allocateNewPage :: "nat \<Rightarrow> 'h packet_heap \<Rightarrow> 'h packet_heap" where
  "allocateNewPage PageSize st =
     st\<lparr>ph_freeStack := ph_freeStack st @ [ph_pages st * PageSize..<Suc (ph_pages st) * PageSize],
        ph_pages := Suc (ph_pages st)\<rparr>"

definition packet_manager_new :: "nat \<Rightarrow> 'h packet_heap" where
  "packet_manager_new PageSize =
     allocateNewPage PageSize \<lparr>ph_ptr = (\<lambda>_. None), ph_counter = (\<lambda>_. 0), ph_freeStack = [], ph_pages = 0\<rparr>"

text \<open>The result of \<open>getFreePack\<close> is constructed in the variable \<open>h\<close>.\<close>

definition getFreePack :: "nat \<Rightarrow> 'h \<Rightarrow> 'h packet_heap \<Rightarrow> 'h packet_heap" where
  "getFreePack PageSize h st =
     (let st = (if ph_freeStack st = [] then allocateNewPage PageSize st else st);
          a = last (ph_freeStack st)
      in (set_ptr h (Some a) st)\<lparr>ph_counter := (ph_counter st)(a := 1), ph_freeStack := butlast (ph_freeStack st)\<rparr>)"

subsection \<open>Counters and variables\<close>

definition handles :: "'h packet_heap \<Rightarrow> nat \<Rightarrow> 'h set" where
  "handles st a = {h. ph_ptr st h = Some a}"

definition packet_inv :: "nat \<Rightarrow> ('h :: finite) packet_heap \<Rightarrow> bool" where
  "packet_inv PageSize st \<longleftrightarrow>
     distinct (ph_freeStack st) \<and> set (ph_freeStack st) \<subseteq> {..<ph_pages st * PageSize} \<and>
     (\<forall>h a. ph_ptr st h = Some a \<longrightarrow> a < ph_pages st * PageSize \<and> a \<notin> set (ph_freeStack st)) \<and>
     (\<forall>a < ph_pages st * PageSize. a \<notin> set (ph_freeStack st) \<longrightarrow>
        0 < card (handles st a) \<and> unat (ph_counter st a) = card (handles st a))"

lemma handles_set_ptr:
  "handles (set_ptr h p st) a = (if p = Some a then insert h (handles st a) else handles st a - {h})"
  by (auto simp: handles_def set_ptr_def)

lemma handles_counter [simp]:
  "handles (st\<lparr>ph_counter := c\<rparr>) a = handles st a" "handles (st\<lparr>ph_freeStack := f\<rparr>) a = handles st a"
  "handles (st\<lparr>ph_pages := n\<rparr>) a = handles st a"
  by (simp_all add: handles_def)

lemma set_ptr_frame [simp]:
  "ph_counter (set_ptr h p st) = ph_counter st" "ph_freeStack (set_ptr h p st) = ph_freeStack st"
  "ph_pages (set_ptr h p st) = ph_pages st" "ph_ptr (set_ptr h p st) = (ph_ptr st)(h := p)"
  by (simp_all add: set_ptr_def)

lemma packet_invD:
  assumes "packet_inv P st" "ph_ptr st h = Some a"
  shows "a < ph_pages st * P" "a \<notin> set (ph_freeStack st)" "h \<in> handles st a"
    "unat (ph_counter st a) = card (handles st a)" "0 < card (handles st a)"
  using assms by (auto simp: packet_inv_def handles_def)

lemma destroy_inv:
  assumes "packet_inv P st"
  shows "packet_inv P (ptr_destroy h st)"
proof (cases "ph_ptr st h")
  case None
  then have "set_ptr h None st = st"
    by (simp add: set_ptr_def fun_upd_idem)
  then show ?thesis
    using assms None by (simp add: ptr_destroy_def ptr_decrement_def)
next
  case (Some a)
  note live = packet_invD [OF assms Some]
  have card: "card (handles st a - {h}) = card (handles st a) - 1"
    using live(3) by simp
  have cnt: "unat (ph_counter st a - 1) = card (handles st a) - 1"
    using live(4,5) by (metis unat_minus_one unat_0 less_numeral_extra(3))
  have zero: "ph_counter st a - 1 = 0 \<longleftrightarrow> handles st a - {h} = {}"
    using cnt card by (metis card_eq_0_iff finite unat_eq_zero)
  let ?st = "ptr_destroy h st"
  have ptr: "ph_ptr ?st = (ph_ptr st)(h := None)" and pages: "ph_pages ?st = ph_pages st"
    and counter: "ph_counter ?st = (ph_counter st)(a := ph_counter st a - 1)"
    and free: "ph_freeStack ?st = (if handles st a - {h} = {} then ph_freeStack st @ [a] else ph_freeStack st)"
    using zero Some by (simp_all add: ptr_destroy_def ptr_decrement_def Let_def freeMem_def)
  have hs: "handles ?st b = handles st b - {h}" for b
    by (auto simp: handles_def ptr)
  have other: "b \<noteq> a \<Longrightarrow> handles st b - {h} = handles st b" for b
    using Some by (auto simp: handles_def)
  have old: "distinct (ph_freeStack st)" "set (ph_freeStack st) \<subseteq> {..<ph_pages st * P}"
    and cell: "\<And>b. b < ph_pages st * P \<Longrightarrow> b \<notin> set (ph_freeStack st) \<Longrightarrow>
      0 < card (handles st b) \<and> unat (ph_counter st b) = card (handles st b)"
    using assms by (auto simp: packet_inv_def)
  show ?thesis
    unfolding packet_inv_def ptr pages counter free hs
  proof (intro conjI allI impI)
    fix g b
    assume "((ph_ptr st)(h := None)) g = Some b"
    then have g: "ph_ptr st g = Some b" "g \<noteq> h" by (auto split: if_splits)
    show "b < ph_pages st * P"
      using packet_invD(1) [OF assms g(1)] .
    show "b \<notin> set (if handles st a - {h} = {} then ph_freeStack st @ [a] else ph_freeStack st)"
      using packet_invD(2) [OF assms g(1)] g by (auto simp: handles_def)
  next
    fix b
    assume b: "b < ph_pages st * P" "b \<notin> set (if handles st a - {h} = {} then ph_freeStack st @ [a] else ph_freeStack st)"
    show "0 < card (handles st b - {h})"
      using b cell [of b] other [of b] by (cases "b = a") (auto simp: card_gt_0_iff split: if_splits)
    show "unat (((ph_counter st)(a := ph_counter st a - 1)) b) = card (handles st b - {h})"
      using b cell [of b] other [of b] card cnt by (cases "b = a") (auto split: if_splits)
  qed (use old live(1,2) in auto)
qed

lemma copy_construct_inv:
  fixes st :: "('h :: finite) packet_heap"
  assumes "packet_inv P st" "ph_ptr st h = None" "CARD('h) < 2 ^ 32"
  shows "packet_inv P (ptr_copy_construct h rhs st)"
proof (cases "ph_ptr st rhs")
  case None
  then have "set_ptr h None st = st"
    using assms(2) by (simp add: set_ptr_def fun_upd_idem)
  then show ?thesis
    using assms(1) None by (simp add: ptr_copy_construct_def ptr_increment_def)
next
  case (Some a)
  note live = packet_invD [OF assms(1) Some]
  have notin: "h \<notin> handles st b" for b
    using assms(2) by (simp add: handles_def)
  have "card (insert h (handles st a)) \<le> CARD('h)"
    by (rule card_mono) simp_all
  then have "Suc (card (handles st a)) < 2 ^ 32"
    using notin [of a] assms(3) by simp
  then have cnt: "unat (ph_counter st a + 1) = Suc (card (handles st a))"
    using live(4) by (simp add: unat_word_ariths)
  let ?st = "ptr_copy_construct h rhs st"
  have ptr: "ph_ptr ?st = (ph_ptr st)(h := Some a)" and pages: "ph_pages ?st = ph_pages st"
    and counter: "ph_counter ?st = (ph_counter st)(a := ph_counter st a + 1)"
    and free: "ph_freeStack ?st = ph_freeStack st"
    using Some by (simp_all add: ptr_copy_construct_def ptr_increment_def)
  have hs: "handles ?st b = (if b = a then insert h (handles st a) else handles st b)" for b
    using assms(2) by (auto simp: handles_def ptr)
  show ?thesis
    using assms(1) live cnt notin unfolding packet_inv_def ptr pages counter free hs by auto
qed

lemma move_construct_inv:
  assumes "packet_inv P st" "ph_ptr st h = None" "h \<noteq> rhs"
  shows "packet_inv P (ptr_move_construct h rhs st)"
proof -
  let ?st = "ptr_move_construct h rhs st"
  have hs: "handles ?st a = (if rhs \<in> handles st a then insert h (handles st a - {rhs}) else handles st a)" for a
    using assms(2,3) by (auto simp: handles_def ptr_move_construct_def)
  have "h \<notin> handles st a" for a
    using assms(2) by (simp add: handles_def)
  moreover have "Suc (card (handles st a - {rhs})) = card (handles st a)" if "rhs \<in> handles st a" for a
    using that by (intro card_Suc_Diff1) simp_all
  ultimately have "card (handles ?st a) = card (handles st a)" for a
    by (simp add: hs)
  then show ?thesis
    using assms unfolding packet_inv_def by (auto simp: ptr_move_construct_def split: if_splits)
qed

text \<open>The assignments are a destruction followed by a construction.\<close>

lemma copy_assign_eq:
  "ph_ptr st h \<noteq> ph_ptr st rhs \<Longrightarrow> ptr_copy_assign h rhs st = ptr_copy_construct h rhs (ptr_destroy h st)"
  by (cases "h = rhs") (simp_all add: ptr_copy_assign_def ptr_copy_construct_def ptr_destroy_def ptr_decrement_def
      ptr_increment_def set_ptr_def freeMem_def Let_def split: option.split)

lemma move_assign_eq:
  "ph_ptr st h \<noteq> ph_ptr st rhs \<Longrightarrow> ptr_move_assign h rhs st = ptr_move_construct h rhs (ptr_destroy h st)"
  by (cases "h = rhs") (simp_all add: ptr_move_assign_def ptr_move_construct_def ptr_destroy_def ptr_decrement_def
      set_ptr_def freeMem_def Let_def split: option.split)

lemma destroy_ptr [simp]: "ph_ptr (ptr_destroy h st) = (ph_ptr st)(h := None)"
  by (simp add: ptr_destroy_def ptr_decrement_def freeMem_def Let_def split: option.split)

lemma allocate_inv:
  assumes "packet_inv P st" "ph_freeStack st = []"
  shows "packet_inv P (allocateNewPage P st)"
proof -
  have "a < ph_pages st * P \<or> a \<in> set [ph_pages st * P..<Suc (ph_pages st) * P]" if "a < Suc (ph_pages st) * P" for a
    using that by auto
  then show ?thesis
    using assms unfolding packet_inv_def allocateNewPage_def
    by (auto simp: handles_def intro: trans_less_add2 dest: leD)
qed

text \<open>Taking the top of the free stack.\<close>

lemma take_free_inv:
  assumes "packet_inv P st" "ph_ptr st h = None" "ph_freeStack st = fs @ [a]"
  shows "packet_inv P ((set_ptr h (Some a) st)\<lparr>ph_counter := (ph_counter st)(a := 1), ph_freeStack := fs\<rparr>)"
    "handles st a = {}"
proof -
  show empty: "handles st a = {}"
    using assms(1,3) by (auto simp: packet_inv_def handles_def)
  have "handles (set_ptr h (Some a) st) b = (if b = a then {h} else handles st b)" for b
    using empty assms(2) by (auto simp: handles_set_ptr) (auto simp: handles_def)
  then show "packet_inv P ((set_ptr h (Some a) st)\<lparr>ph_counter := (ph_counter st)(a := 1), ph_freeStack := fs\<rparr>)"
    using assms unfolding packet_inv_def by auto
qed

lemma getFreePack_inv:
  assumes "packet_inv P st" "ph_ptr st h = None" "0 < P"
  shows "packet_inv P (getFreePack P h st)" "\<exists>a. ph_ptr (getFreePack P h st) h = Some a \<and> handles (getFreePack P h st) a = {h}"
proof -
  define st1 where "st1 = (if ph_freeStack st = [] then allocateNewPage P st else st)"
  have inv: "packet_inv P st1" and h: "ph_ptr st1 h = None" and "ph_freeStack st1 \<noteq> []"
    using assms allocate_inv [OF assms(1)] by (auto simp: st1_def allocateNewPage_def)
  then obtain fs a where free: "ph_freeStack st1 = fs @ [a]"
    using rev_exhaust by blast
  have get: "getFreePack P h st = (set_ptr h (Some a) st1)\<lparr>ph_counter := (ph_counter st1)(a := 1), ph_freeStack := fs\<rparr>"
    by (simp add: getFreePack_def st1_def [symmetric] Let_def free)
  note take = take_free_inv [OF inv h free]
  show "packet_inv P (getFreePack P h st)"
    unfolding get by (rule take(1))
  show "\<exists>a. ph_ptr (getFreePack P h st) h = Some a \<and> handles (getFreePack P h st) a = {h}"
    unfolding get using take(2) by (intro exI [of _ a]) (simp add: handles_set_ptr)
qed

subsection \<open>Heaps the program reaches\<close>

text \<open>Variables are constructed where no pointer lives.  A move assignment between two variables that
  hold the same packet is left out: it drops a reference without counting (\<open>move_assign_leaks\<close>).\<close>

inductive packet_reach :: "nat \<Rightarrow> 'h packet_heap \<Rightarrow> bool" for PageSize where
  start: "packet_reach PageSize (packet_manager_new PageSize)"
| get: "packet_reach PageSize st \<Longrightarrow> ph_ptr st h = None \<Longrightarrow> packet_reach PageSize (getFreePack PageSize h st)"
| copy: "packet_reach PageSize st \<Longrightarrow> ph_ptr st h = None \<Longrightarrow> packet_reach PageSize (ptr_copy_construct h rhs st)"
| move: "packet_reach PageSize st \<Longrightarrow> ph_ptr st h = None \<Longrightarrow> h \<noteq> rhs \<Longrightarrow>
    packet_reach PageSize (ptr_move_construct h rhs st)"
| destroy: "packet_reach PageSize st \<Longrightarrow> packet_reach PageSize (ptr_destroy h st)"
| copy_assign: "packet_reach PageSize st \<Longrightarrow> packet_reach PageSize (ptr_copy_assign h rhs st)"
| move_assign: "packet_reach PageSize st \<Longrightarrow> ph_ptr st h \<noteq> ph_ptr st rhs \<or> ph_ptr st rhs = None \<Longrightarrow>
    packet_reach PageSize (ptr_move_assign h rhs st)"

lemma new_inv: "packet_inv P (packet_manager_new P)"
  by (auto simp: packet_inv_def packet_manager_new_def allocateNewPage_def handles_def)

lemma copy_assign_inv:
  fixes st :: "('h :: finite) packet_heap"
  assumes "packet_inv P st" "CARD('h) < 2 ^ 32"
  shows "packet_inv P (ptr_copy_assign h rhs st)"
proof (cases "ph_ptr st h = ph_ptr st rhs")
  case True
  then show ?thesis using assms(1) by (simp add: ptr_copy_assign_def)
next
  case False
  have "packet_inv P (ptr_copy_construct h rhs (ptr_destroy h st))"
    using assms by (intro copy_construct_inv destroy_inv) simp_all
  then show ?thesis by (simp add: copy_assign_eq [OF False])
qed

lemma move_assign_inv:
  assumes "packet_inv P st" "ph_ptr st h \<noteq> ph_ptr st rhs \<or> ph_ptr st rhs = None"
  shows "packet_inv P (ptr_move_assign h rhs st)"
proof (cases "ph_ptr st h = ph_ptr st rhs")
  case True
  then have "ptr_move_assign h rhs st = st"
    using assms(2) by (simp add: ptr_move_assign_def set_ptr_def fun_upd_idem)
  then show ?thesis using assms(1) by simp
next
  case False
  have "packet_inv P (ptr_move_construct h rhs (ptr_destroy h st))"
    using assms(1) False by (intro move_construct_inv destroy_inv) auto
  then show ?thesis by (simp add: move_assign_eq [OF False])
qed

lemma reach_inv:
  fixes st :: "('h :: finite) packet_heap"
  assumes "packet_reach P st" "CARD('h) < 2 ^ 32" "0 < P"
  shows "packet_inv P st"
  using assms
  by (induction rule: packet_reach.induct)
    (simp_all add: new_inv getFreePack_inv copy_construct_inv move_construct_inv destroy_inv copy_assign_inv move_assign_inv)

text \<open>C28: in every heap the program reaches with fewer than \<open>2 ^ 32\<close> pointer variables, the counter of a
  packet in use is the number of pointers to it, the packets on the free stack are the ones no pointer
  holds and each is there once, and a packet taken for a new message is held by no other pointer.\<close>

theorem packets_safe:
  fixes st :: "('h :: finite) packet_heap"
  assumes "packet_reach P st" "CARD('h) < 2 ^ 32" "0 < P"
  shows "(\<forall>h a. ph_ptr st h = Some a \<longrightarrow> a < ph_pages st * P \<and> unat (ph_counter st a) = card (handles st a)) \<and>
    distinct (ph_freeStack st) \<and> set (ph_freeStack st) = {a. a < ph_pages st * P \<and> handles st a = {}} \<and>
    (\<forall>h. ph_ptr st h = None \<longrightarrow>
      (\<exists>a. ph_ptr (getFreePack P h st) h = Some a \<and> handles st a = {} \<and> handles (getFreePack P h st) a = {h}))"
proof -
  note inv = reach_inv [OF assms]
  have "\<exists>a. ph_ptr (getFreePack P h st) h = Some a \<and> handles st a = {} \<and> handles (getFreePack P h st) a = {h}"
    if h: "ph_ptr st h = None" for h
  proof -
    obtain a where a: "ph_ptr (getFreePack P h st) h = Some a" "handles (getFreePack P h st) a = {h}"
      using getFreePack_inv(2) [OF inv h assms(3)] by blast
    moreover have "handles st a \<subseteq> handles (getFreePack P h st) a - {h}"
      using h by (auto simp: handles_def getFreePack_def Let_def allocateNewPage_def)
    ultimately show ?thesis by auto
  qed
  moreover have "a \<in> set (ph_freeStack st) \<longleftrightarrow> a < ph_pages st * P \<and> handles st a = {}" for a
    using inv unfolding packet_inv_def by (auto simp: handles_def)
  ultimately show ?thesis
    using inv packet_invD [OF inv] by (auto simp: packet_inv_def)
qed

lemma sample_reach:
  "packet_reach 1 (getFreePack 1 False (packet_manager_new 1))"
  by (intro packet_reach.get packet_reach.start) (simp add: packet_manager_new_def allocateNewPage_def)

theorem packets_safe_witness:
  "\<exists>a. ph_ptr (getFreePack 1 True (getFreePack 1 False (packet_manager_new 1))) True = Some a \<and>
    handles (getFreePack 1 False (packet_manager_new 1)) a = {}"
  using packets_safe [OF sample_reach]
  by (auto simp: getFreePack_def packet_manager_new_def allocateNewPage_def Let_def)

text \<open>Moving between two pointers to one packet: the packet is never free again.\<close>

lemma move_assign_leaks:
  assumes "packet_inv P st" "ph_ptr st h = Some a" "ph_ptr st rhs = Some a" "h \<noteq> rhs"
  shows "handles (ptr_destroy h (ptr_move_assign h rhs st)) a = handles st a - {h, rhs}"
    "ph_freeStack (ptr_destroy h (ptr_move_assign h rhs st)) = ph_freeStack st"
proof -
  note live = packet_invD [OF assms(1,2)]
  have "{h, rhs} \<subseteq> handles st a"
    using assms by (simp add: handles_def)
  then have "card {h, rhs} \<le> card (handles st a)"
    by (intro card_mono) simp_all
  then have "2 \<le> unat (ph_counter st a)"
    using live(4) assms(4) by simp
  then have "ph_counter st a \<noteq> 1"
    by auto
  then show "ph_freeStack (ptr_destroy h (ptr_move_assign h rhs st)) = ph_freeStack st"
    using assms by (simp add: ptr_move_assign_def ptr_destroy_def ptr_decrement_def Let_def)
  show "handles (ptr_destroy h (ptr_move_assign h rhs st)) a = handles st a - {h, rhs}"
    using assms by (auto simp: handles_def ptr_move_assign_def)
qed

end
