(* ===== verification/Collector.thy ===== *)
theory Collector
  imports Packets
begin

text \<open>
  Collecting the packets of one message (\<open>PacketPart\<close> and \<open>PacketCollector\<close> of \<open>net/include/net/Structures.hpp\<close>).
  A part owns the cells of its sequence up to its \<open>size\<close>; using a cell beyond it is undefined and is
  the result \<^term>\<open>None\<close>.  The contents of a part are related to the set of packets that have come, whatever
  else comes in between.
\<close>

subsection \<open>Parts\<close>

record packet_part =
  pp_seq :: nat
  pp_packets :: "packet option list"
  pp_totalSize :: u64
  pp_left :: u64
  pp_size :: nat

definition packet_part_new :: "nat \<Rightarrow> u16 \<Rightarrow> packet_part" where
  "packet_part_new mem maxSize =
     \<lparr>pp_seq = mem, pp_packets = replicate (unat maxSize) None, pp_totalSize = 0, pp_left = ucast maxSize,
      pp_size = unat maxSize\<rparr>"

definition tryInsert :: "packet \<Rightarrow> u64 \<Rightarrow> packet_part \<Rightarrow> (bool \<times> packet_part) option" where
  "tryInsert pack sz part =
     (let i = unat (pk_header pack)
      in if pp_size part \<le> i then None
         else if pp_packets part ! i \<noteq> None then Some (False, part)
         else Some (True, part\<lparr>pp_packets := (pp_packets part)[i := Some pack], pp_totalSize := pp_totalSize part + sz,
                            pp_left := pp_left part - 1\<rparr>))"

definition part_clear :: "packet_part \<Rightarrow> packet_part" where
  "part_clear part = part\<lparr>pp_packets := replicate (pp_size part) None\<rparr>"

subsection \<open>The collector\<close>

record packet_collector =
  pc_map :: "byte_array \<rightharpoonup> packet_part"
  pc_queue :: "byte_array list"

definition packet_collector_new :: packet_collector where
  "packet_collector_new = \<lparr>pc_map = Map.empty, pc_queue = []\<rparr>"

definition make_place :: "nat \<Rightarrow> byte_array \<Rightarrow> u16 \<Rightarrow> packet_collector \<Rightarrow> packet_collector option" where
  "make_place Capacity key count c =
     (case pc_map c key of
        Some _ \<Rightarrow> Some c
      | None \<Rightarrow>
          do { (nextSeq, c) \<leftarrow>
                 (if length (pc_queue c) = Capacity
                  then do { oldestPack \<leftarrow> pc_map c (hd (pc_queue c));
                            Some (pp_seq oldestPack,
                              \<lparr>pc_map = (pc_map c)(hd (pc_queue c) := None), pc_queue = tl (pc_queue c)\<rparr>) }
                  else Some (length (pc_queue c), c));
               Some \<lparr>pc_map = (pc_map c)(key \<mapsto> packet_part_new nextSeq count), pc_queue = pc_queue c @ [key]\<rparr> })"

definition append_packet ::
  "nat \<Rightarrow> packet \<Rightarrow> u64 \<Rightarrow> packet_collector \<Rightarrow> ((packet_part \<times> bool) \<times> packet_collector) option" where
  "append_packet Capacity pack dataSize c =
     do { let key = pk_HashBlock pack;
          c \<leftarrow> make_place Capacity key (pk_countHeader pack) c;
          part \<leftarrow> pc_map c key;
          (added, part) \<leftarrow> tryInsert pack dataSize part;
          Some ((part, added), c\<lparr>pc_map := (pc_map c)(key \<mapsto> part)\<rparr>) }"

subsection \<open>The table of the collector\<close>

definition collector_inv :: "nat \<Rightarrow> packet_collector \<Rightarrow> bool" where
  "collector_inv cap c \<longleftrightarrow>
     distinct (pc_queue c) \<and> length (pc_queue c) \<le> cap \<and> dom (pc_map c) = set (pc_queue c) \<and>
     inj_on (\<lambda>k. pp_seq (the (pc_map c k))) (set (pc_queue c)) \<and>
     (\<forall>k part. pc_map c k = Some part \<longrightarrow> pp_seq part < length (pc_queue c))"

lemma new_collector_inv: "collector_inv cap packet_collector_new"
  by (simp add: collector_inv_def packet_collector_new_def)

lemma collector_known: "collector_inv cap c \<Longrightarrow> pc_map c k = None \<longleftrightarrow> k \<notin> set (pc_queue c)"
  by (auto simp: collector_inv_def)

text \<open>Adding a key with a free sequence, and dropping the oldest key.\<close>

lemma add_part_inv:
  assumes "distinct q" "key \<notin> set q" "length q < cap" "dom m = set q" "inj_on (\<lambda>k. pp_seq (the (m k))) (set q)"
    "\<And>k part. m k = Some part \<Longrightarrow> pp_seq part \<noteq> pp_seq new \<and> pp_seq part \<le> length q" "pp_seq new \<le> length q"
  shows "collector_inv cap \<lparr>pc_map = m(key \<mapsto> new), pc_queue = q @ [key]\<rparr>"
proof -
  have "inj_on (\<lambda>k. pp_seq (the ((m(key \<mapsto> new)) k))) (insert key (set q))"
  proof (rule inj_onI)
    fix j k
    assume jk: "j \<in> insert key (set q)" "k \<in> insert key (set q)"
      "pp_seq (the ((m(key \<mapsto> new)) j)) = pp_seq (the ((m(key \<mapsto> new)) k))"
    have "pp_seq (the (m k)) \<noteq> pp_seq new" if "k \<in> set q" for k
      using that assms(4,6) by force
    then show "j = k"
      using jk assms(2,5) by (auto simp: inj_on_def split: if_splits)
  qed
  then show ?thesis
    using assms by (auto simp: collector_inv_def less_Suc_eq_le)
qed

lemma make_place_spec:
  assumes "collector_inv cap c" "0 < cap"
  shows "\<exists>c'. make_place cap key count c = Some c' \<and> collector_inv cap c' \<and>
    pc_queue c' = ring_push cap key (pc_queue c) \<and>
    (\<forall>k \<in> set (pc_queue c') - {key}. pc_map c' k = pc_map c k) \<and>
    (case pc_map c key of Some part \<Rightarrow> pc_map c' key = Some part
     | None \<Rightarrow> \<exists>seq. pc_map c' key = Some (packet_part_new seq count))"
proof (cases "pc_map c key")
  case (Some part)
  then have "key \<in> set (pc_queue c)"
    using collector_known [OF assms(1), of key] by auto
  then show ?thesis
    using Some assms(1) by (simp add: make_place_def ring_push_def)
next
  case None
  then have new: "key \<notin> set (pc_queue c)"
    using collector_known [OF assms(1)] by simp
  show ?thesis
  proof (cases "length (pc_queue c) = cap")
    case False
    have "collector_inv cap \<lparr>pc_map = (pc_map c)(key \<mapsto> packet_part_new (length (pc_queue c)) count), pc_queue = pc_queue c @ [key]\<rparr>"
    proof (rule add_part_inv)
      show "pp_seq part \<noteq> pp_seq (packet_part_new (length (pc_queue c)) count) \<and> pp_seq part \<le> length (pc_queue c)"
        if "pc_map c k = Some part" for k part
      proof -
        have "pp_seq part < length (pc_queue c)"
          using assms(1) that by (auto simp: collector_inv_def)
        then show ?thesis by (simp add: packet_part_new_def)
      qed
    qed (use assms(1) new False in \<open>simp_all add: collector_inv_def packet_part_new_def\<close>)
    then show ?thesis
      using None False new by (auto simp: make_place_def ring_push_def)
  next
    case True
    then obtain old q where q: "pc_queue c = old # q"
      using assms(2) by (cases "pc_queue c") auto
    then obtain part where part: "pc_map c old = Some part"
      using collector_known [OF assms(1), of old] by auto
    let ?m = "(pc_map c)(old := None)"
    have seq: "pp_seq part < cap" "\<And>k p. ?m k = Some p \<Longrightarrow> pp_seq p < cap"
      using assms(1) True part by (auto simp: collector_inv_def split: if_splits)
    have "inj_on (\<lambda>k. pp_seq (the (pc_map c k))) (set (old # q))" "distinct (old # q)" "dom (pc_map c) = set (old # q)"
      using assms(1) unfolding collector_inv_def q by blast+
    then have inv: "inj_on (\<lambda>k. pp_seq (the (pc_map c k))) (insert old (set q))" "distinct (old # q)" "dom (pc_map c) = insert old (set q)"
      unfolding list.set by blast+
    have "collector_inv cap \<lparr>pc_map = ?m(key \<mapsto> packet_part_new (pp_seq part) count), pc_queue = q @ [key]\<rparr>"
    proof (rule add_part_inv)
      show "inj_on (\<lambda>k. pp_seq (the (?m k))) (set q)"
        using inv by (auto simp: inj_on_def)
      show "pp_seq p \<noteq> pp_seq (packet_part_new (pp_seq part) count) \<and> pp_seq p \<le> length q" if "?m k = Some p" for k p
      proof -
        have "k \<in> set q" "k \<noteq> old" "pc_map c k = Some p"
          using that inv by (auto split: if_splits)
        then have "pp_seq p \<noteq> pp_seq part"
          using inv(1) part by (metis inj_on_def insertI1 insertI2 option.sel)
        then show ?thesis
          using seq(2) [OF that] True q by (simp add: packet_part_new_def)
      qed
    qed (use inv new q True seq(1) in \<open>auto simp: packet_part_new_def\<close>)
    then show ?thesis
      using None True new q part inv(2) by (auto simp: make_place_def ring_push_def)
  qed
qed

subsection \<open>What a part holds\<close>

text \<open>A message of \<open>n\<close> packets: \<open>P i\<close> holds of the packets that may come as its part \<open>i\<close>, \<open>sz i\<close> is the size of
  that part.  \<open>part_holds\<close>: exactly the parts in \<open>I\<close> have come.\<close>

definition part_holds ::
  "nat \<Rightarrow> (nat \<Rightarrow> u64) \<Rightarrow> (nat \<Rightarrow> packet \<Rightarrow> bool) \<Rightarrow> nat set \<Rightarrow> packet_part \<Rightarrow> bool" where
  "part_holds n sz P I part \<longleftrightarrow>
     pp_size part = n \<and> length (pp_packets part) = n \<and> I \<subseteq> {..<n} \<and>
     (\<forall>i < n. (pp_packets part ! i \<noteq> None) = (i \<in> I) \<and> (\<forall>p. pp_packets part ! i = Some p \<longrightarrow> P i p)) \<and>
     pp_totalSize part = (\<Sum>i \<in> I. sz i) \<and> pp_left part = of_nat (n - card I)"

lemma new_part_holds: "part_holds (unat count) sz P {} (packet_part_new seq count)"
  by (simp add: part_holds_def packet_part_new_def unsigned_ucast_eq)

lemma tryInsert_holds:
  assumes "part_holds n sz P I part" "unat (pk_header p) < n" "P (unat (pk_header p)) p"
  shows "\<exists>part'. tryInsert p (sz (unat (pk_header p))) part = Some (unat (pk_header p) \<notin> I, part') \<and>
    part_holds n sz P (insert (unat (pk_header p)) I) part'"
proof (cases "unat (pk_header p) \<in> I")
  case True
  then have "pp_packets part ! unat (pk_header p) \<noteq> None"
    using assms(1,2) by (auto simp: part_holds_def)
  then show ?thesis
    using assms True by (simp add: tryInsert_def Let_def part_holds_def insert_absorb)
next
  case False
  let ?i = "unat (pk_header p)"
  have "finite I"
    using assms(1) finite_subset by (auto simp: part_holds_def)
  moreover have "I \<subset> {..<n}"
    using assms False by (auto simp: part_holds_def)
  then have "card I < n"
    using psubset_card_mono [of "{..<n}" I] by simp
  then have "of_nat (n - card I) - 1 = (of_nat (n - Suc (card I)) :: u64)"
    by (simp add: Suc_diff_Suc [symmetric] of_nat_diff)
  moreover have "pp_packets part ! ?i = None"
    using assms(1,2) False by (auto simp: part_holds_def)
  ultimately show ?thesis
    using assms False by (auto simp: tryInsert_def Let_def part_holds_def nth_list_update add.commute)
qed

subsection \<open>Packets in any order\<close>

lemma tryInsert_seq: "tryInsert p s part = Some (b, part') \<Longrightarrow> pp_seq part' = pp_seq part"
  by (auto simp: tryInsert_def Let_def split: if_splits)

lemma append_packet_spec:
  assumes "collector_inv cap c" "0 < cap" "append_packet cap p s c = Some (r, c')"
  shows "collector_inv cap c'" "pc_queue c' = ring_push cap (pk_HashBlock p) (pc_queue c)"
    "k \<noteq> pk_HashBlock p \<Longrightarrow> k \<in> set (pc_queue c') \<Longrightarrow> pc_map c' k = pc_map c k"
proof -
  let ?key = "pk_HashBlock p"
  obtain c1 where c1: "make_place cap ?key (pk_countHeader p) c = Some c1" "collector_inv cap c1"
    "pc_queue c1 = ring_push cap ?key (pc_queue c)" "\<forall>k \<in> set (pc_queue c1) - {?key}. pc_map c1 k = pc_map c k"
    using make_place_spec [OF assms(1,2)] by blast
  then obtain part part' b where "pc_map c1 ?key = Some part" "tryInsert p s part = Some (b, part')"
    "c' = c1\<lparr>pc_map := (pc_map c1)(?key \<mapsto> part')\<rparr>"
    using assms(3) by (auto simp: append_packet_def Let_def bind_eq_Some_conv)
  then have part: "pc_map c1 ?key = Some part" "pp_seq part' = pp_seq part"
    "c' = c1\<lparr>pc_map := (pc_map c1)(?key \<mapsto> part')\<rparr>"
    using tryInsert_seq by auto
  have same: "(\<lambda>k. pp_seq (the (pc_map c' k))) = (\<lambda>k. pp_seq (the (pc_map c1 k)))"
    using part by auto
  have "dom (pc_map c') = dom (pc_map c1)"
    using part by auto
  then show "collector_inv cap c'"
    using c1(2) part unfolding collector_inv_def same by (auto split: if_splits)
  show "pc_queue c' = ring_push cap ?key (pc_queue c)"
    using part c1 by simp
  show "k \<noteq> ?key \<Longrightarrow> k \<in> set (pc_queue c') \<Longrightarrow> pc_map c' k = pc_map c k"
    using part c1 by simp
qed

lemma append_packet_part:
  assumes "collector_inv cap c" "0 < cap" "unat (pk_header p) < n" "unat (pk_countHeader p) = n" "P (unat (pk_header p)) p"
    and "case pc_map c (pk_HashBlock p) of None \<Rightarrow> I = {} | Some part \<Rightarrow> part_holds n sz P I part"
  shows "\<exists>part c'. append_packet cap p (sz (unat (pk_header p))) c = Some ((part, unat (pk_header p) \<notin> I), c') \<and>
    pc_map c' (pk_HashBlock p) = Some part \<and> part_holds n sz P (insert (unat (pk_header p)) I) part"
proof -
  let ?key = "pk_HashBlock p"
  obtain c1 where c1: "make_place cap ?key (pk_countHeader p) c = Some c1"
    "case pc_map c ?key of Some part \<Rightarrow> pc_map c1 ?key = Some part
     | None \<Rightarrow> \<exists>seq. pc_map c1 ?key = Some (packet_part_new seq (pk_countHeader p))"
    using make_place_spec [OF assms(1,2)] by blast
  then obtain part where part: "pc_map c1 ?key = Some part" "part_holds n sz P I part"
    using assms(4,6) new_part_holds [of "pk_countHeader p"] by (auto split: option.splits)
  show ?thesis
    using tryInsert_holds [OF part(2) assms(3,5)] part(1) c1(1) by (auto simp: append_packet_def)
qed

primrec appends :: "nat \<Rightarrow> (packet \<times> u64) list \<Rightarrow> packet_collector \<Rightarrow> packet_collector option" where
  "appends cap [] c = Some c"
| "appends cap (e # es) c = do { (_, c) \<leftarrow> append_packet cap (fst e) (snd e) c; appends cap es c }"

definition seen :: "byte_array \<Rightarrow> (packet \<times> u64) list \<Rightarrow> nat set" where
  "seen k es = {unat (pk_header p) |p s. (p, s) \<in> set es \<and> pk_HashBlock p = k}"

lemma appends_append: "appends cap (es @ fs) c = Option.bind (appends cap es c) (appends cap fs)"
  by (induction es arbitrary: c) (auto simp: Option.bind_assoc split: prod.splits intro!: Option.bind_cong)

lemma appends_queue:
  "collector_inv cap c \<Longrightarrow> 0 < cap \<Longrightarrow> appends cap es c = Some c' \<Longrightarrow>
    collector_inv cap c' \<and> pc_queue c' = ring_pushes cap (map (pk_HashBlock \<circ> fst) es) (pc_queue c)"
proof (induction es arbitrary: c)
  case (Cons e es)
  then obtain r c1 where c1: "append_packet cap (fst e) (snd e) c = Some (r, c1)" "appends cap es c1 = Some c'"
    by (auto simp: bind_eq_Some_conv)
  show ?case
    using Cons.IH [OF _ Cons.prems(2) c1(2)] append_packet_spec [OF Cons.prems(1,2) c1(1)] by simp
qed simp

text \<open>A key that comes stays, while fewer other keys than the capacity come.\<close>

lemma ring_pushes_known:
  assumes "0 < cap" "distinct q" "length q \<le> cap" "k \<notin> set q" "card (set ks - {k}) < cap"
  shows "k \<in> set (ring_pushes cap ks q) \<longleftrightarrow> k \<in> set ks"
  using assms
proof (induction ks arbitrary: q)
  case (Cons j ks)
  have less: "card (set ks - {k}) < cap"
    using Cons.prems(5) by (auto elim!: le_less_trans [OF card_mono, rotated 2])
  have push: "distinct (ring_push cap j q)" "length (ring_push cap j q) \<le> cap"
    using Cons.prems by (simp_all add: ring_push_distinct ring_push_length)
  show ?case
  proof (cases "j = k")
    case True
    then obtain older where "ring_push cap j q = older @ k # []"
      using Cons.prems(4) by (auto simp: ring_push_def)
    from ring_pushes_keep [OF this push(1) Cons.prems(1) push(2), of ks] less show ?thesis
      using True by simp
  next
    case False
    then have "k \<notin> set (ring_push cap j q)"
      using Cons.prems(4) ring_push_subset by fastforce
    from Cons.IH [OF Cons.prems(1) push this less] False show ?thesis by simp
  qed
qed simp

lemma appends_known:
  assumes "collector_inv cap c" "0 < cap" "k \<notin> set (pc_queue c)"
    and "appends cap es c = Some c'" "card ((pk_HashBlock \<circ> fst) ` set es - {k}) < cap"
  shows "k \<in> set (pc_queue c') \<longleftrightarrow> k \<in> (pk_HashBlock \<circ> fst) ` set es"
proof -
  have "distinct (pc_queue c)" "length (pc_queue c) \<le> cap"
    using assms(1) by (simp_all add: collector_inv_def)
  from ring_pushes_known [OF assms(2) this assms(3)] assms(5) show ?thesis
    unfolding conjunct2 [OF appends_queue [OF assms(1,2,4)]] by (simp only: set_map)
qed

lemma appends_other:
  assumes "collector_inv cap c" "0 < cap" "k \<notin> set (pc_queue c)"
    and "appends cap es c = Some c1" "append_packet cap p s c1 = Some (r, c')" "pk_HashBlock p \<noteq> k"
    and "card ((pk_HashBlock \<circ> fst) ` set (es @ [(p, s)]) - {k}) < cap"
  shows "pc_map c' k = pc_map c1 k"
proof -
  note inv = conjunct1 [OF appends_queue [OF assms(1,2,4)]]
  note spec = append_packet_spec [OF inv assms(2,5)]
  show ?thesis
  proof (cases "k \<in> set (pc_queue c')")
    case True
    then show ?thesis
      using spec(3) assms(6) by simp
  next
    case False
    have "appends cap (es @ [(p, s)]) c = Some c'"
      using assms(4,5) by (simp add: appends_append)
    moreover have "card ((pk_HashBlock \<circ> fst) ` set es - {k}) < cap"
      using assms(7) by (auto elim!: le_less_trans [OF card_mono, rotated 2])
    ultimately have "k \<notin> set (pc_queue c1)"
      using False appends_known [OF assms(1-3) _ assms(7)] appends_known [OF assms(1-4)] assms(6) by simp
    then show ?thesis
      using False collector_known spec(1) inv by metis
  qed
qed

lemma appends_hold:
  assumes "collector_inv cap c" "0 < cap" "k \<notin> set (pc_queue c)"
    and "card ((pk_HashBlock \<circ> fst) ` set es - {k}) < cap"
    and frames: "\<And>p s. (p, s) \<in> set es \<Longrightarrow> pk_HashBlock p = k \<Longrightarrow>
      unat (pk_header p) < n \<and> unat (pk_countHeader p) = n \<and> P (unat (pk_header p)) p \<and> s = sz (unat (pk_header p))"
  shows "appends cap es c = Some c' \<Longrightarrow>
    (case pc_map c' k of None \<Rightarrow> seen k es = {} | Some part \<Rightarrow> part_holds n sz P (seen k es) part)"
  using assms(4) frames
proof (induction es arbitrary: c' rule: rev_induct)
  case Nil
  then show ?case
    using collector_known [OF assms(1), of k] assms(3) by (simp add: seen_def)
next
  case (snoc e es)
  obtain p s where e: "e = (p, s)" by fastforce
  obtain c1 r where c1: "appends cap es c = Some c1" "append_packet cap p s c1 = Some (r, c')"
    using snoc.prems(1) by (auto simp: appends_append e bind_eq_Some_conv)
  note inv = appends_queue [OF assms(1,2) c1(1)]
  have less: "card ((pk_HashBlock \<circ> fst) ` set es - {k}) < cap"
    using snoc.prems(2) by (auto elim!: le_less_trans [OF card_mono, rotated 2])
  have IH: "case pc_map c1 k of None \<Rightarrow> seen k es = {} | Some part \<Rightarrow> part_holds n sz P (seen k es) part"
    using snoc.IH [OF c1(1) less] snoc.prems(3) by auto
  show ?case
  proof (cases "pk_HashBlock p = k")
    case True
    have p: "unat (pk_header p) < n" "unat (pk_countHeader p) = n" "P (unat (pk_header p)) p" "s = sz (unat (pk_header p))"
      using snoc.prems(3) [of p s] True e by auto
    have "seen k (es @ [e]) = insert (unat (pk_header p)) (seen k es)"
      using True by (auto simp: seen_def e)
    then show ?thesis
      using append_packet_part [where P = P and I = "seen k es" and sz = sz, OF conjunct1 [OF inv] assms(2) p(1-3)]
        IH True c1(2) p(4) by auto
  next
    case False
    have "seen k (es @ [e]) = seen k es"
      using False by (auto simp: seen_def e)
    moreover have "pc_map c' k = pc_map c1 k"
      using appends_other [OF assms(1-3) c1(1) c1(2) False] snoc.prems(2) by (simp add: e)
    ultimately show ?thesis
      using IH by (simp only:)
  qed
qed

end
