(* ===== verification/SignedWords.thy ===== *)
theory SignedWords
  imports Prelude
begin

text \<open>
  Signed machine integers for the arithmetic of Ed25519: words read with \<open>sint\<close>, the carry from one limb of a number to
  the next in both roundings that the sources use, the bounds of lists of limbs, and numbers stored in bytes, the lowest first.
\<close>

subsection \<open>Words in range\<close>

lemma sint_64: "\<bar>x\<bar> < 2 ^ 63 \<Longrightarrow> sint (of_int x :: u64) = x"
  by (simp add: signed_of_int signed_take_bit_int_eq_self)

lemma sint_32: "\<bar>x\<bar> < 2 ^ 31 \<Longrightarrow> sint (of_int x :: u32) = x"
  by (simp add: signed_of_int signed_take_bit_int_eq_self)

lemma sint_eq_64: "w = of_int x \<Longrightarrow> \<bar>x\<bar> < 2 ^ 63 \<Longrightarrow> sint (w :: u64) = x"
  by (simp add: sint_64)

lemma sint_eq_32: "w = of_int x \<Longrightarrow> \<bar>x\<bar> < 2 ^ 31 \<Longrightarrow> sint (w :: u32) = x"
  by (simp add: sint_32)

lemma abs_sint_32: "\<bar>sint (w :: u32)\<bar> \<le> 2 ^ 31"
  using sint_range_size [of w] by (simp add: word_size) linarith

lemma abs_mult_le: "\<bar>a\<bar> \<le> A \<Longrightarrow> \<bar>b\<bar> \<le> B \<Longrightarrow> \<bar>a * b\<bar> \<le> A * (B :: int)"
  by (simp add: abs_mult mult_mono)

subsection \<open>One carry\<close>

lemma abs_round_div:
  assumes "\<bar>x\<bar> \<le> B" "0 < n"
  shows "\<bar>(x + 2 ^ (n - 1)) div 2 ^ n\<bar> \<le> (B + 2 ^ (n - 1)) div (2 ^ n :: int)"
    "\<bar>x - 2 ^ n * ((x + 2 ^ (n - 1)) div 2 ^ n)\<bar> \<le> 2 ^ (n - 1)"
proof -
  define h m q Q where d: "h = (2 :: int) ^ (n - 1)" "m = (2 :: int) ^ n" "q = (x + h) div m" "Q = (B + h) div m"
  have m: "m = 2 * h" "0 < h" using assms(2) by (simp_all add: d flip: power_Suc)
  have e: "x + h = m * q + (x + h) mod m" "B + h = m * Q + (B + h) mod m" by (simp_all add: d(3,4))
  have b: "0 \<le> (x + h) mod m" "(x + h) mod m < m" "0 \<le> (B + h) mod m" "(B + h) mod m < m" using m by simp_all
  have x: "m * q \<le> x + h" "x + h < m * q + m" using e(1) b(1,2) by linarith+
  have B: "m * Q \<le> B + h" "B + h < m * Q + m" using e(2) b(3,4) by linarith+
  have "q \<le> Q" using assms(1) m unfolding d(3,4) by (intro zdiv_mono1) auto
  moreover have "- Q \<le> q"
  proof (rule ccontr)
    assume "\<not> - Q \<le> q"
    then have "m * (q + 1) \<le> m * (- Q)" using m by (intro mult_left_mono) auto
    then show False using x B m assms(1) by (simp add: algebra_simps)
  qed
  ultimately show "\<bar>(x + 2 ^ (n - 1)) div 2 ^ n\<bar> \<le> (B + 2 ^ (n - 1)) div (2 ^ n :: int)"
    unfolding d by simp
  have "\<bar>x - m * q\<bar> \<le> h" using x m by linarith
  then show "\<bar>x - 2 ^ n * ((x + 2 ^ (n - 1)) div 2 ^ n)\<bar> \<le> 2 ^ (n - 1)" by (simp only: d)
qed

lemma round_carry:
  fixes x :: u64
  assumes "\<bar>sint x\<bar> \<le> B" "0 < n" "n < 32" "B + 2 ^ (n - 1) < 2 ^ 63"
  defines "c \<equiv> signed_drop_bit n (x + push_bit (n - 1) 1)"
  shows "sint c = (sint x + 2 ^ (n - 1)) div 2 ^ n" "\<bar>sint c\<bar> \<le> (B + 2 ^ (n - 1)) div 2 ^ n"
    "sint (x - push_bit n c) = sint x - 2 ^ n * sint c" "\<bar>sint (x - push_bit n c)\<bar> \<le> 2 ^ (n - 1)"
proof -
  have "sint (x + push_bit (n - 1) 1) = sint x + 2 ^ (n - 1)"
    using assms(1,4) zero_le_power [of "2 :: int" "n - 1"]
    by (intro sint_eq_64) (simp add: push_bit_eq_mult, linarith)
  then show c: "sint c = (sint x + 2 ^ (n - 1)) div 2 ^ n"
    by (simp add: c_def sint_signed_drop_bit_eq drop_bit_eq_div)
  show "\<bar>sint c\<bar> \<le> (B + 2 ^ (n - 1)) div 2 ^ n"
    using abs_round_div(1) [OF assms(1,2)] by (simp add: c)
  have b: "\<bar>sint x - 2 ^ n * sint c\<bar> \<le> 2 ^ (n - 1)"
    using abs_round_div(2) [OF assms(1,2)] by (simp add: c)
  have "(2 :: int) ^ (n - 1) \<le> 2 ^ 31" using assms(3) by (intro power_increasing) auto
  with b have "\<bar>sint x - 2 ^ n * sint c\<bar> < 2 ^ 63" by simp
  then show s: "sint (x - push_bit n c) = sint x - 2 ^ n * sint c"
    by (intro sint_eq_64) (simp_all add: push_bit_eq_mult mult.commute)
  show "\<bar>sint (x - push_bit n c)\<bar> \<le> 2 ^ (n - 1)" using b by (simp add: s)
qed

subsection \<open>Bounds of lists\<close>

text \<open>\<open>within B h\<close>: the numbers of \<open>h\<close> are in absolute value at most those of \<open>B\<close>.\<close>

definition within :: "int list \<Rightarrow> int list \<Rightarrow> bool" where
  "within B h = list_all2 (\<lambda>b x. \<bar>x\<bar> \<le> b) B h"

lemma within_nth: "within B h \<Longrightarrow> i < length h \<Longrightarrow> \<bar>h ! i\<bar> \<le> B ! i"
  by (auto simp: within_def list_all2_conv_all_nth)

lemma within_update: "within B h \<Longrightarrow> \<bar>x\<bar> \<le> b \<Longrightarrow> within (B[i := b]) (h[i := x])"
  by (simp add: within_def list_all2_update_cong)

lemma within_length: "within B h \<Longrightarrow> length h = length B"
  by (simp add: within_def list_all2_lengthD)

lemma abs_add_le: "\<bar>a\<bar> \<le> A \<Longrightarrow> \<bar>b\<bar> \<le> B \<Longrightarrow> \<bar>a + b\<bar> \<le> A + (B :: int)"
  by linarith

lemma abs_numeral_le: "\<bar>a\<bar> \<le> A \<Longrightarrow> \<bar>numeral k * a\<bar> \<le> numeral k * (A :: int)"
  by (simp add: abs_mult)

lemma within_64:
  assumes "within B h" "list_all (\<lambda>b. b < 2 ^ 63) B" "i < length h"
  shows "\<bar>h ! i\<bar> < 2 ^ 63"
proof -
  have "B ! i < 2 ^ 63" using assms(2,3) within_length [OF assms(1)] by (simp add: list_all_length)
  with within_nth [OF assms(1,3)] show ?thesis by linarith
qed

lemma within_mono: "within A h \<Longrightarrow> list_all2 (\<le>) A B \<Longrightarrow> within B h"
  by (induction A arbitrary: h B) (auto simp: within_def list_all2_Cons1)

subsection \<open>Numbers in bytes\<close>

lemma take_bit_split: "take_bit (a + b) V = take_bit a V + 2 ^ a * take_bit b (drop_bit a (V :: int))"
  by (simp add: take_bit_eq_mod drop_bit_eq_div power_add zmod_zmult2_eq)

lemma sint_small: "uint (w :: u64) < 2 ^ 63 \<Longrightarrow> sint w = uint w"
  by (intro sint_eq_64) simp_all

lemma take_bit_range: "0 \<le> take_bit n (V :: int)" "take_bit n (V :: int) < 2 ^ n"
  by simp_all



text \<open>The number in an array of bytes, the lowest byte first.\<close>

primrec le_val :: "byte_array \<Rightarrow> int" where
  "le_val [] = 0"
| "le_val (b # bs) = uint b + 256 * le_val bs"

lemma le_val_range: "0 \<le> le_val bs" "le_val bs < 256 ^ length bs"
proof (induction bs)
  case (Cons b bs)
  have "uint b < 256" "0 \<le> uint b" using uint_lt2p [of b] by simp_all
  then show "0 \<le> le_val (b # bs)" "le_val (b # bs) < 256 ^ length (b # bs)" using Cons by simp_all
qed simp_all

lemma le_val_inject: "length xs = length ys \<Longrightarrow> le_val xs = le_val ys \<Longrightarrow> xs = ys"
proof (induction xs arbitrary: ys)
  case (Cons x xs)
  then obtain y zs where ys: "ys = y # zs" by (cases ys) auto
  have "uint x = le_val (x # xs) mod 256" "uint y = le_val (y # zs) mod 256"
    using uint_lt2p [of x] uint_lt2p [of y] by simp_all
  moreover have "le_val (x # xs) = le_val (y # zs)" using Cons.prems(2) ys by simp
  ultimately have x: "uint x = uint y" by metis
  then have "x = y" by (rule word_uint_eqI)
  moreover have "le_val xs = le_val zs" using Cons.prems(2) ys x by simp
  ultimately show ?case using Cons.IH Cons.prems(1) ys by simp
qed simp

lemma le_val_eq_0: "le_val bs = 0 \<longleftrightarrow> (\<forall>b \<in> set bs. b = 0)"
proof (induction bs)
  case (Cons b bs)
  have "0 \<le> uint b" "0 \<le> le_val bs" by (simp_all add: le_val_range)
  then have "le_val (b # bs) = 0 \<longleftrightarrow> b = 0 \<and> le_val bs = 0" by (auto simp: uint_0_iff add_nonneg_eq_0_iff)
  then show ?case using Cons by simp
qed simp

lemma le_val_append: "le_val (xs @ ys) = le_val xs + 256 ^ length xs * le_val ys"
  by (induction xs) (simp_all add: algebra_simps)

lemma le_val_take: "le_val (take n bs) = take_bit (8 * n) (le_val bs)"
proof (cases "n \<le> length bs")
  case True
  have "256 ^ n = (2 :: int) ^ (8 * n)" by (simp add: power_mult)
  moreover have "le_val bs = le_val (take n bs) + 256 ^ n * le_val (drop n bs)"
    using le_val_append [of "take n bs" "drop n bs"] True by simp
  ultimately show ?thesis
    using le_val_range [of "take n bs"] True by (simp add: take_bit_eq_mod)
next
  case False
  then have "le_val bs < 256 ^ n"
    using le_val_range(2) [of bs] power_increasing [of "length bs" n "256 :: int"] by linarith
  then show ?thesis
    using le_val_range(1) [of bs] False by (simp add: take_bit_eq_mod power_mult)
qed

lemma le_val_drop: "le_val (drop n bs) = drop_bit (8 * n) (le_val bs)"
proof (cases "n \<le> length bs")
  case True
  have "256 ^ n = (2 :: int) ^ (8 * n)" by (simp add: power_mult)
  moreover have "le_val bs = le_val (take n bs) + 256 ^ n * le_val (drop n bs)"
    using le_val_append [of "take n bs" "drop n bs"] True by simp
  ultimately show ?thesis
    using le_val_range [of "take n bs"] True by (simp add: drop_bit_eq_div)
next
  case False
  then have "le_val bs < 256 ^ n"
    using le_val_range(2) [of bs] power_increasing [of "length bs" n "256 :: int"] by linarith
  then show ?thesis
    using le_val_range(1) [of bs] False by (simp add: drop_bit_eq_div power_mult)
qed

lemma int_or_push: "0 \<le> a \<Longrightarrow> a < 2 ^ n \<Longrightarrow> a OR push_bit n b = a + 2 ^ n * (b :: int)"
  using concat_bit_eq [of n a b] by (simp add: concat_bit_def take_bit_int_eq_self push_bit_eq_mult mult.commute)

text \<open>One byte of a limb, and a byte shared by two limbs.\<close>

lemma uint_byte:
  fixes w :: "'a::len word"
  assumes "8 \<le> LENGTH('a)"
  shows "uint (ucast w :: u8) = sint w mod 256"
proof -
  have "(ucast w :: u8) = of_int (sint w)"
    using assms by (intro bit_word_eqI) (auto simp: bit_simps)
  then show ?thesis by (simp only: unsigned_of_int) (simp add: take_bit_eq_mod)
qed

lemma byte_drop:
  fixes x :: "'a::len word"
  assumes "8 \<le> LENGTH('a)"
  shows "uint (ucast (signed_drop_bit n x) :: u8) = sint x div 2 ^ n mod 256"
  using assms by (simp add: uint_byte sint_signed_drop_bit_eq drop_bit_eq_div)

lemma byte_or:
  fixes x y :: "'a::len word"
  assumes "8 \<le> LENGTH('a)" "0 \<le> sint x" "sint x div 2 ^ n < 2 ^ k" "k \<le> 8"
  shows "uint (ucast (signed_drop_bit n x OR push_bit k y) :: u8) = sint x div 2 ^ n + 2 ^ k * (sint y mod 2 ^ (8 - k))"
proof -
  have k: "(256 :: int) = 2 ^ k * 2 ^ (8 - k)" using assms(4) by (simp flip: power_add)
  have y: "(ucast (push_bit k y) :: u8) = of_int (2 ^ k * sint y)"
    using assms(1) by (intro bit_word_eqI) (auto simp: bit_simps mult.commute simp flip: push_bit_eq_mult)
  have "uint (of_int (2 ^ k * sint y) :: u8) = push_bit k (sint y mod 2 ^ (8 - k))"
    unfolding unsigned_of_int by (simp add: take_bit_eq_mod push_bit_eq_mult k mult.commute [of "2 ^ k"] mod_mult_mult2)
  moreover have "sint x div 2 ^ n mod 256 = sint x div 2 ^ n"
    using assms(2,3,4) power_increasing [of k 8 "2 :: int"] by (intro mod_pos_pos_trivial) (simp_all add: pos_imp_zdiv_nonneg_iff)
  ultimately have "uint (ucast (signed_drop_bit n x) :: u8) OR uint (ucast (push_bit k y) :: u8) =
      sint x div 2 ^ n OR push_bit k (sint y mod 2 ^ (8 - k))"
    by (simp only: y byte_drop [OF assms(1)])
  also have "\<dots> = sint x div 2 ^ n + 2 ^ k * (sint y mod 2 ^ (8 - k))"
    using assms(2,3) by (intro int_or_push) (simp_all add: pos_imp_zdiv_nonneg_iff)
  finally show ?thesis by (simp only: unsigned_or_eq)
qed

lemma div_power_less: "x < 2 ^ (n + k) \<Longrightarrow> x div 2 ^ n < (2 :: int) ^ k"
proof (rule ccontr)
  assume x: "x < 2 ^ (n + k)" and "\<not> x div 2 ^ n < 2 ^ k"
  then have "(2 :: int) ^ n * 2 ^ k \<le> 2 ^ n * (x div 2 ^ n)" by (intro mult_left_mono) auto
  moreover have "2 ^ n * (x div 2 ^ n) \<le> x"
    using mult_div_mod_eq [of "2 ^ n" x] pos_mod_sign [of "2 ^ n" x] zero_less_power [of "2 :: int" n] by linarith
  ultimately show False using x unfolding power_add by linarith
qed

text \<open>The parts into which the stored bytes cut a limb.\<close>

lemma limb_cut: "(x :: int) div 2 ^ a = x div 2 ^ a mod 256 + 256 * (x div 2 ^ (a + 8))"
proof -
  have "x div 2 ^ (a + 8) = x div 2 ^ a div 256" by (simp add: power_add zdiv_zmult2_eq)
  then show ?thesis by simp
qed

lemma limb_sum2:
  assumes "b = a + 8"
  shows "x mod 2 ^ a + 2 ^ a * (x div 2 ^ a mod 256) + 2 ^ b * (x div 2 ^ b) = (x :: int)"
proof -
  have "2 ^ a * (x div 2 ^ a) = 2 ^ a * (x div 2 ^ a mod 256 + 256 * (x div 2 ^ b))"
    using limb_cut [of x a] assms by simp
  moreover have "(2 :: int) ^ b = 2 ^ a * 256" by (simp add: assms power_add)
  ultimately show ?thesis using mult_div_mod_eq [of "2 ^ a" x] by (simp add: algebra_simps)
qed

lemma limb_sum:
  assumes "b = a + 8" "c = b + 8"
  shows "x mod 2 ^ a + 2 ^ a * (x div 2 ^ a mod 256) + 2 ^ b * (x div 2 ^ b mod 256) + 2 ^ c * (x div 2 ^ c) = (x :: int)"
proof -
  define p y m z n w where d: "p = (2 :: int) ^ a" "y = x div p" "m = y mod 256" "z = x div (256 * p)" "n = z mod 256" "w = x div (65536 * p)"
  have bc: "(2 :: int) ^ b = 256 * p" "(2 :: int) ^ c = 65536 * p" by (simp_all add: d(1) assms power_add)
  have yz: "y = m + 256 * z" "z = n + 256 * w" and x: "x = x mod p + p * y"
    using limb_cut [of x a] limb_cut [of x b] unfolding assms(1,2) [symmetric] bc by (simp_all add: d(2-) flip: d(1))
  have "p * y = p * m + 256 * p * n + 65536 * p * w" by (simp add: yz algebra_simps)
  with x have "x mod p + p * m + 256 * p * n + 65536 * p * w = x" by linarith
  then show ?thesis by (simp only: bc flip: d)
qed

end
