(* ===== verification/Tasks.thy ===== *)
theory Tasks
  imports Packets SignedWords
begin

text \<open>
  The list of messages a node sends and repeats (\<open>Task\<close> and \<open>TaskManager\<close> of \<open>net/include/net/Structures.hpp\<close>).
  Time points are counts of nanoseconds, as those of \<open>std::chrono::steady_clock\<close>, and timeouts counts of milliseconds;
  both are signed 64-bit numbers, read with \<^const>\<open>sint\<close>, and adding a timeout to a time point multiplies it by a million.
  An overflow, which the source leaves undefined, wraps around.  A task holds the addresses of its packets, which
  tasks may share.  Every reading of the clock is an argument: \<open>run\<close> reads it once at the start and once per task.
\<close>

type_synonym time_point = u64

type_synonym milliseconds = u64

type_synonym endpoint = "u32 \<times> u16"

record task =
  t_nextLaunch :: time_point
  t_timeout :: milliseconds
  t_packets :: "nat list"
  t_lastSize :: nat
  t_receivers :: "endpoint list"
  t_broadcast :: bool

definition BROADCAST_INIT_TIMEOUT :: milliseconds where
  "BROADCAST_INIT_TIMEOUT = 2"

definition DIRECT_INIT_TIMEOUT :: milliseconds where
  "DIRECT_INIT_TIMEOUT = 2"

definition MAX_TIMEOUT :: milliseconds where
  "MAX_TIMEOUT = 1024"

definition task_direct :: "time_point \<Rightarrow> nat list \<Rightarrow> nat \<Rightarrow> endpoint \<Rightarrow> task" where
  "task_direct now packs sz ep =
     \<lparr>t_nextLaunch = now, t_timeout = DIRECT_INIT_TIMEOUT, t_packets = packs, t_lastSize = headerLength + sz,
      t_receivers = [ep], t_broadcast = False\<rparr>"

definition task_broadcast :: "time_point \<Rightarrow> nat list \<Rightarrow> nat \<Rightarrow> endpoint list \<Rightarrow> task" where
  "task_broadcast now packs sz recvs =
     \<lparr>t_nextLaunch = now, t_timeout = BROADCAST_INIT_TIMEOUT, t_packets = packs, t_lastSize = headerLength + sz,
      t_receivers = recvs, t_broadcast = True\<rparr>"

text \<open>A \<open>TaskId\<close> is an iterator of the list; here every task has a number of its own.\<close>

record task_manager =
  tm_running :: bool
  tm_nextTime :: time_point
  tm_tasks :: "(nat \<times> task) list"
  tm_fresh :: nat

definition task_manager_new :: "time_point \<Rightarrow> task_manager" where
  "task_manager_new now = \<lparr>tm_running = True, tm_nextTime = now, tm_tasks = [], tm_fresh = 0\<rparr>"

definition tasks_stop :: "task_manager \<Rightarrow> task_manager" where
  "tasks_stop tm = tm\<lparr>tm_running := False\<rparr>"

definition tasks_add :: "task \<Rightarrow> task_manager \<Rightarrow> nat \<times> task_manager" where
  "tasks_add t tm =
     (let tm = (if tm_tasks tm = [] \<or> sint (t_nextLaunch t) < sint (tm_nextTime tm) then tm\<lparr>tm_nextTime := t_nextLaunch t\<rparr> else tm)
      in (tm_fresh tm, tm\<lparr>tm_tasks := (tm_fresh tm, t) # tm_tasks tm, tm_fresh := Suc (tm_fresh tm)\<rparr>))"

text \<open>Erasing an iterator that is not one of the list is undefined.\<close>

definition tasks_remove :: "nat \<Rightarrow> task_manager \<Rightarrow> task_manager option" where
  "tasks_remove i tm =
     (if i \<in> fst ` set (tm_tasks tm) then Some (tm\<lparr>tm_tasks := filter (\<lambda>(j, _). j \<noteq> i) (tm_tasks tm)\<rparr>) else None)"

definition tasks_clear :: "task_manager \<Rightarrow> task_manager" where
  "tasks_clear tm = tm\<lparr>tm_tasks := []\<rparr>"

definition relaunch :: "task \<Rightarrow> task" where
  "relaunch t =
     (let t = t\<lparr>t_nextLaunch := t_nextLaunch t + 1000000 * t_timeout t\<rparr>
      in t\<lparr>t_timeout := (if t_timeout t = MAX_TIMEOUT
                       then (if t_broadcast t then BROADCAST_INIT_TIMEOUT else DIRECT_INIT_TIMEOUT)
                       else t_timeout t * 4)\<rparr>)"

text \<open>The loop over the tasks: \<open>f\<close> acts on a state \<open>s\<close> of its own; \<open>clock i\<close> is the reading for the task \<open>i\<close>.\<close>

primrec run_loop ::
  "(task \<Rightarrow> 's \<Rightarrow> 's) \<Rightarrow> bool \<Rightarrow> (nat \<Rightarrow> time_point) \<Rightarrow> nat \<Rightarrow> (nat \<times> task) list \<Rightarrow> time_point \<Rightarrow> 's \<Rightarrow>
   (nat \<times> task) list \<times> time_point \<times> 's" where
  "run_loop f wroteNewNT clock i [] nextTime s = ([], nextTime, s)"
| "run_loop f wroteNewNT clock i (t # ts) nextTime s =
     (let (t', s) = (if sint (t_nextLaunch (snd t)) \<le> sint (clock i) then (relaunch (snd t), f (snd t) s) else (snd t, s));
          nextTime = (if \<not> wroteNewNT \<or> sint (t_nextLaunch t') < sint nextTime then t_nextLaunch t' else nextTime);
          (ts, nextTime, s) = run_loop f wroteNewNT clock (Suc i) ts nextTime s
      in ((fst t, t') # ts, nextTime, s))"

definition tasks_run :: "(task \<Rightarrow> 's \<Rightarrow> 's) \<Rightarrow> (nat \<Rightarrow> time_point) \<Rightarrow> task_manager \<Rightarrow> 's \<Rightarrow> task_manager \<times> 's" where
  "tasks_run f clock tm s =
     (if sint (tm_nextTime tm) > sint (clock 0) then (tm, s)
      else let (ts, nextTime, s) = run_loop f False clock 1 (tm_tasks tm) (tm_nextTime tm) s
           in (tm\<lparr>tm_tasks := ts, tm_nextTime := nextTime\<rparr>, s))"

subsection \<open>The schedule of a task\<close>

lemma power_4_not_512: "4 ^ k \<noteq> (512 :: int)"
proof (cases "k < 5")
  case True
  then have "k \<in> {0, 1, 2, 3, 4}" by auto
  then show ?thesis by auto
next
  case False
  then have "(4 :: int) ^ 5 \<le> 4 ^ k"
    by (intro power_increasing) simp_all
  then show ?thesis by simp
qed

text \<open>The time that has passed after \<open>k\<close> launches, in nanoseconds.\<close>

primrec elapsed :: "nat \<Rightarrow> int" where
  "elapsed 0 = 0"
| "elapsed (Suc k) = elapsed k + 1000000 * (2 * 4 ^ k)"

lemma elapsed: "3 * elapsed k = 2000000 * (4 ^ k - 1)" "0 \<le> elapsed k"
  by (induction k) simp_all

lemma relaunch_timeout:
  assumes "t_timeout t = 2" "0 \<le> sint (t_nextLaunch t)" "sint (t_nextLaunch t) + elapsed k < 2 ^ 63"
  shows "sint (t_timeout ((relaunch ^^ k) t)) = 2 * 4 ^ k \<and> sint (t_nextLaunch ((relaunch ^^ k) t)) = sint (t_nextLaunch t) + elapsed k"
  using assms(3)
proof (induction k)
  case 0
  then show ?case using assms(1) by simp
next
  case (Suc k)
  let ?u = "(relaunch ^^ k) t" and ?l = "sint (t_nextLaunch t) + elapsed k"
  have b: "0 \<le> ?l" "0 < (4 :: int) ^ k" using assms(2) elapsed(2) [of k] by simp_all
  then have "?l < 2 ^ 63" using Suc.prems unfolding elapsed.simps by linarith
  then have IH: "sint (t_timeout ?u) = 2 * 4 ^ k" "sint (t_nextLaunch ?u) = ?l"
    using Suc.IH by blast+
  have t: "t_timeout ?u = of_int (2 * 4 ^ k)" "t_nextLaunch ?u = of_int ?l"
    unfolding IH [symmetric] by simp_all
  have "t_timeout ?u \<noteq> MAX_TIMEOUT"
  proof
    assume "t_timeout ?u = MAX_TIMEOUT"
    then have "sint (t_timeout ?u) = 1024" by (simp add: MAX_TIMEOUT_def)
    then show False using IH(1) power_4_not_512 [of k] by simp
  qed
  then have r: "relaunch ?u = ?u\<lparr>t_nextLaunch := of_int ?l + 1000000 * of_int (2 * 4 ^ k), t_timeout := of_int (2 * 4 ^ k) * 4\<rparr>"
    by (simp add: relaunch_def Let_def t)
  have "sint (of_int (2 * 4 ^ k) * 4 :: u64) = 2 * 4 ^ Suc k"
    using Suc.prems b by (intro sint_eq_64) simp_all
  moreover have "sint (of_int ?l + 1000000 * of_int (2 * 4 ^ k) :: u64) = ?l + 1000000 * (2 * 4 ^ k)"
    using Suc.prems b by (intro sint_eq_64) simp_all
  ultimately show ?case by (simp add: r)
qed

text \<open>Every pass over the tasks leaves in \<open>nextTime_\<close> the time of the last one.\<close>

lemma run_loop_next:
  "run_loop f False clock i ts nt s = (ts', nt', s') \<Longrightarrow>
    length ts' = length ts \<and> nt' = (if ts = [] then nt else t_nextLaunch (snd (last ts')))"
proof (induction ts arbitrary: i nt s ts')
  case (Cons t ts)
  obtain t1 s1 where t1: "(if sint (t_nextLaunch (snd t)) \<le> sint (clock i) then (relaunch (snd t), f (snd t) s) else (snd t, s)) = (t1, s1)"
    by fastforce
  obtain ts1 where ts1: "run_loop f False clock (Suc i) ts (t_nextLaunch t1) s1 = (ts1, nt', s')" "ts' = (fst t, t1) # ts1"
    using Cons.prems by (auto simp: t1 split: prod.splits)
  show ?case
    using Cons.IH [OF ts1(1)] ts1(2) by auto
qed simp

text \<open>C27: a task is repeated after 2, 8, 32, ... milliseconds: as long as its times are in the range of the clock, the
  timeout is multiplied by four at every launch and never equals \<open>MAX_TIMEOUT\<close>.  After a pass over the tasks and as
  long as no task is added, nothing is sent until the task that is last in the list, the oldest one, is due, whatever
  the others wait for.  Adding a task moves the next pass forward to its launch if that is earlier.\<close>

theorem tasks_schedule:
  assumes "t = task_direct now packs sz ep \<or> t = task_broadcast now packs sz recvs"
    and "0 \<le> sint now" "sint now + elapsed k < 2 ^ 63"
    and "tm_tasks tm \<noteq> []" "sint (tm_nextTime tm) \<le> sint (clock 0)" "tasks_run f clock tm s = (tm', s')"
    and "sint (clock' 0) < sint (t_nextLaunch (snd (last (tm_tasks tm'))))"
  shows "sint (t_timeout ((relaunch ^^ k) t)) = 2 * 4 ^ k \<and> t_timeout ((relaunch ^^ k) t) \<noteq> MAX_TIMEOUT \<and>
    sint (t_nextLaunch ((relaunch ^^ k) t)) = sint now + elapsed k \<and> 3 * elapsed k = 2000000 * (4 ^ k - 1) \<and>
    tasks_run f clock' tm' s' = (tm', s') \<and>
    sint (tm_nextTime (snd (tasks_add u tm'))) = min (sint (t_nextLaunch u)) (sint (t_nextLaunch (snd (last (tm_tasks tm')))))"
proof -
  have t: "t_timeout t = 2" "t_nextLaunch t = now"
    using assms(1) by (auto simp: task_direct_def task_broadcast_def DIRECT_INIT_TIMEOUT_def BROADCAST_INIT_TIMEOUT_def)
  obtain ts' nt' where loop: "run_loop f False clock 1 (tm_tasks tm) (tm_nextTime tm) s = (ts', nt', s')"
    "tm' = tm\<lparr>tm_tasks := ts', tm_nextTime := nt'\<rparr>"
    using assms(5,6) by (auto simp: tasks_run_def split: prod.splits)
  have nt: "tm_nextTime tm' = t_nextLaunch (snd (last (tm_tasks tm')))" "tm_tasks tm' \<noteq> []"
    using run_loop_next [OF loop(1)] loop(2) assms(4) by auto
  note r = relaunch_timeout [OF t(1), unfolded t(2), OF assms(2,3)]
  have "t_timeout ((relaunch ^^ k) t) \<noteq> MAX_TIMEOUT"
  proof
    assume "t_timeout ((relaunch ^^ k) t) = MAX_TIMEOUT"
    then have "sint (t_timeout ((relaunch ^^ k) t)) = 1024" by (simp add: MAX_TIMEOUT_def)
    then show False using r power_4_not_512 [of k] by simp
  qed
  moreover have "tasks_run f clock' tm' s' = (tm', s')"
    using assms(7) nt(1) by (simp add: tasks_run_def)
  moreover have "sint (tm_nextTime (snd (tasks_add u tm'))) = min (sint (t_nextLaunch u)) (sint (t_nextLaunch (snd (last (tm_tasks tm')))))"
    using nt by (simp add: tasks_add_def Let_def)
  ultimately show ?thesis
    using r elapsed(1) [of k] by simp
qed

theorem tasks_schedule_witness:
  "let old = (relaunch ^^ 5) (task_direct 0 [] 0 (1, 9001)); new = task_direct 700000000 [] 0 (2, 9001);
       tm = \<lparr>tm_running = True, tm_nextTime = 600000000, tm_tasks = [(1, new), (0, old)], tm_fresh = 2\<rparr>;
       (tm', s') = tasks_run (\<lambda>t. (#) (t_nextLaunch t)) (\<lambda>_. 700000000) tm []
   in s' = [682000000, 700000000] \<and> t_nextLaunch (snd (hd (tm_tasks tm'))) = 702000000 \<and>
     tasks_run (\<lambda>t. (#) (t_nextLaunch t)) (\<lambda>_. 2000000000) tm' s' = (tm', s')"
proof -
  define old where "old = (relaunch ^^ 5) (task_direct 0 [] 0 (1, 9001))"
  define new where "new = task_direct 700000000 [] 0 (2, 9001)"
  define tm where "tm = \<lparr>tm_running = True, tm_nextTime = 600000000, tm_tasks = [(1, new), (0, old)], tm_fresh = 2\<rparr>"
  define f :: "task \<Rightarrow> u64 list \<Rightarrow> u64 list" where "f = (\<lambda>t. (#) (t_nextLaunch t))"
  obtain tm' s' where run: "tasks_run f (\<lambda>_. 700000000) tm [] = (tm', s')" by fastforce
  have five: "(relaunch ^^ 5) u = relaunch (relaunch (relaunch (relaunch (relaunch u))))" for u
    by (simp add: eval_nat_numeral)
  have old: "t_nextLaunch old = 682000000" "t_timeout old = 2048" and new: "t_nextLaunch new = 700000000" "t_timeout new = 2"
    by (simp_all add: old_def five new_def task_direct_def relaunch_def MAX_TIMEOUT_def DIRECT_INIT_TIMEOUT_def Let_def)
  have tm': "tm' = tm\<lparr>tm_tasks := [(1, relaunch new), (0, relaunch old)], tm_nextTime := 2730000000\<rparr>" "s' = [682000000, 700000000]"
    using run old new by (simp_all add: tasks_run_def tm_def f_def relaunch_def Let_def)
  have "tm_tasks tm \<noteq> []" "sint (tm_nextTime tm) \<le> sint (700000000 :: u64)"
    by (simp_all add: tm_def)
  moreover have "sint (2000000000 :: u64) < sint (t_nextLaunch (snd (last (tm_tasks tm'))))"
    using old by (simp add: tm' relaunch_def Let_def)
  moreover have "0 \<le> sint (700000000 :: u64)" "sint (700000000 :: u64) + elapsed 0 < 2 ^ 63" by simp_all
  ultimately have "tasks_run f (\<lambda>_. 2000000000) tm' s' = (tm', s')"
    using tasks_schedule [of new 700000000 "[]" 0 "(2, 9001)" "[]" 0 tm "\<lambda>_. 700000000" f "[]" tm' s' "\<lambda>_. 2000000000" new] run new_def
    by blast
  moreover have "t_nextLaunch (snd (hd (tm_tasks tm'))) = 702000000"
    using new by (simp add: tm' relaunch_def Let_def)
  ultimately show ?thesis
    unfolding Let_def old_def [symmetric] new_def [symmetric] tm_def [symmetric] f_def [symmetric] run
    by (simp add: tm'(2))
qed

end
