(* ===== verification/Packstream.thy ===== *)
theory Packstream
  imports Packets TransactionSig Pool
begin

text \<open>
  The streams a node reads messages from and writes them to (\<open>csnode/include/csnode/Packstream.hpp\<close>,
  \<open>csnode/src/Packstream.cpp\<close>).  An \<open>IPackStream\<close> walks over memory with two pointers; pointers are 64-bit
  words and the comparison in \<open>operator>>\<close> is one of unsigned words, as in the source, so it
  does not stop at the end of the message.  The memory is a function on all addresses; reading an address that the
  process does not own is undefined in the program, and the theorems say which addresses are read.  An \<open>OPackStream\<close> cuts what is written into packets; its
  content is everything written since \<open>init\<close>.
\<close>

subsection \<open>Reading\<close>

record ipackstream =
  is_ptr :: u64
  is_end :: u64
  is_good :: bool

definition istream_init :: "u64 \<Rightarrow> u64 \<Rightarrow> ipackstream" where
  "istream_init ptr sz = \<lparr>is_ptr = ptr, is_end = ptr + sz, is_good = True\<rparr>"

definition read_mem :: "(u64 \<Rightarrow> u8) \<Rightarrow> u64 \<Rightarrow> nat \<Rightarrow> byte_array" where
  "read_mem mem p n = map (\<lambda>i. mem (p + of_nat i)) [0..<n]"

definition istream_get :: "(u64 \<Rightarrow> u8) \<Rightarrow> nat \<Rightarrow> ipackstream \<Rightarrow> byte_array option \<times> ipackstream" where
  "istream_get mem n is =
     (if is_ptr is - is_end is < of_nat n then (None, is\<lparr>is_good := False\<rparr>)
      else (Some (read_mem mem (is_ptr is) n), is\<lparr>is_ptr := is_ptr is + of_nat n\<rparr>))"

definition istream_get_fixed :: "(u64 \<Rightarrow> u8) \<Rightarrow> nat \<Rightarrow> ipackstream \<Rightarrow> byte_array option \<times> ipackstream" where
  "istream_get_fixed mem Length is =
     (if is_end is - is_ptr is < of_nat Length then (None, is\<lparr>is_good := False\<rparr>)
      else (Some (read_mem mem (is_ptr is) Length), is\<lparr>is_ptr := is_ptr is + of_nat Length\<rparr>))"

definition istream_at_end :: "ipackstream \<Rightarrow> bool" where
  "istream_at_end is \<longleftrightarrow> is_ptr is = is_end is"

definition istream_bool :: "ipackstream \<Rightarrow> bool" where
  "istream_bool is \<longleftrightarrow> is_good is \<and> \<not> istream_at_end is"

definition istream_get_node :: "(u64 \<Rightarrow> u8) \<Rightarrow> ipackstream \<Rightarrow> u32 option \<times> ipackstream" where
  "istream_get_node mem is =
     (let (uintIp, is) = istream_get mem 4 is in (if is_good is then map_option le_word uintIp else None, is))"

text \<open>A string, a transaction and a pool take everything up to the end.\<close>

definition istream_get_string :: "(u64 \<Rightarrow> u8) \<Rightarrow> ipackstream \<Rightarrow> byte_array \<times> ipackstream" where
  "istream_get_string mem is = (read_mem mem (is_ptr is) (unat (is_end is - is_ptr is)), is\<lparr>is_ptr := is_end is\<rparr>)"

definition tr_from_byte_stream :: "byte_array \<Rightarrow> transaction" where
  "tr_from_byte_stream data = (case get_transaction data of None \<Rightarrow> transaction_default | Some (t, _) \<Rightarrow> t)"

definition istream_get_transaction :: "(u64 \<Rightarrow> u8) \<Rightarrow> ipackstream \<Rightarrow> transaction \<times> ipackstream" where
  "istream_get_transaction mem is =
     (tr_from_byte_stream (read_mem mem (is_ptr is) (unat (is_end is - is_ptr is))), is\<lparr>is_ptr := is_end is\<rparr>)"

definition istream_get_pool ::
  "(byte_array \<Rightarrow> pool) \<Rightarrow> (u64 \<Rightarrow> u8) \<Rightarrow> ipackstream \<Rightarrow> pool \<times> ipackstream" where
  "istream_get_pool from_byte_stream mem is =
     (from_byte_stream (read_mem mem (is_ptr is) (unat (is_end is - is_ptr is))), is\<lparr>is_ptr := is_end is\<rparr>)"

subsection \<open>Writing\<close>

text \<open>\<open>os_ptr\<close> is the distance of \<open>ptr_\<close> from the start of the last packet's data, \<open>os_left\<close> the one to
  \<open>end_\<close>.  \<open>fresh i\<close> is the packet \<open>getEmptyPacket\<close> gives for the part \<open>i\<close>, with whatever its memory holds.\<close>

record opackstream =
  os_parts :: "packet list"
  os_ptr :: nat
  os_left :: nat

definition newPack :: "(nat \<Rightarrow> packet) \<Rightarrow> opackstream \<Rightarrow> opackstream" where
  "newPack fresh os = \<lparr>os_parts = os_parts os @ [fresh (length (os_parts os))], os_ptr = 0, os_left = max_length\<rparr>"

definition ostream_init :: "(nat \<Rightarrow> packet) \<Rightarrow> opackstream \<Rightarrow> opackstream" where
  "ostream_init fresh os = newPack fresh (os\<lparr>os_parts := []\<rparr>)"

definition poke :: "byte_array \<Rightarrow> opackstream \<Rightarrow> opackstream" where
  "poke bytes os =
     (let p = last (os_parts os)
      in os\<lparr>os_parts := butlast (os_parts os) @ [p\<lparr>pk_data := memcpy_at (pk_data p) (os_ptr os) bytes\<rparr>]\<rparr>)"

definition advance :: "nat \<Rightarrow> opackstream \<Rightarrow> opackstream" where
  "advance n os = os\<lparr>os_ptr := os_ptr os + n, os_left := os_left os - n\<rparr>"

definition ostream_put :: "(nat \<Rightarrow> packet) \<Rightarrow> byte_array \<Rightarrow> opackstream \<Rightarrow> opackstream" where
  "ostream_put fresh d os =
     (let left = os_left os
      in if length d \<le> left then advance (length d) (poke d os)
         else (let os = newPack fresh (poke (take left d) os)
               in advance (length d - left) (poke (drop left d) os)))"

function insertBytes :: "(nat \<Rightarrow> packet) \<Rightarrow> byte_array \<Rightarrow> opackstream \<Rightarrow> opackstream" where
  "insertBytes fresh bytes os =
     (if 0 < length bytes
      then (let os = (if os_left os = 0 then newPack fresh os else os);
                toPut = min (os_left os) (length bytes)
            in insertBytes fresh (drop toPut bytes) (advance toPut (poke (take toPut bytes) os)))
      else os)"
  by auto
termination
  by (relation "measure (\<lambda>(fresh, bytes, os). length bytes)") (auto simp: newPack_def)

declare insertBytes.simps [simp del]

definition ostream_put_node :: "(nat \<Rightarrow> packet) \<Rightarrow> u32 \<Rightarrow> opackstream \<Rightarrow> opackstream" where
  "ostream_put_node fresh d os = ostream_put fresh (put_int d) os"

definition ostream_put_string :: "(nat \<Rightarrow> packet) \<Rightarrow> byte_array \<Rightarrow> opackstream \<Rightarrow> opackstream" where
  "ostream_put_string fresh str os = insertBytes fresh str os"

definition ostream_put_fixed :: "(nat \<Rightarrow> packet) \<Rightarrow> byte_array \<Rightarrow> opackstream \<Rightarrow> opackstream" where
  "ostream_put_fixed fresh str os = insertBytes fresh str os"

definition ostream_put_transaction :: "(nat \<Rightarrow> packet) \<Rightarrow> transaction \<Rightarrow> opackstream \<Rightarrow> opackstream" where
  "ostream_put_transaction fresh tr os = insertBytes fresh (tr_to_byte_stream tr) os"

definition ostream_put_pool :: "(nat \<Rightarrow> packet) \<Rightarrow> pool \<Rightarrow> opackstream \<Rightarrow> opackstream" where
  "ostream_put_pool fresh p os = insertBytes fresh (fst (to_byte_stream p)) os"

definition lastSize :: "opackstream \<Rightarrow> nat" where
  "lastSize os = os_ptr os"

subsection \<open>The content of an output stream\<close>

definition ostream_inv :: "opackstream \<Rightarrow> bool" where
  "ostream_inv os \<longleftrightarrow> os_parts os \<noteq> [] \<and> (\<forall>p \<in> set (os_parts os). packet_ok p) \<and> os_ptr os + os_left os = max_length"

definition content :: "opackstream \<Rightarrow> byte_array" where
  "content os = concat (map pk_data (butlast (os_parts os))) @ take (os_ptr os) (pk_data (last (os_parts os)))"

lemma init_content:
  assumes "\<And>i. packet_ok (fresh i)"
  shows "ostream_inv (ostream_init fresh os)" "content (ostream_init fresh os) = []"
  using assms by (simp_all add: ostream_inv_def content_def ostream_init_def newPack_def)

text \<open>Writing that fits, and a new packet once the last one is full.\<close>

lemma put_fits:
  assumes "ostream_inv os" "length d \<le> os_left os"
  shows "ostream_inv (advance (length d) (poke d os))" "content (advance (length d) (poke d os)) = content os @ d"
    "os_left (advance (length d) (poke d os)) = os_left os - length d"
proof -
  have "packet_ok (last (os_parts os))"
    using assms(1) by (simp add: ostream_inv_def)
  then have "length (pk_data (last (os_parts os))) = max_length" by (simp add: packet_ok_def)
  moreover have "os_ptr os + length d \<le> max_length"
    using assms by (simp add: ostream_inv_def)
  ultimately show "ostream_inv (advance (length d) (poke d os))"
    "content (advance (length d) (poke d os)) = content os @ d"
    using assms by (auto simp: ostream_inv_def content_def advance_def poke_def Let_def length_memcpy_at
        take_memcpy_at packet_ok_def dest: in_set_butlastD)
  show "os_left (advance (length d) (poke d os)) = os_left os - length d"
    by (simp add: advance_def poke_def Let_def)
qed

lemma new_content:
  assumes "\<And>i. packet_ok (fresh i)" "ostream_inv os" "os_left os = 0"
  shows "ostream_inv (newPack fresh os)" "content (newPack fresh os) = content os"
proof -
  have "concat (map pk_data (os_parts os)) = concat (map pk_data (butlast (os_parts os) @ [last (os_parts os)]))"
    using assms(2) by (simp add: ostream_inv_def)
  then show "content (newPack fresh os) = content os"
    using assms(2,3) by (simp add: content_def newPack_def ostream_inv_def packet_ok_def)
  show "ostream_inv (newPack fresh os)"
    using assms by (auto simp: ostream_inv_def newPack_def)
qed

lemma insert_content:
  shows "(\<And>i. packet_ok (fresh i)) \<Longrightarrow> ostream_inv os \<Longrightarrow> ostream_inv (insertBytes fresh bytes os) \<and> content (insertBytes fresh bytes os) = content os @ bytes"
proof (induction fresh bytes os rule: insertBytes.induct)
  case (1 fresh bytes os)
  show ?case
  proof (cases "0 < length bytes")
    case True
    define os1 where "os1 = (if os_left os = 0 then newPack fresh os else os)"
    define n where "n = min (os_left os1) (length bytes)"
    have os1: "ostream_inv os1" "content os1 = content os"
      using new_content 1(2,3) by (auto simp: os1_def)
    have n: "length (take n bytes) = n" "n \<le> os_left os1"
      by (simp_all add: n_def)
    note put = put_fits [OF os1(1), of "take n bytes", unfolded n(1), OF n(2)]
    show ?thesis
      using 1(1) [OF True os1_def n_def 1(2) put(1)] put(2) os1(2) True
      by (subst (1 2) insertBytes.simps) (simp add: True os1_def [symmetric] n_def [symmetric] Let_def)
  qed (use 1 in \<open>simp add: insertBytes.simps\<close>)
qed

lemma put_content:
  assumes "\<And>i. packet_ok (fresh i)" "ostream_inv os" "length d \<le> max_length"
  shows "ostream_inv (ostream_put fresh d os) \<and> content (ostream_put fresh d os) = content os @ d"
proof (cases "length d \<le> os_left os")
  case True
  then show ?thesis
    using put_fits [OF assms(2) True] by (simp add: ostream_put_def)
next
  case False
  let ?n = "os_left os"
  have n: "length (take ?n d) = ?n" using False by simp
  define os1 where "os1 = newPack fresh (poke (take ?n d) os)"
  have os1_eq: "os1 = newPack fresh (advance ?n (poke (take ?n d) os))"
    by (simp add: os1_def newPack_def advance_def)
  note full = put_fits [OF assms(2), of "take ?n d", unfolded n, OF order_refl]
  have os1: "ostream_inv os1" "content os1 = content os @ take ?n d"
    using new_content [of fresh, OF assms(1) full(1)] full(2,3) by (simp_all add: os1_eq)
  have "length (drop ?n d) \<le> os_left os1"
    using assms(3) by (simp add: os1_def newPack_def)
  from put_fits [OF os1(1) this] False show ?thesis
    by (simp add: ostream_put_def os1_def [symmetric] os1(2) Let_def)
qed

text \<open>How many packets hold a content.\<close>

lemma length_full_parts:
  "(\<And>p. p \<in> set ps \<Longrightarrow> length (pk_data p) = max_length) \<Longrightarrow> length (concat (map pk_data ps)) = length ps * max_length"
  by (induction ps) simp_all

lemma content_length:
  assumes "ostream_inv os"
  shows "length (content os) = (length (os_parts os) - 1) * max_length + lastSize os"
proof -
  have "length (concat (map pk_data (butlast (os_parts os)))) = (length (os_parts os) - 1) * max_length"
    using assms by (subst length_full_parts) (auto simp: ostream_inv_def packet_ok_def dest: in_set_butlastD)
  moreover have "length (pk_data (last (os_parts os))) = max_length" "os_ptr os \<le> max_length"
    using assms last_in_set by (auto simp: ostream_inv_def packet_ok_def)
  ultimately show ?thesis
    by (simp add: content_def lastSize_def)
qed

subsection \<open>Where reading stops\<close>

lemma unat_of_nat_64: "n < 2 ^ 64 \<Longrightarrow> unat (of_nat n :: u64) = n"
  by (simp add: unat_of_nat)

lemma minus_of_nat:
  assumes "a < b" "b - a < 2 ^ 64"
  shows "unat (of_nat a - of_nat b :: u64) = 2 ^ 64 - (b - a)"
proof -
  have "of_nat a - of_nat b = - (of_nat (b - a) :: u64)"
    using assms(1) by (simp add: of_nat_diff)
  moreover have "unat (of_nat (b - a) :: u64) = b - a"
    using assms(2) by (simp add: unat_of_nat)
  ultimately show ?thesis
    using assms unat_sub_if' [of 0 "of_nat (b - a) :: u64"] by (simp add: not_le)
qed

definition reads :: "(u64 \<Rightarrow> u8) \<Rightarrow> nat \<Rightarrow> nat \<Rightarrow> ipackstream \<Rightarrow> ipackstream" where
  "reads mem n k = (snd \<circ> istream_get mem n) ^^ k"

lemma past_of_nat:
  assumes "b \<le> a" "a - b < 2 ^ 64"
  shows "unat (of_nat a - of_nat b :: u64) = a - b"
proof -
  have "of_nat a - of_nat b = (of_nat (a - b) :: u64)"
    using assms(1) by (simp add: of_nat_diff)
  then show ?thesis
    using assms(2) by (simp only: unat_of_nat_64)
qed

lemma round_up:
  assumes "0 < (n :: nat)"
  shows "s \<le> n * ((s + n - 1) div n)" "n * ((s + n - 1) div n) < s + n" "k < (s + n - 1) div n \<longleftrightarrow> n * k < s"
proof -
  show "s \<le> n * ((s + n - 1) div n)" "n * ((s + n - 1) div n) < s + n"
    using assms dividend_less_div_times [of n "s + n - 1"] div_times_less_eq_dividend [of "s + n - 1" n]
    unfolding mult.commute [of n] by linarith+
  show "k < (s + n - 1) div n \<longleftrightarrow> n * k < s"
    using assms by (simp add: less_eq_div_iff_mult_less_eq Suc_le_eq [symmetric] mult.commute) linarith
qed

lemma reads_spec:
  assumes "0 < n" "unat sz + n < 2 ^ 64"
  defines "m \<equiv> (unat sz + n - 1) div n"
  shows "reads mem n k (istream_init ptr sz) =
    \<lparr>is_ptr = ptr + of_nat (n * min k m), is_end = ptr + sz, is_good = (k \<le> m)\<rparr>"
proof (induction k)
  case 0
  then show ?case by (simp add: reads_def istream_init_def)
next
  case (Suc k)
  let ?is = "\<lparr>is_ptr = ptr + of_nat (n * min k m), is_end = ptr + sz, is_good = (k \<le> m)\<rparr>"
  let ?diff = "of_nat (n * min k m) - of_nat (unat sz) :: u64"
  note m = round_up [OF assms(1), where s = "unat sz", folded m_def]
  have n: "unat (of_nat n :: u64) = n"
    using assms(2) by (simp add: unat_of_nat)
  have "?diff < of_nat n \<longleftrightarrow> m \<le> k"
  proof (cases "k < m")
    case True
    then have "n * min k m < unat sz"
      using m(3) [of k] by simp
    then have "unat ?diff = 2 ^ 64 - (unat sz - n * min k m)"
      using assms(2) by (intro minus_of_nat) simp_all
    then show ?thesis
      using True assms(2) unfolding word_less_nat_alt n by linarith
  next
    case False
    then have "unat ?diff = n * m - unat sz"
      using m(1,2) assms(2) by (subst past_of_nat) simp_all
    then show ?thesis
      using m(1,2) False assms(1) unfolding word_less_nat_alt n by linarith
  qed
  moreover have "reads mem n (Suc k) (istream_init ptr sz) = snd (istream_get mem n ?is)"
    using Suc by (simp add: reads_def)
  moreover have "is_ptr ?is - is_end ?is = ?diff"
    by simp
  ultimately show ?case
    by (auto simp: istream_get_def algebra_simps min_def)
qed

text \<open>The next value, and a fixed string after some values.\<close>

lemma value_after_reads:
  assumes "0 < n" "unat sz + n < 2 ^ 64"
  defines "m \<equiv> (unat sz + n - 1) div n"
  shows "fst (istream_get mem n (reads mem n k (istream_init ptr sz))) =
    (if k < m then Some (read_mem mem (ptr + of_nat (n * k)) n) else None)"
proof -
  let ?is = "reads mem n k (istream_init ptr sz)"
  have "is_ptr (snd (istream_get mem n ?is)) = is_ptr (reads mem n (Suc k) (istream_init ptr sz))"
    by (simp add: reads_def)
  then have p: "is_ptr (snd (istream_get mem n ?is)) = ptr + of_nat (n * min (Suc k) m)" "is_ptr ?is = ptr + of_nat (n * min k m)"
    using reads_spec [OF assms(1,2), of mem _ ptr, folded m_def] by simp_all
  have n: "(of_nat n :: u64) \<noteq> 0"
    using assms(1,2) unat_of_nat_64 [of n] by (auto simp: word_unat_eq_iff)
  show ?thesis
  proof (cases "k < m")
    case True
    then have "is_ptr (snd (istream_get mem n ?is)) = is_ptr ?is + of_nat n" unfolding p by (simp add: algebra_simps)
    then show ?thesis using True p n by (auto simp: istream_get_def split: if_splits)
  next
    case False
    then have "is_ptr (snd (istream_get mem n ?is)) = is_ptr ?is" unfolding p by simp
    then show ?thesis using False n by (auto simp: istream_get_def split: if_splits)
  qed
qed

lemma fixed_after_reads:
  fixes k :: nat
  assumes "0 < n" "unat sz + n + l < 2 ^ 64"
  defines "off \<equiv> n * min k ((unat sz + n - 1) div n)"
  shows "fst (istream_get_fixed mem l (reads mem n k (istream_init ptr sz))) =
    (if off + l \<le> unat sz \<or> unat sz < off then Some (read_mem mem (ptr + of_nat off) l) else None)"
proof -
  let ?m = "(unat sz + n - 1) div n"
  have sz: "unat sz + n < 2 ^ 64" using assms(2) by simp
  have "off \<le> n * ?m" unfolding off_def by (intro mult_le_mono2) simp
  then have off: "off < unat sz + n" using round_up(2) [OF assms(1), of "unat sz"] by simp
  have l: "unat (of_nat l :: u64) = l" using assms(2) by (intro unat_of_nat_64) simp
  let ?d = "of_nat (unat sz) - of_nat off :: u64"
  have "?d < of_nat l \<longleftrightarrow> \<not> (off + l \<le> unat sz \<or> unat sz < off)"
  proof (cases "unat sz < off")
    case True
    then have "unat ?d = 2 ^ 64 - (off - unat sz)" using off sz by (intro minus_of_nat) simp_all
    then show ?thesis using True off assms(2) unfolding word_less_nat_alt l by linarith
  next
    case False
    then have "unat ?d = unat sz - off" using sz by (intro past_of_nat) simp_all
    then show ?thesis using False unfolding word_less_nat_alt l by linarith
  qed
  then show ?thesis
    using reads_spec [OF assms(1) sz, of mem k ptr, folded off_def] by (simp add: istream_get_fixed_def)
qed

text \<open>C29: reading values of \<open>n\<close> bytes from a message of \<open>sz\<close> bytes: exactly the first \<open>\<lceil>sz / n\<rceil>\<close> reads succeed, each
  with the bytes at its place, so a message whose size is not a multiple of \<open>n\<close> is read past its end, by fewer than
  \<open>n\<close> bytes, and the stream is then neither bad nor at its end; the next read makes it bad.  A fixed string of \<open>l\<close> bytes
  after \<open>k\<close> values is read if it lies inside the message, and also, wholly behind the end of the message, if the values
  have passed the end.\<close>

theorem istream_bounds:
  assumes "0 < n" "unat sz + n + l < 2 ^ 64"
  defines "m \<equiv> (unat sz + n - 1) div n"
  shows "is_good (reads mem n k (istream_init ptr sz)) = (k \<le> m) \<and>
    is_ptr (reads mem n k (istream_init ptr sz)) = ptr + of_nat (n * min k m) \<and>
    fst (istream_get mem n (reads mem n k (istream_init ptr sz))) =
      (if k < m then Some (read_mem mem (ptr + of_nat (n * k)) n) else None) \<and>
    n * m < unat sz + n \<and> unat sz \<le> n * m \<and>
    istream_at_end (reads mem n m (istream_init ptr sz)) = (n dvd unat sz) \<and>
    fst (istream_get_fixed mem l (reads mem n k (istream_init ptr sz))) =
      (if n * min k m + l \<le> unat sz \<or> unat sz < n * min k m
       then Some (read_mem mem (ptr + of_nat (n * min k m)) l) else None)"
proof -
  have sz: "unat sz + n < 2 ^ 64" using assms(2) by simp
  note m = round_up [OF assms(1), where s = "unat sz", folded m_def]
  have "n * m = unat sz \<longleftrightarrow> n dvd unat sz"
  proof
    assume "n dvd unat sz"
    then obtain q where q: "unat sz = n * q" by blast
    then have "n * m < n * Suc q" "n * q \<le> n * m"
      using m(1,2) by simp_all
    then have "m = q"
      unfolding nat_mult_less_cancel1 [OF assms(1)] nat_mult_le_cancel1 [OF assms(1)] by simp
    then show "n * m = unat sz" by (simp add: q)
  qed (metis dvd_triv_left)
  moreover have "istream_at_end (reads mem n m (istream_init ptr sz)) \<longleftrightarrow> n * m = unat sz"
  proof -
    have "unat (of_nat (n * m) :: u64) = n * m"
      using m(2) sz by (intro unat_of_nat_64) linarith
    then have "of_nat (n * m) = sz \<longleftrightarrow> n * m = unat sz"
      unfolding word_unat_eq_iff by (simp only:)
    then show ?thesis
      unfolding reads_spec [OF assms(1) sz] m_def [symmetric] by (simp add: istream_at_end_def)
  qed
  ultimately show ?thesis
    using m reads_spec [OF assms(1) sz, of mem k ptr, folded m_def] value_after_reads [OF assms(1) sz, of mem k ptr, folded m_def]
      fixed_after_reads [OF assms(1,2), of mem k ptr, folded m_def] by simp
qed

theorem istream_bounds_witness:
  "is_good (reads (\<lambda>_. 0) 4 2 (istream_init 0x1000 6)) \<and> is_ptr (reads (\<lambda>_. 0) 4 2 (istream_init 0x1000 6)) = 0x1008 \<and>
    is_end (istream_init 0x1000 6) = 0x1006 \<and>
    fst (istream_get_fixed (\<lambda>_. 0) 3 (reads (\<lambda>_. 0) 4 2 (istream_init 0x1000 6))) = Some (read_mem (\<lambda>_. 0) 0x1008 3)"
  using istream_bounds [of 4 6 3 "\<lambda>_. 0" 2 "0x1000"] by (simp add: istream_init_def)

end
