(* ===== verification/Commands.thy ===== *)
theory Commands
  imports Prelude
begin

text \<open>
  The commands of packets (\<open>CommandList\<close> and \<open>SubCommandList\<close> of \<open>net/include/net/Packet.hpp\<close>) and the
  bytes they are sent as.
\<close>

datatype CommandList =
  Registration | UnRegistration | Redirect | GetHash | SendHash | SendTransaction | GetTransaction |
  SendTransactionList | GetTransactionList | SendVector | GetVector | SendMatrix | GetMatrix | SendBlock |
  GetHashAll | SendIpTable | SinhroPacket | GiveHash2 | SuperCommand | GetSync | SendSync | RealBlock |
  SendFirstBlock | RegistrationConnectionRefused | SendBlockCandidate | GetBlockCandidate | GetFirstTransaction

primrec command_code :: "CommandList \<Rightarrow> u8" where
  "command_code Registration = 1"
| "command_code UnRegistration = 2"
| "command_code Redirect = 3"
| "command_code GetHash = 4"
| "command_code SendHash = 5"
| "command_code SendTransaction = 6"
| "command_code GetTransaction = 7"
| "command_code SendTransactionList = 8"
| "command_code GetTransactionList = 9"
| "command_code SendVector = 10"
| "command_code GetVector = 11"
| "command_code SendMatrix = 12"
| "command_code GetMatrix = 13"
| "command_code SendBlock = 14"
| "command_code GetHashAll = 15"
| "command_code SendIpTable = 16"
| "command_code SinhroPacket = 17"
| "command_code GiveHash2 = 18"
| "command_code SuperCommand = 19"
| "command_code GetSync = 20"
| "command_code SendSync = 21"
| "command_code RealBlock = 22"
| "command_code SendFirstBlock = 24"
| "command_code RegistrationConnectionRefused = 25"
| "command_code SendBlockCandidate = 28"
| "command_code GetBlockCandidate = 29"
| "command_code GetFirstTransaction = 30"

datatype SubCommandList =
  RegistrationLevelNode | GiveHash | GetBlock | GetBlocks | Empty | GetFirstBlock | SGetTransaction |
  SGetTransactionsList | SGetVector | SGetMatrix | SGetHash | SGetIpTable

primrec subcommand_code :: "SubCommandList \<Rightarrow> u8" where
  "subcommand_code RegistrationLevelNode = 1"
| "subcommand_code GiveHash = 2"
| "subcommand_code GetBlock = 3"
| "subcommand_code GetBlocks = 4"
| "subcommand_code Empty = 5"
| "subcommand_code GetFirstBlock = 6"
| "subcommand_code SGetTransaction = 7"
| "subcommand_code SGetTransactionsList = 8"
| "subcommand_code SGetVector = 9"
| "subcommand_code SGetMatrix = 10"
| "subcommand_code SGetHash = 11"
| "subcommand_code SGetIpTable = 12"

end
