(* ===== verification/Session.thy ===== *)
theory Session
  imports Collector Tasks Packstream Commands
begin

text \<open>
  The transport of a node (\<open>net/include/net/SessionIO.hpp\<close>, \<open>net/src/SessionIO.cpp\<close>): cutting a message into
  packets and sending it, receiving packets, passing broadcasts on, putting messages together and
  handing them to the node.  What goes out to the socket is the list \<open>ss_sent\<close> and what the node is
  called with is a list of \<open>node_call\<close>s; a call carries the memory behind \<open>dataPtr\<close> and the size.  Reading
  memory the program does not own is the result \<^term>\<open>None\<close>.  Addresses are IPv4.
\<close>

subsection \<open>State\<close>

abbreviation is_command :: "packet \<Rightarrow> CommandList \<Rightarrow> bool" where
  "is_command p c \<equiv> pk_command p = command_code c"

abbreviation is_subcommand :: "packet \<Rightarrow> SubCommandList \<Rightarrow> bool" where
  "is_subcommand p c \<equiv> pk_subcommand p = subcommand_code c"

datatype node_call =
  CallInitRing byte_array u64 | CallRoundTable byte_array u64 | CallBlock byte_array u64 u32 |
  CallTransactionsList byte_array u64 | CallTransaction byte_array u64 | CallFirstTransaction byte_array u64 |
  CallVector byte_array u64 u32 | CallMatrix byte_array u64 u32 | CallHash byte_array u64 u32

abbreviation (input) MAX_PART :: nat where "MAX_PART \<equiv> 2048"

record session =
  ss_MyIp :: u32
  ss_MyHash :: byte_array
  ss_MyPublicKey :: byte_array
  ss_awaiting :: bool
  ss_signalServerAddr :: u32
  ss_serverEndpoint :: endpoint
  ss_nodesRing :: "endpoint nodes_ring"
  ss_backData :: "byte_array circular_map"
  ss_packets :: packet_collector
  ss_mem :: "nat \<Rightarrow> packet"
  ss_hasher :: byte_array
  ss_taskman :: task_manager
  ss_combined :: byte_array
  ss_sent :: "(packet \<times> nat \<times> endpoint) list"

definition node_endpoint :: "u32 \<Rightarrow> session \<Rightarrow> endpoint" where
  "node_endpoint addr s = (addr, if addr = ss_signalServerAddr s then 6000 else 9001)"

definition addToRingBuffer :: "u32 \<Rightarrow> session \<Rightarrow> session" where
  "addToRingBuffer addr s =
     (let (addedNew, ring) = ring_place 500 (node_endpoint addr s) (ss_nodesRing s) in s\<lparr>ss_nodesRing := ring\<rparr>)"

subsection \<open>Sending\<close>

definition handleSend :: "packet \<Rightarrow> nat \<Rightarrow> endpoint \<Rightarrow> session \<Rightarrow> session" where
  "handleSend message size_pck ep s = s\<lparr>ss_sent := ss_sent s @ [(message, size_pck, ep)]\<rparr>"

definition outSendPack :: "packet \<Rightarrow> u64 \<Rightarrow> endpoint option \<Rightarrow> session \<Rightarrow> session" where
  "outSendPack message dataSize ep s =
     (let size_pck = unat (dataSize + of_nat headerLength)
      in case ep of
           None \<Rightarrow> fold (handleSend message size_pck) (nr_endpoints (ss_nodesRing s)) s
         | Some ep \<Rightarrow> handleSend message size_pck ep s)"

definition outFrmPack :: "nat \<Rightarrow> CommandList \<Rightarrow> SubCommandList \<Rightarrow> nat \<Rightarrow> session \<Rightarrow> session" where
  "outFrmPack a cmd sub_cmd size_data s =
     (let p = ss_mem s a;
          (block, hasher) = nextHash 32 (take size_data (pk_data p)) (pk_HashBlock p) (ss_hasher s);
          p = p\<lparr>pk_HashBlock := block, pk_origin_ip := ss_MyIp s, pk_command := command_code cmd,
                pk_subcommand := subcommand_code sub_cmd, pk_version := 1, pk_hash := ss_MyHash s,
                pk_publicKey := ss_MyPublicKey s\<rparr>
      in s\<lparr>ss_mem := (ss_mem s)(a := p), ss_hasher := hasher\<rparr>)"

text \<open>\<open>memcpy\<close> of the header of \<open>p\<close> over the one of \<open>q\<close>.\<close>

definition copy_header :: "packet \<Rightarrow> packet \<Rightarrow> packet" where
  "copy_header p q = p\<lparr>pk_data := pk_data q\<rparr>"

definition number_packet :: "nat list \<Rightarrow> nat \<Rightarrow> session \<Rightarrow> session" where
  "number_packet packets i s =
     s\<lparr>ss_mem := (ss_mem s)(packets ! i := (copy_header (ss_mem s (hd packets)) (ss_mem s (packets ! i)))\<lparr>pk_header := of_nat i\<rparr>)\<rparr>"

definition createSendTasks :: "nat list \<Rightarrow> CommandList \<Rightarrow> SubCommandList \<Rightarrow> nat \<Rightarrow> session \<Rightarrow> session" where
  "createSendTasks packets cmd subcmd last_size s =
     (if packets = [] then s
      else let front = hd packets;
               s = outFrmPack front cmd subcmd (if length packets = 1 then last_size else max_length) s;
               s = s\<lparr>ss_mem := (ss_mem s)(front := (ss_mem s front)\<lparr>pk_header := 0\<rparr>)\<rparr>
           in if length packets = 1
              then s\<lparr>ss_mem := (ss_mem s)(front := (ss_mem s front)\<lparr>pk_countHeader := 0\<rparr>)\<rparr>
              else let s = s\<lparr>ss_mem := (ss_mem s)(front := (ss_mem s front)\<lparr>pk_countHeader := of_nat (length packets)\<rparr>)\<rparr>
                   in fold (number_packet packets) [1..<length packets] s)"

definition addTaskDirect ::
  "time_point \<Rightarrow> nat list \<Rightarrow> CommandList \<Rightarrow> SubCommandList \<Rightarrow> nat \<Rightarrow> u32 \<Rightarrow> session \<Rightarrow> nat \<times> session" where
  "addTaskDirect now packets cmd subcmd last_size ip s =
     (let s = createSendTasks packets cmd subcmd last_size s;
          (i, tm) = tasks_add (task_direct now packets last_size (node_endpoint ip s)) (ss_taskman s)
      in (i, s\<lparr>ss_taskman := tm\<rparr>))"

definition addTaskBroadcast :: "time_point \<Rightarrow> nat list \<Rightarrow> SubCommandList \<Rightarrow> nat \<Rightarrow> session \<Rightarrow> nat \<times> session" where
  "addTaskBroadcast now packets subcmd last_size s =
     (let s = createSendTasks packets Redirect subcmd last_size s;
          (i, tm) = tasks_add (task_broadcast now packets last_size (nr_endpoints (ss_nodesRing s))) (ss_taskman s)
      in (i, s\<lparr>ss_taskman := tm\<rparr>))"

definition removeTask :: "nat \<Rightarrow> session \<Rightarrow> session option" where
  "removeTask tId s = map_option (\<lambda>tm. s\<lparr>ss_taskman := tm\<rparr>) (tasks_remove tId (ss_taskman s))"

definition removeAllTasks :: "session \<Rightarrow> session" where
  "removeAllTasks s = s\<lparr>ss_taskman := tasks_clear (ss_taskman s)\<rparr>"

definition send_task :: "task \<Rightarrow> session \<Rightarrow> session" where
  "send_task t s =
     fold (\<lambda>cntr. fold (handleSend (ss_mem s (t_packets t ! cntr))
             (if Suc cntr = length (t_packets t) then t_lastSize t else headerLength + max_length)) (t_receivers t))
       [0..<length (t_packets t)] s"

definition senderThreadRoutine :: "(nat \<Rightarrow> time_point) \<Rightarrow> session \<Rightarrow> session" where
  "senderThreadRoutine clock s =
     (let (tm, s) = tasks_run send_task clock (ss_taskman s) s in s\<lparr>ss_taskman := tm\<rparr>)"

subsection \<open>Receiving\<close>

definition back_key :: "packet \<Rightarrow> byte_array" where
  "back_key message = memcpy_at (pk_HashBlock message) 0 (put_int (pk_header message))"

definition getBackDataCounter :: "packet \<Rightarrow> session \<Rightarrow> u32 \<times> session" where
  "getBackDataCounter message s =
     (let (n, m) = pushAndIncrease 50000 (back_key message) (ss_backData s) in (n, s\<lparr>ss_backData := m\<rparr>))"

definition RunRedirect :: "packet \<Rightarrow> u64 \<Rightarrow> session \<Rightarrow> bool \<times> packet \<times> session" where
  "RunRedirect message dataSize s =
     (let (counter, s) = getBackDataCounter message s;
          needProcessing = (counter = 1)
      in if counter > 1 then (needProcessing, message, s)
         else let message = message\<lparr>pk_hash := ss_MyHash s, pk_publicKey := ss_MyPublicKey s\<rparr>
              in (needProcessing, message, outSendPack message dataSize None s))"

text \<open>The loop that copies the parts into \<open>m_combinedData\<close>; the last part takes what is left of the total.\<close>

fun combine_loop :: "packet option list \<Rightarrow> nat \<Rightarrow> u64 \<Rightarrow> byte_array \<Rightarrow> byte_array option" where
  "combine_loop [] writePtr tot buf = None"
| "combine_loop [slot] writePtr tot buf =
     do { p \<leftarrow> slot;
          if unat tot \<le> max_length then Some (memcpy_at buf writePtr (take (unat tot) (pk_data p))) else None }"
| "combine_loop (slot # slots) writePtr tot buf =
     do { p \<leftarrow> slot;
          combine_loop slots (writePtr + max_length) (tot - of_nat max_length) (memcpy_at buf writePtr (pk_data p)) }"

definition combine :: "packet_part \<Rightarrow> nat \<Rightarrow> byte_array \<Rightarrow> byte_array option" where
  "combine part count buf =
     (if pp_size part < count then None else combine_loop (take count (pp_packets part)) 0 (pp_totalSize part) buf)"

definition direct_call :: "packet \<Rightarrow> byte_array \<Rightarrow> u64 \<Rightarrow> node_call list" where
  "direct_call message mem sz =
     (if is_command message GetBlockCandidate then [CallTransactionsList mem sz]
      else if is_command message GetTransaction then [CallTransaction mem sz]
      else if is_command message GetFirstTransaction then [CallFirstTransaction mem sz]
      else if is_command message GetVector then [CallVector mem sz (pk_origin_ip message)]
      else if is_command message GetMatrix then [CallMatrix mem sz (pk_origin_ip message)]
      else if is_command message GetHash then [CallHash mem sz (pk_origin_ip message)]
      else [])"

definition redirect_call :: "packet \<Rightarrow> byte_array \<Rightarrow> u64 \<Rightarrow> node_call list" where
  "redirect_call message mem sz =
     (if is_subcommand message SGetIpTable then [CallRoundTable mem sz]
      else if is_subcommand message GetBlock then [CallBlock mem sz (pk_origin_ip message)]
      else [])"

definition dispatch :: "bool \<Rightarrow> packet \<Rightarrow> byte_array \<Rightarrow> u64 \<Rightarrow> session \<Rightarrow> node_call list \<times> session" where
  "dispatch multiPack message mem sz s =
     (if \<not> is_command message Redirect
      then (let (n, s) = getBackDataCounter message s
            in if n > 1 then ([], s) else (direct_call message mem sz, s))
      else let (go, message, s) = (if multiPack then (True, message, s) else RunRedirect message sz s)
           in if go then (redirect_call message mem sz, s) else ([], s))"

definition InputServiceHandleReceive ::
  "bool \<Rightarrow> u32 \<Rightarrow> packet \<Rightarrow> nat \<Rightarrow> session \<Rightarrow> (node_call list \<times> session) option" where
  "InputServiceHandleReceive error sender message bytes_transferred s =
     (if error then Some ([], s)
      else let s = addToRingBuffer sender s;
               sz = of_nat bytes_transferred - of_nat headerLength
           in if pk_countHeader message > 0
              then if pk_countHeader message > of_nat MAX_PART \<or> pk_header message \<ge> pk_countHeader message then Some ([], s)
                   else let (message, s) = (if is_command message Redirect then snd (RunRedirect message sz s) else (message, s))
                        in do { ((part, added), c) \<leftarrow> append_packet 1000 message sz (ss_packets s);
                                let s = s\<lparr>ss_packets := c\<rparr>;
                                if \<not> added \<or> pp_left part \<noteq> 0 then Some ([], s)
                                else do { buf \<leftarrow> combine part (unat (pk_countHeader message)) (ss_combined s);
                                          let s = s\<lparr>ss_combined := buf\<rparr>;
                                          Some (dispatch True message buf (pp_totalSize part) s) } }
              else Some (dispatch False message (pk_data message) sz s))"

subsection \<open>Joining the network\<close>

definition registration_receive :: "u32 \<Rightarrow> packet \<Rightarrow> nat \<Rightarrow> session \<Rightarrow> (node_call list \<times> bool) \<times> session" where
  "registration_receive sender message bytes_transferred s =
     (let sz = of_nat bytes_transferred - of_nat headerLength;
          (calls, entered, s) =
            (if is_command message Registration
             then (let s = s\<lparr>ss_awaiting := False\<rparr>
                   in if is_subcommand message RegistrationLevelNode
                      then ([CallInitRing (pk_data message) sz], True, s) else ([], False, s))
             else if is_command message Redirect \<and> is_subcommand message RegistrationLevelNode
             then ([CallInitRing (pk_data message) sz], True, s)
             else ([], False, s))
      in ((calls, entered), addToRingBuffer sender s))"

text \<open>One turn of the loop that asks the signal server; \<open>a\<close> is the packet \<open>getFreePack\<close> gives.\<close>

definition registration_turn :: "nat \<Rightarrow> session \<Rightarrow> session" where
  "registration_turn a s =
     (if ss_awaiting s
      then let ver = map char_byte ''45'';
               s = s\<lparr>ss_mem := (ss_mem s)(a := (ss_mem s a)\<lparr>pk_data := memcpy_at (pk_data (ss_mem s a)) 0 ver\<rparr>)\<rparr>;
               s = outFrmPack a Registration Empty (length ver) s
           in outSendPack (ss_mem s a) (of_nat (length ver)) (Some (ss_serverEndpoint s)) s
      else s)"

text \<open>\<open>line\<close> is the first line of the key file, \<open>buf\<close> the uninitialised buffer of 49 bytes.\<close>

definition GenerationHash :: "byte_array option \<Rightarrow> byte_array \<Rightarrow> session \<Rightarrow> bool \<times> session" where
  "GenerationHash line buf s =
     (let buf = memcpy_at buf 0 (put_int (ss_MyIp s))
      in case line of
           None \<Rightarrow> (False, s)
         | Some l \<Rightarrow>
             (let buf = memcpy_at buf 4 (take 44 l @ [0]);
                  key = blake2s_into (ss_MyPublicKey s) 0 32 (take 44 (drop 4 buf));
                  hasher = hasher_init key (ss_hasher s)
              in (True, s\<lparr>ss_MyPublicKey := key, ss_hasher := hasher,
                          ss_MyHash := blake2s_into (ss_MyHash s) 8 32 (take 48 buf)\<rparr>)))"

definition getHashedPublicKey :: "byte_array \<Rightarrow> byte_array \<Rightarrow> byte_array" where
  "getHashedPublicKey uninit str = blake2s_into uninit 0 32 (take 44 str)"

end
