(* ===== verification/Node.thy ===== *)
theory Node
  imports Session
begin

text \<open>
  The node (\<open>csnode/include/csnode/Node.hpp\<close>, \<open>csnode/src/Node.cpp\<close>): its place in the current round and the
  handlers of incoming and outgoing messages.  The solver is not among the sources; what the node calls it
  with is a list of \<open>solver_call\<close>s, and what it calls back are operations of the node.  A message is the
  memory \<open>mem\<close> with an address and a size, as the handlers get it.  Loops over a message are partial
  functions, and \<^term>\<open>None\<close> means that they do not end.  Values of the solver's types (\<open>Vector\<close>, \<open>Matrix\<close>) are their
  bytes.  The build defines neither \<open>NET_COMPRESSION\<close> nor \<open>TESTING\<close>.
\<close>

subsection \<open>State\<close>

datatype NodeLevel = Normal | Confidant | Main | Writer

datatype solver_call =
  gotTransaction transaction | gotTransactionList transaction | gotBlockCandidate pool |
  gotVector byte_array u32 | gotMatrix byte_array u32 | gotBlock pool u32 | gotHash byte_array u32 | nextRound

type_synonym memory = "u64 \<Rightarrow> u8"

record node =
  nd_myId :: u32
  nd_myPublicKey :: byte_array
  nd_good :: bool
  nd_roundNum :: u32
  nd_myLevel :: NodeLevel
  nd_mainNode :: u32
  nd_confidantNodes :: "u32 list"
  nd_vectorTasks :: "nat list"
  nd_net :: session
  nd_istream :: ipackstream
  nd_ostream :: opackstream

text \<open>\<open>level\<close> and \<open>os\<close> are what the memory holds: the constructor does not set \<open>myLevel_\<close> nor the pointers of the
  streams.  \<open>chain_good\<close> and \<open>has_solver\<close> are the results of opening the chain and creating the solver.\<close>

definition node_init :: "bool \<Rightarrow> bool \<Rightarrow> bool" where
  "node_init chain_good has_solver = (if \<not> chain_good then False else if \<not> has_solver then False else True)"

definition node_new ::
  "u32 \<Rightarrow> byte_array \<Rightarrow> session \<Rightarrow> bool \<Rightarrow> bool \<Rightarrow> NodeLevel \<Rightarrow> u64 \<Rightarrow> u64 \<Rightarrow> nat \<Rightarrow> node" where
  "node_new myId pk net chain_good has_solver level p e q =
     \<lparr>nd_myId = myId, nd_myPublicKey = pk, nd_good = node_init chain_good has_solver, nd_roundNum = 0, nd_myLevel = level,
      nd_mainNode = 0, nd_confidantNodes = [], nd_vectorTasks = [], nd_net = net,
      nd_istream = \<lparr>is_ptr = p, is_end = e, is_good = False\<rparr>, nd_ostream = \<lparr>os_parts = [], os_ptr = q, os_left = 0\<rparr>\<rparr>"

subsection \<open>Rounds\<close>

definition onRoundStart :: "node \<Rightarrow> solver_call list \<times> node" where
  "onRoundStart n =
     ([nextRound],
      n\<lparr>nd_myLevel := (if nd_mainNode n = nd_myId n then Main
                       else if nd_myId n \<in> set (nd_confidantNodes n) then Confidant else Normal)\<rparr>)"

definition initNextRound :: "u32 \<Rightarrow> u32 list \<Rightarrow> node \<Rightarrow> solver_call list \<times> node" where
  "initNextRound mainNode confidants n =
     (if nd_myLevel n \<noteq> Writer then ([], n)
      else onRoundStart (n\<lparr>nd_roundNum := nd_roundNum n + 1, nd_mainNode := mainNode, nd_confidantNodes := confidants\<rparr>))"

definition becomeWriter :: "node \<Rightarrow> node" where
  "becomeWriter n = n\<lparr>nd_myLevel := Writer\<rparr>"

text \<open>The loop over the confidants: whether the data is refused for having too many, the ones read, and the
  stream.  A read that fails leaves the default address in its place.\<close>

partial_function (option) read_confidants ::
  "memory \<Rightarrow> bool \<Rightarrow> u32 list \<Rightarrow> ipackstream \<Rightarrow> (bool \<times> u32 list \<times> ipackstream) option" where
  "read_confidants mem tail confidants is =
     (if istream_bool is
      then (case istream_get_node mem is of
              (c, is) \<Rightarrow>
                (case confidants @ [case c of None \<Rightarrow> 0 | Some a \<Rightarrow> a] of
                   confidants \<Rightarrow>
                     if length confidants = 3 \<and> \<not> istream_at_end is then Some (\<not> tail, confidants, is)
                     else read_confidants mem tail confidants is))
      else Some (False, confidants, is))"

text \<open>\<open>uninit\<close> is the content of the local variable \<open>roundNum\<close> when the read fails.\<close>

definition readRoundData :: "memory \<Rightarrow> bool \<Rightarrow> u32 \<Rightarrow> node \<Rightarrow> (bool \<times> node) option" where
  "readRoundData mem tail uninit n =
     (let (r, is) = istream_get mem 4 (nd_istream n);
          roundNum = (case r of None \<Rightarrow> uninit | Some bs \<Rightarrow> le_word bs)
      in if roundNum \<le> nd_roundNum n then Some (False, n\<lparr>nd_istream := is\<rparr>)
         else let (m, is) = istream_get_node mem is;
                  mainNode = (case m of None \<Rightarrow> 0 | Some a \<Rightarrow> a)
              in do { (tooMany, confidants, is) \<leftarrow> read_confidants mem tail [] is;
                      let n = n\<lparr>nd_istream := is\<rparr>;
                      if tooMany then Some (False, n)
                      else if \<not> is_good is \<or> length confidants < 3 then Some (False, n)
                      else Some (True, n\<lparr>nd_roundNum := roundNum, nd_mainNode := mainNode, nd_confidantNodes := confidants,
                                         nd_net := fold addToRingBuffer (mainNode # confidants) (nd_net n)\<rparr>) })"

definition start_round :: "node \<Rightarrow> solver_call list \<times> node" where
  "start_round n = (let (calls, n) = onRoundStart n in (calls, n\<lparr>nd_net := removeAllTasks (nd_net n)\<rparr>))"

definition getRoundTable :: "memory \<Rightarrow> u64 \<Rightarrow> u64 \<Rightarrow> u32 \<Rightarrow> node \<Rightarrow> (solver_call list \<times> node) option" where
  "getRoundTable mem ptr sz uninit n =
     do { let n = n\<lparr>nd_istream := istream_init ptr sz\<rparr>;
          (ok, n) \<leftarrow> readRoundData mem False uninit n;
          if \<not> ok then Some ([], n)
          else if \<not> is_good (nd_istream n) then Some ([], n)
          else Some (start_round n) }"

partial_function (option) ring_loop :: "memory \<Rightarrow> ipackstream \<Rightarrow> session \<Rightarrow> (ipackstream \<times> session) option" where
  "ring_loop mem is net =
     (if istream_bool is
      then (case istream_get_node mem is of
              (c, is) \<Rightarrow> ring_loop mem is (addToRingBuffer (case c of None \<Rightarrow> 0 | Some a \<Rightarrow> a) net))
      else Some (is, net))"

definition getInitRing :: "memory \<Rightarrow> u64 \<Rightarrow> u64 \<Rightarrow> u32 \<Rightarrow> node \<Rightarrow> (solver_call list \<times> node) option" where
  "getInitRing mem ptr sz uninit n =
     do { let n = n\<lparr>nd_istream := istream_init ptr sz\<rparr>;
          (ok, n) \<leftarrow> readRoundData mem True uninit n;
          if \<not> ok then Some ([], n)
          else do { (is, net) \<leftarrow> ring_loop mem (nd_istream n) (nd_net n);
                    let n = n\<lparr>nd_istream := is, nd_net := net\<rparr>;
                    if \<not> is_good is \<or> \<not> istream_at_end is then Some ([], n)
                    else Some (start_round n) } }"

subsection \<open>Incoming messages\<close>

partial_function (option) transaction_loop ::
  "memory \<Rightarrow> ipackstream \<Rightarrow> solver_call list \<Rightarrow> (solver_call list \<times> ipackstream) option" where
  "transaction_loop mem is calls =
     (if istream_bool is
      then (case istream_get_transaction mem is of (t, is) \<Rightarrow> transaction_loop mem is (calls @ [gotTransaction t]))
      else Some (calls, is))"

definition getTransaction :: "memory \<Rightarrow> u64 \<Rightarrow> u64 \<Rightarrow> node \<Rightarrow> (solver_call list \<times> node) option" where
  "getTransaction mem ptr sz n =
     (if nd_myLevel n \<noteq> Main \<and> nd_myLevel n \<noteq> Writer then Some ([], n)
      else do { (calls, is) \<leftarrow> transaction_loop mem (istream_init ptr sz) [];
                Some (calls, n\<lparr>nd_istream := is\<rparr>) })"

definition read_all :: "ipackstream \<Rightarrow> bool" where
  "read_all is \<longleftrightarrow> is_good is \<and> istream_at_end is"

definition getFirstTransaction :: "memory \<Rightarrow> u64 \<Rightarrow> u64 \<Rightarrow> node \<Rightarrow> solver_call list \<times> node" where
  "getFirstTransaction mem ptr sz n =
     (if nd_myLevel n \<noteq> Confidant then ([], n)
      else let (t, is) = istream_get_transaction mem (istream_init ptr sz)
           in (if read_all is then [gotTransactionList t] else [], n\<lparr>nd_istream := is\<rparr>))"

definition getTransactionsList ::
  "(byte_array \<Rightarrow> pool) \<Rightarrow> memory \<Rightarrow> u64 \<Rightarrow> u64 \<Rightarrow> node \<Rightarrow> solver_call list \<times> node" where
  "getTransactionsList from_byte_stream mem ptr sz n =
     (if nd_myLevel n \<noteq> Confidant \<and> nd_myLevel n \<noteq> Writer then ([], n)
      else let (p, is) = istream_get_pool from_byte_stream mem (istream_init ptr sz)
           in (if read_all is then [gotBlockCandidate p] else [], n\<lparr>nd_istream := is\<rparr>))"

text \<open>\<open>vsize\<close> and \<open>msize\<close> are the sizes of the solver's types; what a failed read leaves is not passed on.\<close>

definition getVector :: "nat \<Rightarrow> memory \<Rightarrow> u64 \<Rightarrow> u64 \<Rightarrow> u32 \<Rightarrow> node \<Rightarrow> solver_call list \<times> node" where
  "getVector vsize mem ptr sz sender n =
     (if nd_myLevel n \<noteq> Confidant then ([], n)
      else let (v, is) = istream_get mem vsize (istream_init ptr sz)
           in (case v of Some vec \<Rightarrow> if read_all is then [gotVector vec sender] else [] | None \<Rightarrow> [], n\<lparr>nd_istream := is\<rparr>))"

definition getMatrix :: "nat \<Rightarrow> memory \<Rightarrow> u64 \<Rightarrow> u64 \<Rightarrow> u32 \<Rightarrow> node \<Rightarrow> solver_call list \<times> node" where
  "getMatrix msize mem ptr sz sender n =
     (if nd_myLevel n \<noteq> Confidant then ([], n)
      else let (v, is) = istream_get mem msize (istream_init ptr sz)
           in (case v of Some mat \<Rightarrow> if read_all is then [gotMatrix mat sender] else [] | None \<Rightarrow> [], n\<lparr>nd_istream := is\<rparr>))"

definition getBlock :: "(byte_array \<Rightarrow> pool) \<Rightarrow> memory \<Rightarrow> u64 \<Rightarrow> u64 \<Rightarrow> u32 \<Rightarrow> node \<Rightarrow> solver_call list \<times> node" where
  "getBlock from_byte_stream mem ptr sz sender n =
     (if nd_myLevel n = Writer then ([], n)
      else let n = n\<lparr>nd_myLevel := Normal\<rparr>;
               (p, is) = istream_get_pool from_byte_stream mem (istream_init ptr sz)
           in (if read_all is then [gotBlock p sender] else [], n\<lparr>nd_istream := is\<rparr>))"

definition getHash :: "memory \<Rightarrow> u64 \<Rightarrow> u64 \<Rightarrow> u32 \<Rightarrow> node \<Rightarrow> solver_call list \<times> node" where
  "getHash mem ptr sz sender n =
     (if nd_myLevel n \<noteq> Writer then ([], n)
      else let (h, is) = istream_get_fixed mem hash_length (istream_init ptr sz)
           in (case h of Some h \<Rightarrow> if read_all is then [gotHash h sender] else [] | None \<Rightarrow> [], n\<lparr>nd_istream := is\<rparr>))"

subsection \<open>Outgoing messages\<close>

text \<open>\<open>addr i\<close> is the address of the packet \<open>getEmptyPacket\<close> gives for the part \<open>i\<close> of a message.  The packets are written
  to the memory of the session when they are handed to it; the stream holds no other use of them before.\<close>

definition part_addrs :: "(nat \<Rightarrow> nat) \<Rightarrow> opackstream \<Rightarrow> nat list" where
  "part_addrs addr os = map addr [0..<length (os_parts os)]"

definition publish :: "(nat \<Rightarrow> nat) \<Rightarrow> opackstream \<Rightarrow> session \<Rightarrow> session" where
  "publish addr os s =
     s\<lparr>ss_mem := fold (\<lambda>i mem. mem(addr i := os_parts os ! i)) [0..<length (os_parts os)] (ss_mem s)\<rparr>"

definition fresh_packets :: "(nat \<Rightarrow> nat) \<Rightarrow> node \<Rightarrow> nat \<Rightarrow> packet" where
  "fresh_packets addr n i = ss_mem (nd_net n) (addr i)"

text \<open>Handing the parts over leaves the stream without any.\<close>

definition send_direct ::
  "time_point \<Rightarrow> (nat \<Rightarrow> nat) \<Rightarrow> CommandList \<Rightarrow> u32 \<Rightarrow> opackstream \<Rightarrow> node \<Rightarrow> node" where
  "send_direct now addr cmd target os n =
     (let (_, net) = addTaskDirect now (part_addrs addr os) cmd Empty (lastSize os) target (publish addr os (nd_net n))
      in n\<lparr>nd_net := net, nd_ostream := os\<lparr>os_parts := []\<rparr>\<rparr>)"

definition send_broadcast :: "time_point \<Rightarrow> (nat \<Rightarrow> nat) \<Rightarrow> SubCommandList \<Rightarrow> opackstream \<Rightarrow> node \<Rightarrow> node" where
  "send_broadcast now addr sub os n =
     (let (_, net) = addTaskBroadcast now (part_addrs addr os) sub (lastSize os) (publish addr os (nd_net n))
      in n\<lparr>nd_net := net, nd_ostream := os\<lparr>os_parts := []\<rparr>\<rparr>)"

definition sendRoundTable :: "time_point \<Rightarrow> (nat \<Rightarrow> nat) \<Rightarrow> node \<Rightarrow> node" where
  "sendRoundTable now addr n =
     (let fresh = fresh_packets addr n;
          os = ostream_init fresh (nd_ostream n);
          os = ostream_put_node fresh (nd_mainNode n) (ostream_put fresh (put_int (nd_roundNum n)) os);
          os = fold (ostream_put_node fresh) (nd_confidantNodes n) os
      in send_broadcast now addr SGetIpTable os (n\<lparr>nd_net := removeAllTasks (nd_net n)\<rparr>))"

definition sendTransaction :: "time_point \<Rightarrow> (nat \<Rightarrow> nat) \<Rightarrow> transaction \<Rightarrow> node \<Rightarrow> node" where
  "sendTransaction now addr tr n =
     (if nd_myLevel n = Main then n
      else let fresh = fresh_packets addr n
           in send_direct now addr GetTransaction (nd_mainNode n)
                (ostream_put_transaction fresh tr (ostream_init fresh (nd_ostream n))) n)"

definition sendTransactions :: "time_point \<Rightarrow> (nat \<Rightarrow> nat) \<Rightarrow> transaction list \<Rightarrow> node \<Rightarrow> node" where
  "sendTransactions now addr trs n =
     (if nd_myLevel n = Main then n
      else let fresh = fresh_packets addr n
           in send_direct now addr GetTransaction (nd_mainNode n)
                (fold (ostream_put_transaction fresh) trs (ostream_init fresh (nd_ostream n))) n)"

text \<open>All confidants get the same packets; \<open>clock i\<close> is the time at which the task for the confidant \<open>i\<close> is made.\<close>

definition sendByConfidants ::
  "(nat \<Rightarrow> time_point) \<Rightarrow> (nat \<Rightarrow> nat) \<Rightarrow> CommandList \<Rightarrow> SubCommandList \<Rightarrow> opackstream \<Rightarrow> node \<Rightarrow> nat list \<times> node" where
  "sendByConfidants clock addr cmd scmd os n =
     (let (taskIds, net) =
        fold (\<lambda>i (taskIds, net).
                if nd_confidantNodes n ! i = nd_myId n then (taskIds, net)
                else let (t, net) = addTaskDirect (clock i) (part_addrs addr os) cmd scmd (lastSize os) (nd_confidantNodes n ! i) net
                     in (taskIds @ [t], net))
          [0..<length (nd_confidantNodes n)] ([], publish addr os (nd_net n))
      in (taskIds, n\<lparr>nd_net := net, nd_ostream := os\<rparr>))"

definition sendFirstTransaction :: "(nat \<Rightarrow> time_point) \<Rightarrow> (nat \<Rightarrow> nat) \<Rightarrow> transaction \<Rightarrow> node \<Rightarrow> node" where
  "sendFirstTransaction clock addr tr n =
     (if nd_myLevel n \<noteq> Main then n
      else let fresh = fresh_packets addr n
           in snd (sendByConfidants clock addr GetFirstTransaction Empty
                (ostream_put_transaction fresh tr (ostream_init fresh (nd_ostream n))) n))"

definition sendTransactionList :: "time_point \<Rightarrow> (nat \<Rightarrow> nat) \<Rightarrow> pool \<Rightarrow> u32 \<Rightarrow> node \<Rightarrow> node" where
  "sendTransactionList now addr p target n =
     (if nd_myLevel n \<noteq> Main then n
      else let fresh = fresh_packets addr n
           in send_direct now addr GetBlockCandidate target (ostream_put_pool fresh p (ostream_init fresh (nd_ostream n))) n)"

definition sendVector :: "(nat \<Rightarrow> time_point) \<Rightarrow> (nat \<Rightarrow> nat) \<Rightarrow> byte_array \<Rightarrow> node \<Rightarrow> node" where
  "sendVector clock addr vec n =
     (if nd_myLevel n \<noteq> Confidant then n
      else let fresh = fresh_packets addr n;
               (taskIds, n) = sendByConfidants clock addr GetVector Empty (ostream_put fresh vec (ostream_init fresh (nd_ostream n))) n
           in n\<lparr>nd_vectorTasks := taskIds\<rparr>)"

definition sendMatrix :: "(nat \<Rightarrow> time_point) \<Rightarrow> (nat \<Rightarrow> nat) \<Rightarrow> byte_array \<Rightarrow> node \<Rightarrow> node" where
  "sendMatrix clock addr mat n =
     (if nd_myLevel n \<noteq> Confidant then n
      else let fresh = fresh_packets addr n
           in snd (sendByConfidants clock addr GetMatrix Empty (ostream_put fresh mat (ostream_init fresh (nd_ostream n))) n))"

definition sendBlock :: "time_point \<Rightarrow> (nat \<Rightarrow> nat) \<Rightarrow> pool \<Rightarrow> node \<Rightarrow> node" where
  "sendBlock now addr p n =
     (if nd_myLevel n \<noteq> Writer then n
      else let fresh = fresh_packets addr n
           in send_broadcast now addr GetBlock (ostream_put_pool fresh p (ostream_init fresh (nd_ostream n))) n)"

definition sendHash :: "time_point \<Rightarrow> (nat \<Rightarrow> nat) \<Rightarrow> byte_array \<Rightarrow> u32 \<Rightarrow> node \<Rightarrow> node" where
  "sendHash now addr h target n =
     (if nd_myLevel n = Writer then n
      else let fresh = fresh_packets addr n
           in send_direct now addr GetHash target (ostream_put_fixed fresh h (ostream_init fresh (nd_ostream n))) n)"

end
