(* ===== verification/Delivery.thy ===== *)
theory Delivery
  imports Session
begin

text \<open>
  A message that one session broadcasts arrives at another: the packets it is cut into may come in any
  order, several times, from any neighbour and between packets of other messages, and the receiver hands
  the message to its node once, when the last packet has come, with exactly the bytes that were written.
\<close>

subsection \<open>What is sent\<close>

lemma number_packet_mem:
  "ss_mem (number_packet packets i s) =
    (ss_mem s)(packets ! i := (copy_header (ss_mem s (hd packets)) (ss_mem s (packets ! i)))\<lparr>pk_header := of_nat i\<rparr>)"
  by (simp add: number_packet_def)

lemma number_packets:
  assumes "distinct packets" "k \<le> length packets" "0 < k"
  shows "i < length packets \<Longrightarrow> ss_mem (fold (number_packet packets) [1..<k] s) (packets ! i) =
    (if 0 < i \<and> i < k then (copy_header (ss_mem s (packets ! 0)) (ss_mem s (packets ! i)))\<lparr>pk_header := of_nat i\<rparr>
     else ss_mem s (packets ! i))"
  using assms(2,3)
proof (induction k arbitrary: i)
  case (Suc k)
  show ?case
  proof (cases "k = 0")
    case False
    let ?s = "fold (number_packet packets) [1..<k] s"
    have "packets \<noteq> []" "hd packets = packets ! 0"
      using Suc.prems by (cases packets; simp)+
    moreover from this(1) have "ss_mem ?s (packets ! 0) = ss_mem s (packets ! 0)" "ss_mem ?s (packets ! k) = ss_mem s (packets ! k)"
      using Suc.IH [of 0] Suc.IH [of k] Suc.prems False by simp_all
    moreover have "fold (number_packet packets) [1..<Suc k] s = number_packet packets k ?s"
      using False by simp
    ultimately show ?thesis
      using Suc.IH [of i] Suc.prems False assms(1) nth_eq_iff_index_eq [OF assms(1), of i k]
      by (auto simp: number_packet_mem less_Suc_eq)
  qed auto
qed simp

text \<open>The packets of a message have one header, apart from their number.\<close>

lemma createSendTasks_packets:
  fixes s :: session and cmd :: CommandList and sub :: SubCommandList and last_size :: nat
  assumes "distinct packets" "2 \<le> length packets"
  defines "s1 \<equiv> createSendTasks packets cmd sub last_size s"
    and "block \<equiv> fst (nextHash 32 (take max_length (pk_data (ss_mem s (packets ! 0)))) (pk_HashBlock (ss_mem s (packets ! 0))) (ss_hasher s))"
  assumes "i < length packets"
  shows "ss_mem s1 (packets ! i) =
    \<lparr>pk_command = command_code cmd, pk_subcommand = subcommand_code sub, pk_version = 1, pk_origin_ip = ss_MyIp s,
     pk_hash = ss_MyHash s, pk_publicKey = ss_MyPublicKey s, pk_HashBlock = block, pk_header = of_nat i,
     pk_countHeader = of_nat (length packets), pk_data = pk_data (ss_mem s (packets ! i))\<rparr>"
proof -
  have hd: "hd packets = packets ! 0" and ne: "packets \<noteq> []"
    using assms(2) by (cases packets; simp)+
  have "packets ! i \<noteq> packets ! 0" if "0 < i"
    using that ne assms(5) nth_eq_iff_index_eq [OF assms(1), of i 0] by simp
  then show ?thesis
    using number_packets [OF assms(1) order_refl _ assms(5)] assms(2,5) ne
    by (cases "i = 0") (simp_all add: s1_def createSendTasks_def hd outFrmPack_def Let_def copy_header_def block_def
        split: prod.split)
qed

lemma broadcast_mem: "ss_mem (snd (addTaskBroadcast now packets sub last_size s)) = ss_mem (createSendTasks packets Redirect sub last_size s)"
  by (simp add: addTaskBroadcast_def Let_def split: prod.split)

definition part_size :: "packet list \<Rightarrow> nat \<Rightarrow> nat \<Rightarrow> nat" where
  "part_size ps last_size i = (if Suc i = length ps then last_size else max_length)"

definition message_bytes :: "packet list \<Rightarrow> nat \<Rightarrow> byte_array" where
  "message_bytes ps last_size = concat (map pk_data (butlast ps)) @ take last_size (pk_data (last ps))"

definition relay_of :: "packet \<Rightarrow> packet \<Rightarrow> bool" where
  "relay_of p q \<longleftrightarrow>
     pk_command q = pk_command p \<and> pk_subcommand q = pk_subcommand p \<and> pk_version q = pk_version p \<and>
     pk_origin_ip q = pk_origin_ip p \<and> pk_HashBlock q = pk_HashBlock p \<and> pk_header q = pk_header p \<and>
     pk_countHeader q = pk_countHeader p \<and> pk_data q = pk_data p"

text \<open>A packet that carries the part \<open>i\<close>: passing it on has replaced the sender, the end of its data is arbitrary.\<close>

definition frame_of :: "packet list \<Rightarrow> nat \<Rightarrow> nat \<Rightarrow> packet \<Rightarrow> nat \<Rightarrow> bool" where
  "frame_of ps last_size i p bytes \<longleftrightarrow>
     i < length ps \<and> bytes = headerLength + part_size ps last_size i \<and> packet_ok p \<and>
     relay_of ((ps ! i)\<lparr>pk_data := pk_data p\<rparr>) p \<and>
     take (part_size ps last_size i) (pk_data p) = take (part_size ps last_size i) (pk_data (ps ! i))"

lemma sent_is_frame:
  assumes "packet_ok (ps ! i)" "packet_ok old" "i < length ps" "last_size \<le> max_length"
  shows "frame_of ps last_size i (receive_into old (take (headerLength + part_size ps last_size i) (packet_bytes (ps ! i))))
    (headerLength + part_size ps last_size i)"
proof -
  let ?n = "part_size ps last_size i"
  have n: "?n \<le> max_length"
    using assms(4) by (simp add: part_size_def)
  have len: "length (take ?n (pk_data (ps ! i))) = ?n"
    using n assms(1) by (simp add: packet_ok_def)
  show ?thesis
    unfolding receive_into_sent [OF assms(1,2) n]
    using assms len by (simp add: frame_of_def relay_of_def packet_ok_def)
qed

lemma combine_loop_spec:
  assumes "ps \<noteq> []" "\<forall>p \<in> set ps. length (pk_data p) = max_length" "l \<le> max_length"
    "w \<le> length buf" "length ps * max_length < 2 ^ 64"
  shows "combine_loop (map Some ps) w (of_nat ((length ps - 1) * max_length + l)) buf = Some (memcpy_at buf w (message_bytes ps l))"
  using assms
proof (induction ps arbitrary: w buf)
  case (Cons p ps)
  show ?case
  proof (cases "ps = []")
    case True
    then show ?thesis
      using Cons.prems by (simp add: message_bytes_def unat_of_nat_64)
  next
    case False
    then obtain q qs where ps: "ps = q # qs" by (cases ps) auto
    let ?buf = "memcpy_at buf w (pk_data p)"
    have "combine_loop (map Some ps) (w + max_length) (of_nat ((length ps - 1) * max_length + l)) ?buf =
        Some (memcpy_at ?buf (w + max_length) (message_bytes ps l))"
      using Cons.prems False by (intro Cons.IH) (simp_all add: memcpy_at_def)
    moreover have "memcpy_at ?buf (w + max_length) (message_bytes ps l) = memcpy_at buf w (pk_data p @ message_bytes ps l)"
      using Cons.prems by (simp add: memcpy_at_def ac_simps)
    moreover have "message_bytes (p # ps) l = pk_data p @ message_bytes ps l"
      using False by (simp add: message_bytes_def)
    ultimately show ?thesis
      by (simp add: ps algebra_simps)
  qed
qed simp

subsection \<open>What is received\<close>

type_synonym datagram = "u32 \<times> packet \<times> nat"

primrec session_run :: "datagram list \<Rightarrow> session \<Rightarrow> (node_call list \<times> session) option" where
  "session_run [] s = Some ([], s)"
| "session_run (d # ds) s =
     do { (out, s) \<leftarrow> InputServiceHandleReceive False (fst d) (fst (snd d)) (snd (snd d)) s;
          (outs, s) \<leftarrow> session_run ds s;
          Some (out @ outs, s) }"

text \<open>The packets that reach the collector.\<close>

definition multi :: "packet \<Rightarrow> bool" where
  "multi p \<longleftrightarrow> 0 < pk_countHeader p \<and> pk_countHeader p \<le> 2048 \<and> pk_header p < pk_countHeader p"

definition net_size :: "nat \<Rightarrow> u64" where
  "net_size bytes = of_nat bytes - of_nat headerLength"

lemma send_frame [simp]:
  "ss_packets (outSendPack p n ep s) = ss_packets s" "ss_combined (outSendPack p n ep s) = ss_combined s"
proof -
  have "ss_packets (fold (handleSend p k) eps s) = ss_packets s \<and> ss_combined (fold (handleSend p k) eps s) = ss_combined s" for k eps
    by (induction eps arbitrary: s) (simp_all add: handleSend_def)
  then show "ss_packets (outSendPack p n ep s) = ss_packets s" "ss_combined (outSendPack p n ep s) = ss_combined s"
    by (auto simp: outSendPack_def Let_def handleSend_def split: option.split)
qed

lemma counter_frame [simp]:
  "ss_packets (snd (getBackDataCounter p s)) = ss_packets s" "ss_combined (snd (getBackDataCounter p s)) = ss_combined s"
  by (simp_all add: getBackDataCounter_def Let_def split: prod.split)

lemma redirect_frame:
  assumes "RunRedirect p n s = (go, q, s')"
  shows "relay_of p q" "ss_packets s' = ss_packets s" "ss_combined s' = ss_combined s"
proof -
  obtain c s1 where c: "getBackDataCounter p s = (c, s1)" by fastforce
  have s1: "ss_packets s1 = ss_packets s" "ss_combined s1 = ss_combined s"
    using counter_frame [of p s] by (simp_all add: c)
  show "relay_of p q" "ss_packets s' = ss_packets s" "ss_combined s' = ss_combined s"
    using assms s1 by (auto simp: RunRedirect_def c Let_def relay_of_def split: if_splits)
qed

lemma ring_frame [simp]: "ss_packets (addToRingBuffer a s) = ss_packets s" "ss_combined (addToRingBuffer a s) = ss_combined s"
  by (simp_all add: addToRingBuffer_def split: prod.split)

lemma dispatch_frame [simp]:
  "ss_packets (snd (dispatch m p mem sz s)) = ss_packets s" "ss_combined (snd (dispatch m p mem sz s)) = ss_combined s"
proof -
  obtain c s1 where c: "getBackDataCounter p s = (c, s1)" by fastforce
  have s1: "ss_packets s1 = ss_packets s" "ss_combined s1 = ss_combined s"
    using counter_frame [of p s] by (simp_all add: c)
  obtain go q s2 where r: "RunRedirect p sz s = (go, q, s2)" by (metis prod_cases3)
  show "ss_packets (snd (dispatch m p mem sz s)) = ss_packets s" "ss_combined (snd (dispatch m p mem sz s)) = ss_combined s"
    using s1 redirect_frame [OF r] by (simp_all add: dispatch_def c r)
qed

text \<open>A packet of several, once it has been passed on.\<close>

definition relayed :: "packet \<Rightarrow> nat \<Rightarrow> session \<Rightarrow> packet \<times> session" where
  "relayed p b s = (if is_command p Redirect then snd (RunRedirect p (net_size b) s) else (p, s))"

lemma relayed_frame:
  assumes "relayed p b s = (q, s1)"
  shows "relay_of p q" "ss_packets s1 = ss_packets s" "ss_combined s1 = ss_combined s"
proof -
  obtain go q' s2 where r: "RunRedirect p (net_size b) s = (go, q', s2)" by (metis prod_cases3)
  show "relay_of p q" "ss_packets s1 = ss_packets s" "ss_combined s1 = ss_combined s"
    using assms redirect_frame [OF r] by (auto simp: relayed_def r relay_of_def split: if_splits)
qed

lemma receive_multi:
  assumes "multi p" "relayed p b (addToRingBuffer a s) = (q, s1)"
  shows "InputServiceHandleReceive False a p b s =
    do { ((part, added), c) \<leftarrow> append_packet 1000 q (net_size b) (ss_packets s);
         if \<not> added \<or> pp_left part \<noteq> 0 then Some ([], s1\<lparr>ss_packets := c\<rparr>)
         else do { buf \<leftarrow> combine part (unat (pk_countHeader q)) (ss_combined s);
                   Some (dispatch True q buf (pp_totalSize part) (s1\<lparr>ss_packets := c, ss_combined := buf\<rparr>)) } }"
proof -
  have "ss_packets s1 = ss_packets s" "ss_combined s1 = ss_combined s"
    using relayed_frame [OF assms(2)] by simp_all
  moreover have "\<not> (pk_countHeader p > of_nat 2048 \<or> pk_header p \<ge> pk_countHeader p)" "pk_countHeader p > 0"
    using assms(1) by (auto simp: multi_def)
  ultimately show ?thesis
    unfolding InputServiceHandleReceive_def Let_def net_size_def [symmetric] relayed_def [symmetric] assms(2) by (simp cong: if_cong)
qed

lemma receive_single:
  assumes "\<not> multi p" "InputServiceHandleReceive False a p b s = Some (out, s')"
  shows "ss_packets s' = ss_packets s"
proof -
  have "s' = addToRingBuffer a s \<or> (\<exists>mem sz. dispatch False p mem sz (addToRingBuffer a s) = (out, s'))"
    using assms by (auto simp: InputServiceHandleReceive_def multi_def Let_def not_le not_less split: if_splits)
  then show ?thesis
    using dispatch_frame(1) by (metis ring_frame(1) snd_conv)
qed

lemma receive_collects:
  assumes "multi p" "InputServiceHandleReceive False a p b s = Some (out, s')"
  shows "\<exists>q r. relay_of p q \<and> append_packet 1000 q (net_size b) (ss_packets s) = Some (r, ss_packets s')"
proof -
  obtain q s1 where q: "relayed p b (addToRingBuffer a s) = (q, s1)" by fastforce
  obtain part added c where c: "append_packet 1000 q (net_size b) (ss_packets s) = Some ((part, added), c)"
    using assms(2) by (auto simp: receive_multi [OF assms(1) q] bind_eq_Some_conv)
  have "ss_packets s' = c"
    using assms(2) dispatch_frame(1) [of True q _ "pp_totalSize part" "s1\<lparr>ss_packets := c, ss_combined := _\<rparr>"]
    by (auto simp: receive_multi [OF assms(1) q] c bind_eq_Some_conv split: if_splits simp del: dispatch_frame)
      (metis dispatch_frame(1) session.select_convs session.update_convs session.surjective snd_conv)
  then show ?thesis
    using relayed_frame(1) [OF q] c by blast
qed

lemma run_collects:
  "session_run ds s = Some (out, s') \<Longrightarrow>
    \<exists>es. appends 1000 es (ss_packets s) = Some (ss_packets s') \<and>
      list_all2 (\<lambda>d e. relay_of (fst (snd d)) (fst e) \<and> snd e = net_size (snd (snd d))) (filter (\<lambda>d. multi (fst (snd d))) ds) es"
proof (induction ds arbitrary: s out)
  case (Cons d ds)
  obtain a p b where d: "d = (a, p, b)" by (metis prod_cases3)
  obtain out1 s1 out2 where s1: "InputServiceHandleReceive False a p b s = Some (out1, s1)" "session_run ds s1 = Some (out2, s')"
    using Cons.prems by (auto simp: d bind_eq_Some_conv)
  obtain es where es: "appends 1000 es (ss_packets s1) = Some (ss_packets s')"
    "list_all2 (\<lambda>d e. relay_of (fst (snd d)) (fst e) \<and> snd e = net_size (snd (snd d))) (filter (\<lambda>d. multi (fst (snd d))) ds) es"
    using Cons.IH [OF s1(2)] by blast
  show ?case
  proof (cases "multi p")
    case True
    from receive_collects [OF this s1(1)] obtain q r
      where "relay_of p q" "append_packet 1000 q (net_size b) (ss_packets s) = Some (r, ss_packets s1)" by blast
    then show ?thesis
      using es True by (intro exI [of _ "(q, net_size b) # es"]) (simp add: d)
  next
    case False
    then show ?thesis
      using es receive_single [OF False s1(1)] by (auto simp: d)
  qed
qed simp

subsection \<open>Delivery\<close>

text \<open>The packets of one message in a run.\<close>

definition got :: "packet list \<Rightarrow> nat \<Rightarrow> datagram list \<Rightarrow> nat set" where
  "got ps last_size ds = {i. \<exists>a p b. (a, p, b) \<in> set ds \<and> frame_of ps last_size i p b}"

text \<open>The packets of a broadcast as they are made by \<open>createSendTasks\<close>.\<close>

definition broadcast_packets :: "packet list \<Rightarrow> byte_array \<Rightarrow> SubCommandList \<Rightarrow> bool" where
  "broadcast_packets ps block sub \<longleftrightarrow> 2 \<le> length ps \<and> length ps \<le> 2048 \<and>
     (\<forall>i < length ps. packet_ok (ps ! i) \<and> is_command (ps ! i) Redirect \<and> is_subcommand (ps ! i) sub \<and>
        pk_HashBlock (ps ! i) = block \<and> unat (pk_header (ps ! i)) = i \<and> unat (pk_countHeader (ps ! i)) = length ps)"

lemma frame_header:
  assumes "frame_of ps l i p b" "broadcast_packets ps block sub" "relay_of p q"
  shows "is_command q Redirect" "is_subcommand q sub" "pk_HashBlock q = block" "unat (pk_header q) = i"
    "unat (pk_countHeader q) = length ps" "i < length ps" "multi p" "pk_origin_ip q = pk_origin_ip (ps ! i)"
proof -
  have i: "i < length ps"
    using assms(1) by (simp add: frame_of_def)
  have q: "pk_command q = pk_command (ps ! i)" "pk_subcommand q = pk_subcommand (ps ! i)" "pk_HashBlock q = pk_HashBlock (ps ! i)"
    "pk_header q = pk_header (ps ! i)" "pk_countHeader q = pk_countHeader (ps ! i)" "pk_origin_ip q = pk_origin_ip (ps ! i)"
    "pk_header p = pk_header (ps ! i)" "pk_countHeader p = pk_countHeader (ps ! i)"
    using assms(1,3) by (simp_all add: frame_of_def relay_of_def)
  show "is_command q Redirect" "is_subcommand q sub" "pk_HashBlock q = block" "unat (pk_header q) = i"
    "unat (pk_countHeader q) = length ps" "i < length ps" "pk_origin_ip q = pk_origin_ip (ps ! i)"
    using assms(2) i q by (auto simp: broadcast_packets_def)
  show "multi p"
    using assms(2) i q(7,8) by (auto simp: broadcast_packets_def multi_def word_less_nat_alt word_le_nat_alt)
qed

lemma frame_size: "frame_of ps l i p b \<Longrightarrow> net_size b = of_nat (part_size ps l i)"
  by (simp add: frame_of_def net_size_def)

definition carries :: "packet list \<Rightarrow> nat \<Rightarrow> nat \<Rightarrow> packet \<Rightarrow> bool" where
  "carries ps l i p \<longleftrightarrow> length (pk_data p) = max_length \<and>
     take (part_size ps l i) (pk_data p) = take (part_size ps l i) (pk_data (ps ! i))"

lemma frame_carries: "frame_of ps l i p b \<Longrightarrow> relay_of p q \<Longrightarrow> carries ps l i q"
  by (simp add: frame_of_def relay_of_def carries_def packet_ok_def)

abbreviation message_part :: "packet list \<Rightarrow> nat \<Rightarrow> nat set \<Rightarrow> packet_part \<Rightarrow> bool" where
  "message_part ps l \<equiv> part_holds (length ps) (\<lambda>i. of_nat (part_size ps l i)) (carries ps l)"

lemma list_all2_in_set1: "list_all2 R xs ys \<Longrightarrow> x \<in> set xs \<Longrightarrow> \<exists>y \<in> set ys. R x y"
  by (induction rule: list_all2_induct) auto

lemma list_all2_in_set2: "list_all2 R xs ys \<Longrightarrow> y \<in> set ys \<Longrightarrow> \<exists>x \<in> set xs. R x y"
  by (induction rule: list_all2_induct) auto

text \<open>The packets of a message that reach the collector.\<close>

definition collected :: "packet list \<Rightarrow> nat \<Rightarrow> byte_array \<Rightarrow> datagram list \<Rightarrow> (packet \<times> u64) list \<Rightarrow> bool" where
  "collected ps l block ds es \<longleftrightarrow>
     seen block es = got ps l ds \<and>
     (pk_HashBlock \<circ> fst) ` set es - {block} \<subseteq> (\<lambda>(a, p, b). pk_HashBlock p) ` set ds - {block} \<and>
     (\<forall>(q, n) \<in> set es. pk_HashBlock q = block \<longrightarrow>
        unat (pk_header q) < length ps \<and> unat (pk_countHeader q) = length ps \<and> carries ps l (unat (pk_header q)) q \<and>
        n = of_nat (part_size ps l (unat (pk_header q))))"

lemma collectedD:
  assumes "collected ps l block ds es"
  shows "seen block es = got ps l ds"
    "(pk_HashBlock \<circ> fst) ` set es - {block} \<subseteq> (\<lambda>(a, p, b). pk_HashBlock p) ` set ds - {block}"
    "(q, n) \<in> set es \<Longrightarrow> pk_HashBlock q = block \<Longrightarrow>
      unat (pk_header q) < length ps \<and> unat (pk_countHeader q) = length ps \<and> carries ps l (unat (pk_header q)) q \<and>
      n = of_nat (part_size ps l (unat (pk_header q)))"
proof -
  note c = assms [unfolded collected_def]
  show "seen block es = got ps l ds" by (rule conjunct1 [OF c])
  show "(pk_HashBlock \<circ> fst) ` set es - {block} \<subseteq> (\<lambda>(a, p, b). pk_HashBlock p) ` set ds - {block}"
    by (rule conjunct1 [OF conjunct2 [OF c]])
  show "(q, n) \<in> set es \<Longrightarrow> pk_HashBlock q = block \<Longrightarrow>
      unat (pk_header q) < length ps \<and> unat (pk_countHeader q) = length ps \<and> carries ps l (unat (pk_header q)) q \<and>
      n = of_nat (part_size ps l (unat (pk_header q)))"
    using bspec [OF conjunct2 [OF conjunct2 [OF c]]] by fast
qed

lemma relays_collected:
  assumes bp: "broadcast_packets ps block sub"
    and frames: "\<And>a p b. (a, p, b) \<in> set ds \<Longrightarrow> pk_HashBlock p = block \<Longrightarrow> \<exists>i. frame_of ps l i p b"
    and from_es: "\<And>q n. (q, n) \<in> set es \<Longrightarrow> \<exists>a p b. (a, p, b) \<in> set ds \<and> relay_of p q \<and> n = net_size b"
    and into_es: "\<And>a p b. (a, p, b) \<in> set ds \<Longrightarrow> multi p \<Longrightarrow> \<exists>q. (q, net_size b) \<in> set es \<and> relay_of p q"
  shows "collected ps l block ds es"
proof -
  have frame: "\<exists>a p b. (a, p, b) \<in> set ds \<and> frame_of ps l (unat (pk_header q)) p b \<and> relay_of p q \<and> n = net_size b"
    if q: "(q, n) \<in> set es" "pk_HashBlock q = block" for q n
  proof -
    obtain a p b where d: "(a, p, b) \<in> set ds" "relay_of p q" "n = net_size b"
      using from_es [OF q(1)] by blast
    then obtain i where i: "frame_of ps l i p b"
      using frames [OF d(1)] q(2) by (auto simp: relay_of_def)
    then show ?thesis
      using d frame_header(4) [OF i bp d(2)] by blast
  qed
  moreover have "i \<in> seen block es" if i: "i \<in> got ps l ds" for i
  proof -
    obtain a p b where d: "(a, p, b) \<in> set ds" "frame_of ps l i p b"
      using i by (auto simp: got_def)
    have "relay_of p p" by (simp add: relay_of_def)
    from frame_header(7) [OF d(2) bp this] obtain q where "(q, net_size b) \<in> set es" "relay_of p q"
      using into_es [OF d(1)] by blast
    then show ?thesis
      using frame_header(3,4) [OF d(2) bp] by (force simp: seen_def)
  qed
  moreover have "unat (pk_header q) \<in> got ps l ds" if "(q, n) \<in> set es" "pk_HashBlock q = block" for q n
    using frame [OF that] unfolding got_def by blast
  ultimately have seen: "seen block es = got ps l ds"
    unfolding seen_def by blast
  have "pk_HashBlock q \<in> (\<lambda>(a, p, b). pk_HashBlock p) ` set ds" if e: "(q, n) \<in> set es" for q n
  proof -
    obtain a p b where "(a, p, b) \<in> set ds" "relay_of p q"
      using from_es [OF e] by blast
    then show ?thesis
      by (intro image_eqI [of _ _ "(a, p, b)"]) (simp_all add: relay_of_def)
  qed
  then have others: "(pk_HashBlock \<circ> fst) ` set es - {block} \<subseteq> (\<lambda>(a, p, b). pk_HashBlock p) ` set ds - {block}"
    by auto
  have own: "unat (pk_header q) < length ps \<and> unat (pk_countHeader q) = length ps \<and> carries ps l (unat (pk_header q)) q \<and>
      n = of_nat (part_size ps l (unat (pk_header q)))" if q: "(q, n) \<in> set es" "pk_HashBlock q = block" for q n
  proof -
    obtain p b where f: "frame_of ps l (unat (pk_header q)) p b" "relay_of p q" "n = net_size b"
      using frame [OF q] by blast
    show ?thesis
      using frame_header(5,6) [OF f(1) bp f(2)] frame_carries [OF f(1,2)] frame_size [OF f(1)] f(3) by simp
  qed
  show ?thesis
    unfolding collected_def by (intro conjI seen others ballI) (clarify, rule own, simp_all)
qed

lemma run_holds:
  assumes bp: "broadcast_packets ps block sub" and run: "session_run ds r = Some (out, r')"
    and inv: "collector_inv 1000 (ss_packets r)" "block \<notin> set (pc_queue (ss_packets r))"
    and frames: "\<forall>(a, p, b) \<in> set ds. pk_HashBlock p = block \<longrightarrow> (\<exists>i. frame_of ps l i p b)"
    and few: "card ((\<lambda>(a, p, b). pk_HashBlock p) ` set ds - {block}) < 1000"
  shows "collector_inv 1000 (ss_packets r')"
    "case pc_map (ss_packets r') block of None \<Rightarrow> got ps l ds = {} | Some part \<Rightarrow> message_part ps l (got ps l ds) part"
proof -
  obtain es where es: "appends 1000 es (ss_packets r) = Some (ss_packets r')"
    "list_all2 (\<lambda>d e. relay_of (fst (snd d)) (fst e) \<and> snd e = net_size (snd (snd d))) (filter (\<lambda>d. multi (fst (snd d))) ds) es"
    using run_collects [OF run] by blast
  show "collector_inv 1000 (ss_packets r')"
    using appends_queue [OF inv(1) _ es(1)] by simp
  have "collected ps l block ds es"
  proof (rule relays_collected [OF bp])
    show "\<exists>i. frame_of ps l i p b" if "(a, p, b) \<in> set ds" "pk_HashBlock p = block" for a p b
      using frames that by blast
    show "\<exists>a p b. (a, p, b) \<in> set ds \<and> relay_of p q \<and> n = net_size b" if "(q, n) \<in> set es" for q n
      using list_all2_in_set2 [OF es(2) that] by auto
    show "\<exists>q. (q, net_size b) \<in> set es \<and> relay_of p q" if "(a, p, b) \<in> set ds" "multi p" for a p b
      using list_all2_in_set1 [OF es(2), of "(a, p, b)"] that by auto
  qed
  note c = collectedD [OF this]
  have "card ((pk_HashBlock \<circ> fst) ` set es - {block}) < 1000"
    by (rule le_less_trans [OF card_mono [OF _ c(2)] few]) simp
  from appends_hold [where P = "carries ps l" and n = "length ps" and sz = "\<lambda>i. of_nat (part_size ps l i)",
      OF inv(1) _ inv(2) this c(3) es(1)]
  show "case pc_map (ss_packets r') block of None \<Rightarrow> got ps l ds = {} | Some part \<Rightarrow> message_part ps l (got ps l ds) part"
    unfolding c(1) by simp
qed

text \<open>A complete part is combined to the message.\<close>

lemma sum_part_size:
  assumes "ps \<noteq> []"
  shows "(\<Sum>i < length ps. part_size ps l i) = (length ps - 1) * max_length + l"
proof -
  obtain m where m: "length ps = Suc m"
    using assms by (cases ps) auto
  have "(\<Sum>i < m. part_size ps l i) = (\<Sum>i < m. max_length)"
    by (rule sum.cong) (simp_all add: part_size_def m)
  then show ?thesis
    unfolding m sum.lessThan_Suc by (simp add: part_size_def m)
qed

lemma carries_message:
  assumes "length qs = length ps" "\<And>i. i < length ps \<Longrightarrow> carries ps l i (qs ! i)"
    and "\<And>i. i < length ps \<Longrightarrow> length (pk_data (ps ! i)) = max_length" "ps \<noteq> []"
  shows "message_bytes qs l = message_bytes ps l"
proof -
  have "map pk_data (butlast qs) = map pk_data (butlast ps)"
  proof (rule nth_equalityI)
    fix i assume "i < length (map pk_data (butlast qs))"
    then have i: "i < length ps" "Suc i < length ps" using assms(1) by simp_all
    then show "map pk_data (butlast qs) ! i = map pk_data (butlast ps) ! i"
      using assms(1) assms(2,3) [OF i(1)] by (auto simp: nth_butlast carries_def part_size_def)
  qed (simp add: assms(1))
  moreover have "qs \<noteq> []" using assms(1,4) by auto
  ultimately show ?thesis
    using assms(2) [of "length ps - 1"] assms(1,4)
    by (simp add: message_bytes_def last_conv_nth carries_def part_size_def)
qed

lemma length_message:
  assumes "ps \<noteq> []" "\<And>i. i < length ps \<Longrightarrow> length (pk_data (ps ! i)) = max_length" "l \<le> max_length"
  shows "length (message_bytes ps l) = (length ps - 1) * max_length + l"
proof -
  have "length (pk_data p) = max_length" if "p \<in> set ps" for p
    using that assms(2) by (auto simp: in_set_conv_nth)
  then show ?thesis
    using assms(1,3) by (simp add: message_bytes_def length_full_parts in_set_butlastD)
qed

lemma combine_complete:
  assumes "broadcast_packets ps block sub" "message_part ps l {..<length ps} part" "l \<le> max_length"
  shows "combine part (length ps) buf = Some (memcpy_at buf 0 (message_bytes ps l))"
    "unat (pp_totalSize part) = length (message_bytes ps l)"
proof -
  have ps: "ps \<noteq> []" "length ps \<le> 2048" "\<And>i. i < length ps \<Longrightarrow> length (pk_data (ps ! i)) = max_length"
    using assms(1) by (auto simp: broadcast_packets_def packet_ok_def)
  define qs where "qs = map the (pp_packets part)"
  have part: "length (pp_packets part) = length ps" "pp_size part = length ps"
    "\<And>i. i < length ps \<Longrightarrow> pp_packets part ! i = Some (qs ! i) \<and> carries ps l i (qs ! i)"
    using assms(2) by (auto simp: part_holds_def qs_def)
  have qs: "pp_packets part = map Some qs" "length qs = length ps"
    using part by (auto simp: qs_def intro: nth_equalityI)
  have msg: "message_bytes qs l = message_bytes ps l"
    using qs(2) part(3) ps by (intro carries_message) auto
  have "pp_totalSize part = of_nat (\<Sum>i < length ps. part_size ps l i)"
    using assms(2) by (simp add: part_holds_def)
  then have tot: "pp_totalSize part = of_nat ((length qs - 1) * max_length + l)"
    by (simp only: sum_part_size [OF ps(1)] qs(2))
  have "\<forall>q \<in> set qs. length (pk_data q) = max_length"
    using part(3) qs(2) by (auto simp: carries_def in_set_conv_nth)
  moreover have "qs \<noteq> []" using ps(1) qs(2) by auto
  ultimately show "combine part (length ps) buf = Some (memcpy_at buf 0 (message_bytes ps l))"
    using ps(2) qs(2) assms(3) combine_loop_spec [of qs l 0 buf] part(2)
    by (simp add: combine_def qs(1) tot msg)
  have "length (message_bytes ps l) = (length qs - 1) * max_length + l"
    using length_message [OF ps(1,3) assms(3)] qs(2) by simp
  moreover have "(length qs - 1) * max_length + l < 2 ^ 64"
    using ps(2) qs(2) assms(3) by simp
  ultimately show "unat (pp_totalSize part) = length (message_bytes ps l)"
    unfolding tot by (simp only: unat_of_nat_64)
qed

lemma message_part_done:
  assumes "message_part ps l I part" "length ps \<le> 2048"
  shows "pp_left part = 0 \<longleftrightarrow> I = {..<length ps}"
proof -
  have I: "I \<subseteq> {..<length ps}" and left: "pp_left part = of_nat (length ps - card I)"
    using assms(1) by (simp_all add: part_holds_def)
  have "pp_left part = 0 \<longleftrightarrow> length ps - card I = 0"
    using assms(2) unat_of_nat_64 [of "length ps - card I"] by (simp add: left word_unat_eq_iff)
  also have "\<dots> \<longleftrightarrow> I = {..<length ps}"
  proof
    assume "length ps - card I = 0"
    then show "I = {..<length ps}"
      by (intro card_seteq I) simp_all
  qed simp
  finally show ?thesis .
qed

lemma dispatch_redirect: "is_command q Redirect \<Longrightarrow> dispatch True q mem sz s = (redirect_call q mem sz, s)"
  by (simp add: dispatch_def)

text \<open>One packet of the message: it completes the message or it gives nothing.\<close>

definition delivers :: "packet list \<Rightarrow> nat \<Rightarrow> packet \<Rightarrow> node_call list \<Rightarrow> bool" where
  "delivers ps l p out \<longleftrightarrow>
     (\<exists>mem sz. out = redirect_call p mem sz \<and> unat sz = length (message_bytes ps l) \<and> take (unat sz) mem = message_bytes ps l)"

lemma receive_frame:
  assumes bp: "broadcast_packets ps block sub" and l: "l \<le> max_length" and f: "frame_of ps l i p b"
    and inv: "collector_inv 1000 (ss_packets r)"
    and holds: "case pc_map (ss_packets r) block of None \<Rightarrow> I = {} | Some part \<Rightarrow> message_part ps l I part"
  shows "\<exists>out r'. InputServiceHandleReceive False a p b r = Some (out, r') \<and>
    (if i \<notin> I \<and> insert i I = {..<length ps} then delivers ps l (ps ! i) out else out = [])"
proof -
  obtain q s1 where q: "relayed p b (addToRingBuffer a r) = (q, s1)" by fastforce
  note rel = relayed_frame(1) [OF q]
  note head = frame_header [OF f bp rel]
  have len: "length ps \<le> 2048"
    using bp by (simp add: broadcast_packets_def)
  have "unat (pk_header q) < length ps" "unat (pk_countHeader q) = length ps" "carries ps l (unat (pk_header q)) q"
    "case pc_map (ss_packets r) (pk_HashBlock q) of None \<Rightarrow> I = {} | Some part \<Rightarrow> message_part ps l I part"
    using head(3-6) holds frame_carries [OF f rel] by simp_all
  from append_packet_part [where P = "carries ps l" and I = I and n = "length ps" and sz = "\<lambda>i. of_nat (part_size ps l i)",
      OF inv _ this] head(4) frame_size [OF f]
  obtain part c where app: "append_packet 1000 q (net_size b) (ss_packets r) = Some ((part, i \<notin> I), c)"
    and part: "message_part ps l (insert i I) part"
    by auto
  note complete = message_part_done [OF part len]
  show ?thesis
  proof (cases "i \<notin> I \<and> insert i I = {..<length ps}")
    case True
    then have "message_part ps l {..<length ps} part" "pp_left part = 0"
      using part complete by simp_all
    note comb = combine_complete [OF bp this(1) l]
    let ?mem = "memcpy_at (ss_combined r) 0 (message_bytes ps l)"
    have "InputServiceHandleReceive False a p b r =
        Some (redirect_call q ?mem (pp_totalSize part), s1\<lparr>ss_packets := c, ss_combined := ?mem\<rparr>)"
      using True \<open>pp_left part = 0\<close> comb(1) head(1)
      by (simp add: receive_multi [OF head(7) q] app head(5) dispatch_redirect)
    moreover have "redirect_call q = redirect_call (ps ! i)"
      using f rel by (auto simp: frame_of_def relay_of_def redirect_call_def fun_eq_iff)
    moreover have "delivers ps l (ps ! i) (redirect_call (ps ! i) ?mem (pp_totalSize part))"
      unfolding delivers_def using comb(2)
      by (intro exI [of _ ?mem] exI [of _ "pp_totalSize part"]) (simp add: memcpy_at_def)
    ultimately show ?thesis
      using True by simp
  next
    case False
    then have "InputServiceHandleReceive False a p b r = Some ([], s1\<lparr>ss_packets := c\<rparr>)"
      using complete by (auto simp: receive_multi [OF head(7) q] app)
    then show ?thesis
      using False by auto
  qed
qed

subsection \<open>From one session to another\<close>

definition identity_ok :: "session \<Rightarrow> bool" where
  "identity_ok s \<longleftrightarrow> length (ss_MyHash s) = hash_length \<and> length (ss_MyPublicKey s) = publicKey_length \<and>
     (\<exists>n. hasher_inv (ss_MyPublicKey s) n (ss_hasher s))"

lemma length_blake2s_into:
  assumes "0 < n" "n \<le> 32" "off + n \<le> length dst"
  shows "length (blake2s_into dst off n inp) = length dst"
  using assms blake2s_total [OF assms(1,2), of inp] by (auto simp: blake2s_into_def length_memcpy_at)

lemma GenerationHash_identity:
  assumes "length (ss_MyHash s) = hash_length" "length (ss_MyPublicKey s) = publicKey_length" "length (ss_hasher s) = 96"
    and "GenerationHash (Some line) buf s = (good, s')"
  shows "good \<and> identity_ok s'"
  using assms by (auto simp: GenerationHash_def identity_ok_def Let_def length_blake2s_into intro!: exI [of _ 0] hasher_init_inv)

lemma nextHash_length:
  assumes "identity_ok s" "length out = hash_length"
  shows "length (fst (nextHash 32 inp out (ss_hasher s))) = hash_length"
proof -
  obtain n where n: "hasher_inv (ss_MyPublicKey s) n (ss_hasher s)" "length (ss_MyPublicKey s) = publicKey_length"
    using assms(1) by (auto simp: identity_ok_def)
  obtain d where d: "blake2s 32 inp [] = Some d"
    using blake2s_total [of 32 inp] by auto
  obtain h where "length h = 32" "fst (nextHash 32 inp out (ss_hasher s)) = replicate 8 0 @ h"
    using nextHash_spec(1) [OF n assms(2) d] by blast
  then show ?thesis by simp
qed

lemma broadcast_made:
  assumes os: "ostream_inv os" "2 \<le> length (os_parts os)" "length (os_parts os) \<le> 2048"
    and addrs: "distinct addrs" "map (ss_mem s) addrs = os_parts os" and id: "identity_ok s"
    and ps: "ps = map (ss_mem (snd (addTaskBroadcast now addrs sub (lastSize os) s))) addrs"
  shows "broadcast_packets ps (pk_HashBlock (ps ! 0)) sub" "message_bytes ps (lastSize os) = content os"
    "lastSize os \<le> max_length" "length ps = length (os_parts os)"
proof -
  have len: "length addrs = length (os_parts os)"
    using addrs(2) by (metis length_map)
  then show lens: "length ps = length (os_parts os)" by (simp add: ps)
  have mem: "ss_mem s (addrs ! i) = os_parts os ! i" "packet_ok (os_parts os ! i)" if i: "i < length ps" for i
  proof -
    show "ss_mem s (addrs ! i) = os_parts os ! i"
      using nth_map [of i addrs "ss_mem s"] i len lens by (simp only: addrs(2))
    have "os_parts os ! i \<in> set (os_parts os)"
      using i lens by simp
    then show "packet_ok (os_parts os ! i)"
      using os(1) unfolding ostream_inv_def by blast
  qed
  define block where "block = fst (nextHash 32 (take max_length (pk_data (ss_mem s (addrs ! 0)))) (pk_HashBlock (ss_mem s (addrs ! 0))) (ss_hasher s))"
  have p: "ps ! i =
    \<lparr>pk_command = command_code Redirect, pk_subcommand = subcommand_code sub, pk_version = 1, pk_origin_ip = ss_MyIp s,
     pk_hash = ss_MyHash s, pk_publicKey = ss_MyPublicKey s, pk_HashBlock = block, pk_header = of_nat i,
     pk_countHeader = of_nat (length ps), pk_data = pk_data (os_parts os ! i)\<rparr>" if i: "i < length ps" for i
    using i createSendTasks_packets [OF addrs(1), of i] os(2) len lens mem(1) [OF i]
    by (simp add: ps broadcast_mem block_def)
  have first: "0 < length ps" using lens os(2) by linarith
  then have "length (pk_HashBlock (os_parts os ! 0)) = hash_length"
    using mem(2) [OF first] by (simp add: packet_ok_def)
  then have "length block = hash_length"
    using mem(1) [OF first] nextHash_length [OF id] by (simp add: block_def)
  then have ok: "packet_ok (ps ! i)" if "i < length ps" for i
    using mem(2) [OF that] id by (simp add: p [OF that] packet_ok_def identity_ok_def)
  have num: "unat (of_nat k :: u16) = k" if "k \<le> 2048" for k
    using that by (simp add: unat_of_nat)
  show "broadcast_packets ps (pk_HashBlock (ps ! 0)) sub"
    unfolding broadcast_packets_def
  proof (intro conjI allI impI)
    fix i assume i: "i < length ps"
    show "pk_HashBlock (ps ! i) = pk_HashBlock (ps ! 0)"
      by (simp add: p [OF i] p [OF first])
    show "unat (pk_header (ps ! i)) = i" "unat (pk_countHeader (ps ! i)) = length ps"
      using i os(3) lens by (simp_all add: p [OF i] num)
  qed (use os(2,3) lens ok p in simp_all)
  have "map pk_data ps = map pk_data (os_parts os)"
    using lens by (intro nth_equalityI) (simp_all add: p)
  then show "message_bytes ps (lastSize os) = content os"
    using os(1,2) lens unfolding message_bytes_def content_def lastSize_def ostream_inv_def
    by (metis map_butlast last_map length_0_conv not_numeral_le_zero)
  show "lastSize os \<le> max_length"
    using os(1) by (simp add: ostream_inv_def lastSize_def)
qed

text \<open>C1: a message written to an output stream and broadcast in several packets is delivered: every packet, when it
  comes to another session, over the wire or passed on by a third, is handled without undefined behaviour; the
  node is called exactly when the packet completes the message, and then with exactly the bytes that were
  written. The packets may come in any order and repeatedly, between packets of fewer than 1000 other messages.\<close>

theorem broadcast_delivered:
  assumes "ostream_inv os" "2 \<le> length (os_parts os)" "length (os_parts os) \<le> 2048"
    and "distinct addrs" "map (ss_mem s) addrs = os_parts os" "identity_ok s"
    and "ps = map (ss_mem (snd (addTaskBroadcast now addrs sub (lastSize os) s))) addrs"
    and "session_run ds r = Some (outs, r')" "collector_inv 1000 (ss_packets r)"
    and "pk_HashBlock (ps ! 0) \<notin> set (pc_queue (ss_packets r))"
    and "\<forall>(a, p, b) \<in> set ds. pk_HashBlock p = pk_HashBlock (ps ! 0) \<longrightarrow> (\<exists>i. frame_of ps (lastSize os) i p b)"
    and "card ((\<lambda>(a, p, b). pk_HashBlock p) ` set ds - {pk_HashBlock (ps ! 0)}) < 1000"
    and "frame_of ps (lastSize os) i p b"
  shows "(\<exists>out r''. InputServiceHandleReceive False a p b r' = Some (out, r'') \<and>
      (if i \<notin> got ps (lastSize os) ds \<and> insert i (got ps (lastSize os) ds) = {..<length ps}
       then \<exists>mem sz. out = redirect_call (ps ! i) mem sz \<and> unat sz = length (content os) \<and> take (unat sz) mem = content os
       else out = [])) \<and>
    (\<forall>old j. packet_ok old \<longrightarrow> j < length ps \<longrightarrow>
      (let n = headerLength + part_size ps (lastSize os) j
       in frame_of ps (lastSize os) j (receive_into old (take n (packet_bytes (ps ! j)))) n))"
proof -
  note made = broadcast_made [OF assms(1-7)]
  note run = run_holds [OF made(1) assms(8-12)]
  have "packet_ok (ps ! j)" if "j < length ps" for j
    using made(1) that by (simp add: broadcast_packets_def)
  then show ?thesis
    using receive_frame [OF made(1,3) assms(13) run, where a = a] sent_is_frame [OF _ _ _ made(3)]
    unfolding delivers_def made(2) Let_def by blast
qed

text \<open>A message of two packets, the second one first.\<close>

definition sample_packet :: packet where
  "sample_packet =
     \<lparr>pk_command = 0, pk_subcommand = 0, pk_version = 0, pk_origin_ip = 0, pk_hash = replicate 40 0, pk_publicKey = replicate 32 0,
      pk_HashBlock = replicate 40 0, pk_header = 0, pk_countHeader = 0, pk_data = replicate 62440 7\<rparr>"

definition sample_stream :: opackstream where
  "sample_stream = \<lparr>os_parts = [sample_packet, sample_packet], os_ptr = 1, os_left = 62439\<rparr>"

definition sample_session :: session where
  "sample_session =
     \<lparr>ss_MyIp = 1, ss_MyHash = replicate 40 0, ss_MyPublicKey = replicate 32 0, ss_awaiting = False, ss_signalServerAddr = 2,
      ss_serverEndpoint = (2, 6000), ss_nodesRing = nodes_ring_new, ss_backData = circular_map_new,
      ss_packets = packet_collector_new, ss_mem = (\<lambda>_. sample_packet), ss_hasher = hasher_init (replicate 32 0) (replicate 96 0),
      ss_taskman = task_manager_new 0, ss_combined = [], ss_sent = []\<rparr>"

definition sample_parts :: "packet list" where
  "sample_parts = map (ss_mem (snd (addTaskBroadcast 0 [0, 1] GetBlock (lastSize sample_stream) sample_session))) [0, 1]"

definition sample_frame :: "nat \<Rightarrow> packet" where
  "sample_frame j =
     receive_into sample_packet (take (headerLength + part_size sample_parts (lastSize sample_stream) j) (packet_bytes (sample_parts ! j)))"

lemma sample_facts:
  "ostream_inv sample_stream" "2 \<le> length (os_parts sample_stream)" "length (os_parts sample_stream) \<le> 2048"
  "distinct [0 :: nat, 1]" "map (ss_mem sample_session) [0, 1] = os_parts sample_stream" "identity_ok sample_session"
  "collector_inv 1000 (ss_packets sample_session)" "pc_queue (ss_packets sample_session) = []"
  "packet_ok sample_packet" "length sample_parts = 2"
  "part_size sample_parts (lastSize sample_stream) 0 = 62440" "part_size sample_parts (lastSize sample_stream) 1 = 1"
proof -
  show "packet_ok sample_packet"
    by (simp add: packet_ok_def sample_packet_def)
  then show "ostream_inv sample_stream"
    by (simp add: ostream_inv_def sample_stream_def)
  show "identity_ok sample_session"
    using hasher_init_inv [of "replicate 32 0" "replicate 96 0"] by (auto simp: identity_ok_def sample_session_def)
  show "collector_inv 1000 (ss_packets sample_session)"
    by (simp add: sample_session_def new_collector_inv)
  show "part_size sample_parts (lastSize sample_stream) 1 = 1"
    by (simp add: sample_parts_def part_size_def lastSize_def sample_stream_def)
qed (simp_all add: sample_stream_def sample_session_def packet_collector_new_def sample_parts_def part_size_def)

lemmas sample_delivered = sample_facts(1-6) sample_parts_def

lemma sample_frames:
  assumes "j < 2"
  shows "frame_of sample_parts (lastSize sample_stream) j (sample_frame j) (headerLength + part_size sample_parts (lastSize sample_stream) j)"
proof -
  note made = broadcast_made [OF sample_delivered]
  have "packet_ok (sample_parts ! j)"
    using made(1) assms by (simp add: broadcast_packets_def sample_facts(10))
  then show ?thesis
    using sent_is_frame [OF _ sample_facts(9) _ made(3), of sample_parts j] assms sample_facts(10)
    by (simp add: sample_frame_def)
qed

lemma sample_header:
  assumes "frame_of sample_parts (lastSize sample_stream) j p b"
  shows "unat (pk_header p) = j" "pk_HashBlock p = pk_HashBlock (sample_parts ! 0)"
proof -
  have "relay_of p p" by (simp add: relay_of_def)
  from frame_header(3,4) [OF assms broadcast_made(1) [OF sample_delivered] this]
  show "unat (pk_header p) = j" "pk_HashBlock p = pk_HashBlock (sample_parts ! 0)" by simp_all
qed

theorem broadcast_delivered_witness:
  "\<exists>r1 r2 mem sz. session_run [(5, sample_frame 1, 124)] sample_session = Some ([], r1) \<and>
    InputServiceHandleReceive False 6 (sample_frame 0) 62563 r1 = Some (redirect_call (sample_parts ! 0) mem sz, r2) \<and>
    take (unat sz) mem = content sample_stream"
proof -
  let ?l = "lastSize sample_stream"
  let ?block = "pk_HashBlock (sample_parts ! 0)" and ?ds = "[(5, sample_frame 1, 124)] :: datagram list"
  note bd = broadcast_delivered [OF sample_delivered]
  have frame1: "frame_of sample_parts ?l 1 (sample_frame 1) 124" and frame0: "frame_of sample_parts ?l 0 (sample_frame 0) 62563"
    using sample_frames [of 1] sample_frames [of 0] sample_facts(11,12) by (simp_all add: headerLength_def)
  have "j = 1" if "frame_of sample_parts ?l j (sample_frame 1) 124" for j
    using sample_header(1) [OF that] sample_header(1) [OF frame1] by simp
  then have got0: "got sample_parts ?l [] = {}" and got1: "got sample_parts ?l ?ds = {1}"
    using frame1 by (auto simp: got_def)
  obtain r1 where r1: "InputServiceHandleReceive False 5 (sample_frame 1) 124 sample_session = Some ([], r1)"
    using bd [of "[]" sample_session "[]" sample_session 1 "sample_frame 1" 124 5] frame1 sample_facts(7,8,10)
    by (auto simp: got0 lessThan_Suc numeral_2_eq_2)
  have run: "session_run ?ds sample_session = Some ([], r1)"
    using r1 by simp
  have few: "card ((\<lambda>(a, p, b). pk_HashBlock p) ` set ?ds - {?block}) < 1000"
    using sample_header(2) [OF frame1] by simp
  have new: "?block \<notin> set (pc_queue (ss_packets sample_session))"
    by (simp add: sample_facts(8))
  have own: "\<forall>(a, p, b) \<in> set ?ds. pk_HashBlock p = ?block \<longrightarrow> (\<exists>i. frame_of sample_parts ?l i p b)"
    using frame1 by auto
  have complete: "0 \<notin> got sample_parts ?l ?ds \<and> insert 0 (got sample_parts ?l ?ds) = {..<length sample_parts}"
    unfolding got1 sample_facts(10) by auto
  note res = conjunct1 [OF bd [OF run sample_facts(7) new own few frame0, of 6]]
  show ?thesis
    using res run unfolding if_P [OF complete] by blast
qed

end
