(* ===== verification/NodeRounds.thy ===== *)
theory NodeRounds
  imports Node Delivery
begin

text \<open>
  The rounds of a node: every handler returns, whatever the bytes of the message are, and reads nothing that is far from
  it; the level of a node is that of the round it has started; and a round table that one node sends is the round
  another node takes over.
\<close>

subsection \<open>Handlers return\<close>


lemma get_node_reads: "snd (istream_get_node mem st) = reads mem 4 1 st"
  by (simp add: istream_get_node_def reads_def case_prod_beta)

lemma reads_add: "reads mem n (j + k) st = reads mem n j (reads mem n k st)"
  by (simp add: reads_def funpow_add)

lemma ring_loop_step:
  "ring_loop mem st net =
    (if istream_bool st
     then ring_loop mem (reads mem 4 1 st) (addToRingBuffer (case fst (istream_get_node mem st) of None \<Rightarrow> 0 | Some a \<Rightarrow> a) net)
     else Some (st, net))"
  unfolding get_node_reads [symmetric] by (subst ring_loop.simps) (simp add: case_prod_beta)

text \<open>A stream over the message of \<open>sz\<close> bytes at \<open>ptr\<close> that has passed the end by fewer than four bytes, and two memories
  that agree on the message and on the three bytes behind it.\<close>

definition inside :: "u64 \<Rightarrow> u64 \<Rightarrow> ipackstream \<Rightarrow> bool" where
  "inside ptr sz st \<longleftrightarrow> is_end st = ptr + sz \<and> unat (is_ptr st - ptr) < unat sz + 4"

definition rank :: "u64 \<Rightarrow> u64 \<Rightarrow> ipackstream \<Rightarrow> nat" where
  "rank ptr sz st = (unat sz + 4 - unat (is_ptr st - ptr)) + (if is_good st then 1 else 0)"

definition agree :: "u64 \<Rightarrow> u64 \<Rightarrow> memory \<Rightarrow> memory \<Rightarrow> bool" where
  "agree ptr sz mem mem' \<longleftrightarrow> (\<forall>i < unat sz + 3. mem' (ptr + of_nat i) = mem (ptr + of_nat i))"

lemma init_inside: "inside ptr sz (istream_init ptr sz)"
  by (simp add: inside_def istream_init_def)

lemma get_inside:
  assumes "unat sz + 4 < 2 ^ 64" "inside ptr sz st"
  defines "o' \<equiv> unat (is_ptr st - ptr)"
  shows "istream_get mem 4 st =
    (if o' < unat sz then (Some (read_mem mem (ptr + of_nat o') 4), st\<lparr>is_ptr := ptr + of_nat (o' + 4)\<rparr>)
     else (None, st\<lparr>is_good := False\<rparr>))"
proof -
  have p: "is_ptr st = ptr + of_nat o'" by (simp add: o'_def)
  have o': "o' < unat sz + 4" and e: "is_end st = ptr + of_nat (unat sz)" using assms(2) by (simp_all add: inside_def o'_def)
  let ?d = "of_nat o' - of_nat (unat sz) :: u64"
  have "?d < 4 \<longleftrightarrow> \<not> o' < unat sz"
  proof (cases "o' < unat sz")
    case True
    then have "unat ?d = 2 ^ 64 - (unat sz - o')" using assms(1) by (intro minus_of_nat) simp_all
    then show ?thesis using True assms(1) by (simp add: word_less_nat_alt)
  next
    case False
    then have "unat ?d = o' - unat sz" using o' assms(1) by (intro past_of_nat) simp_all
    then show ?thesis using False o' by (simp add: word_less_nat_alt)
  qed
  moreover have "is_ptr st - is_end st = ?d" unfolding p e by simp
  ultimately have "is_ptr st - is_end st < of_nat 4 \<longleftrightarrow> \<not> o' < unat sz" by simp
  then show ?thesis unfolding istream_get_def by (simp add: p add.assoc)
qed

lemma read_mem_agree:
  assumes "agree ptr sz mem mem'" "a + n \<le> unat sz + 3"
  shows "read_mem mem' (ptr + of_nat a) n = read_mem mem (ptr + of_nat a) n"
proof -
  have "mem' (ptr + of_nat a + of_nat i) = mem (ptr + of_nat a + of_nat i)" if "i < n" for i
  proof -
    have "a + i < unat sz + 3" using assms(2) that by simp
    with assms(1) have "mem' (ptr + of_nat (a + i)) = mem (ptr + of_nat (a + i))" unfolding agree_def by blast
    then show ?thesis by (simp add: add.assoc)
  qed
  then show ?thesis by (simp add: read_mem_def)
qed

lemma get_agree:
  assumes "unat sz + 4 < 2 ^ 64" "agree ptr sz mem mem'" "inside ptr sz st"
  shows "istream_get mem' 4 st = istream_get mem 4 st" "inside ptr sz (snd (istream_get mem 4 st))"
    "is_good st \<Longrightarrow> rank ptr sz (snd (istream_get mem 4 st)) < rank ptr sz st"
proof -
  let ?o = "unat (is_ptr st - ptr)"
  have "read_mem mem' (ptr + of_nat ?o) 4 = read_mem mem (ptr + of_nat ?o) 4" if "?o < unat sz"
    using that by (intro read_mem_agree [OF assms(2)]) simp
  then show "istream_get mem' 4 st = istream_get mem 4 st" by (simp add: get_inside [OF assms(1,3)])
  have "unat (of_nat (?o + 4) :: u64) = ?o + 4" if "?o < unat sz"
    using that assms(1) by (intro unat_of_nat_64) simp
  then show "inside ptr sz (snd (istream_get mem 4 st))" "is_good st \<Longrightarrow> rank ptr sz (snd (istream_get mem 4 st)) < rank ptr sz st"
    using assms(3) by (auto simp: get_inside [OF assms(1,3)] inside_def rank_def simp del: of_nat_add of_nat_unat)
qed

lemma get_node_agree:
  assumes "unat sz + 4 < 2 ^ 64" "agree ptr sz mem mem'" "inside ptr sz st"
  shows "istream_get_node mem' st = istream_get_node mem st" "inside ptr sz (snd (istream_get_node mem st))"
    "is_good st \<Longrightarrow> rank ptr sz (snd (istream_get_node mem st)) < rank ptr sz st"
  using get_agree [OF assms] by (simp_all add: istream_get_node_def case_prod_beta)

text \<open>Every address brings the stream nearer to its end.\<close>

lemma ring_loop_agree:
  assumes "unat sz + 4 < 2 ^ 64" "agree ptr sz mem mem'" "inside ptr sz st"
  shows "\<exists>k net'. ring_loop mem st net = Some (reads mem 4 k st, net') \<and> ring_loop mem' st net = Some (reads mem 4 k st, net')"
  using assms(3)
proof (induction "rank ptr sz st" arbitrary: st net rule: less_induct)
  case less
  note get = get_node_agree [OF assms(1,2) less.prems]
  show ?case
  proof (cases "istream_bool st")
    case True
    then have "rank ptr sz (reads mem 4 1 st) < rank ptr sz st" "inside ptr sz (reads mem 4 1 st)"
      using get unfolding get_node_reads by (simp_all add: istream_bool_def)
    from less.hyps [OF this, of "addToRingBuffer (case fst (istream_get_node mem st) of None \<Rightarrow> 0 | Some a \<Rightarrow> a) net"]
    obtain k net' where k: "ring_loop mem st net = Some (reads mem 4 (k + 1) st, net')" "ring_loop mem' st net = Some (reads mem 4 (k + 1) st, net')"
      using True get(1) unfolding ring_loop_step [of mem st] ring_loop_step [of mem' st] reads_add
      by (metis get_node_reads)
    then show ?thesis by blast
  next
    case False
    moreover have "reads mem 4 0 st = st" by (simp add: reads_def)
    ultimately show ?thesis
      by (metis ring_loop_step)
  qed
qed

lemma read_confidants_agree:
  assumes "unat sz + 4 < 2 ^ 64" "agree ptr sz mem mem'" "inside ptr sz st"
  shows "\<exists>b cs' st'. read_confidants mem tail cs st = Some (b, cs', st') \<and> read_confidants mem' tail cs st = Some (b, cs', st') \<and>
    inside ptr sz st'"
  using assms(3)
proof (induction "rank ptr sz st" arbitrary: st cs rule: less_induct)
  case less
  note get = get_node_agree [OF assms(1,2) less.prems]
  obtain c st1 where c: "istream_get_node mem st = (c, st1)" "istream_get_node mem' st = (c, st1)" using get(1) by fastforce
  show ?case
  proof (cases "istream_bool st")
    case True
    then have "rank ptr sz st1 < rank ptr sz st" "inside ptr sz st1"
      using get(2,3) c(1) by (simp_all add: istream_bool_def)
    note IH = less.hyps [OF this, of "cs @ [case c of None \<Rightarrow> 0 | Some a \<Rightarrow> a]"]
    show ?thesis
      using True IH \<open>inside ptr sz st1\<close> unfolding read_confidants.simps [of mem tail cs st] read_confidants.simps [of mem' tail cs st]
      by (simp add: c)
  next
    case False
    then show ?thesis
      using less.prems unfolding read_confidants.simps [of mem tail cs st] read_confidants.simps [of mem' tail cs st] by auto
  qed
qed

lemma readRoundData_agree:
  assumes "unat sz + 4 < 2 ^ 64" "agree ptr sz mem mem'" "inside ptr sz (nd_istream n)"
  shows "\<exists>ok n'. readRoundData mem tail uninit n = Some (ok, n') \<and> readRoundData mem' tail uninit n = Some (ok, n') \<and>
    inside ptr sz (nd_istream n')"
proof -
  note get = get_agree [OF assms]
  obtain r st1 where r: "istream_get mem 4 (nd_istream n) = (r, st1)" "istream_get mem' 4 (nd_istream n) = (r, st1)" "inside ptr sz st1"
    using get(1,2) by (metis prod.collapse)
  note node = get_node_agree [OF assms(1,2) r(3)]
  obtain m st2 where m: "istream_get_node mem st1 = (m, st2)" "istream_get_node mem' st1 = (m, st2)" "inside ptr sz st2"
    using node(1,2) by (metis prod.collapse)
  obtain t cs st3 where c: "read_confidants mem tail [] st2 = Some (t, cs, st3)" "read_confidants mem' tail [] st2 = Some (t, cs, st3)"
    "inside ptr sz st3" using read_confidants_agree [OF assms(1,2) m(3)] by blast
  show ?thesis
    using r(3) c(3) by (auto simp: readRoundData_def r m c Let_def)
qed

lemma transaction_loop_agree:
  assumes "agree ptr sz mem mem'"
  shows "\<exists>y. transaction_loop mem (istream_init ptr sz) [] = Some y \<and> transaction_loop mem' (istream_init ptr sz) [] = Some y"
proof -
  have "istream_get_transaction mem' (istream_init ptr sz) = istream_get_transaction mem (istream_init ptr sz)"
    using read_mem_agree [OF assms, of 0 "unat sz"] by (simp add: istream_get_transaction_def istream_init_def)
  then show ?thesis
    by (subst (1 2) transaction_loop.simps, subst (1 2) transaction_loop.simps)
      (auto simp: istream_bool_def istream_at_end_def istream_get_transaction_def split: prod.split)
qed


text \<open>C30: the handlers of a round table, of the initial ring and of transactions return for every message that lies in
  the address space, whatever its bytes are: the loops over confidants, over the addresses of the ring and over
  transactions end, and they read nothing but the message and at most three bytes behind it, as the result is the
  same for every memory that agrees on these bytes.\<close>

theorem node_handlers_return:
  assumes "unat ptr + unat sz + 4 < 2 ^ 64" "\<forall>i < unat sz + 3. mem' (ptr + of_nat i) = mem (ptr + of_nat i)"
  shows "(\<exists>y. getRoundTable mem ptr sz uninit n = Some y \<and> getRoundTable mem' ptr sz uninit n = Some y) \<and>
    (\<exists>y. getInitRing mem ptr sz uninit n = Some y \<and> getInitRing mem' ptr sz uninit n = Some y) \<and>
    (\<exists>y. getTransaction mem ptr sz n = Some y \<and> getTransaction mem' ptr sz n = Some y)"
proof (intro conjI)
  let ?n = "n\<lparr>nd_istream := istream_init ptr sz\<rparr>"
  have a: "unat sz + 4 < 2 ^ 64" "agree ptr sz mem mem'" "inside ptr sz (nd_istream ?n)"
    using assms init_inside by (simp_all add: agree_def)
  note data = readRoundData_agree [OF a]
  show "\<exists>y. getRoundTable mem ptr sz uninit n = Some y \<and> getRoundTable mem' ptr sz uninit n = Some y"
    using data [of False uninit] by (auto simp: getRoundTable_def)
  obtain ok n1 where n1: "readRoundData mem True uninit ?n = Some (ok, n1)" "readRoundData mem' True uninit ?n = Some (ok, n1)"
    "inside ptr sz (nd_istream n1)" using data by blast
  from ring_loop_agree [OF a(1,2) n1(3), of "nd_net n1"]
  show "\<exists>y. getInitRing mem ptr sz uninit n = Some y \<and> getInitRing mem' ptr sz uninit n = Some y"
    by (auto simp: getInitRing_def n1 Let_def)
  show "\<exists>y. getTransaction mem ptr sz n = Some y \<and> getTransaction mem' ptr sz n = Some y"
    using transaction_loop_agree [OF a(2)] by (auto simp: getTransaction_def)
qed

definition sample_node :: node where
  "sample_node = node_new 7 (replicate 32 0) sample_session True True Normal 0 0 0"

text \<open>A message of seven bytes, with whatever is behind its third byte after the end.\<close>

theorem node_handlers_return_witness:
  "\<exists>y. getInitRing (\<lambda>a. 1) 0x1000 7 0 sample_node = Some y \<and>
    getInitRing (\<lambda>a. if a < 0x1000 \<or> 0x100A \<le> a then 2 else 1) 0x1000 7 0 sample_node = Some y"
proof -
  let ?m = "\<lambda>a :: u64. if a < 0x1000 \<or> 0x100A \<le> a then 2 else 1 :: u8"
  have "?m (0x1000 + of_nat i) = 1" if "i < 10" for i
  proof -
    have "unat (0x1000 + of_nat i :: u64) = 0x1000 + i" using that unat_of_nat_64 [of "0x1000 + i"] by simp
    then show ?thesis using that by (simp add: word_less_nat_alt word_le_nat_alt)
  qed
  then show ?thesis
    using node_handlers_return [of "0x1000" 7 ?m "\<lambda>a. 1" 0 sample_node] by simp
qed

subsection \<open>Levels and rounds\<close>

abbreviation round_of :: "node \<Rightarrow> u32 \<times> u32 \<times> u32 list" where
  "round_of n \<equiv> (nd_roundNum n, nd_mainNode n, nd_confidantNodes n)"

definition level_in :: "u32 \<Rightarrow> u32 \<Rightarrow> u32 list \<Rightarrow> NodeLevel" where
  "level_in i mainNode confidants = (if mainNode = i then Main else if i \<in> set confidants then Confidant else Normal)"




text \<open>What a step may do to the round and the level.\<close>

definition same_place :: "node \<Rightarrow> node \<Rightarrow> bool" where
  "same_place n n' \<longleftrightarrow> nd_myId n' = nd_myId n \<and> round_of n' = round_of n \<and> nd_myLevel n' \<in> {nd_myLevel n, Normal, Writer}"




lemma send_place [simp]:
  "same_place n (send_direct now addr cmd target os n)" "same_place n (snd (sendByConfidants clock addr cmd scmd os n))"
  by (simp_all add: same_place_def send_direct_def sendByConfidants_def Let_def split: prod.split)

lemma same_place_frame [simp]: "same_place n n"
  "same_place n (n'\<lparr>nd_istream := st\<rparr>) = same_place n n'" "same_place n (n'\<lparr>nd_vectorTasks := ts\<rparr>) = same_place n n'"
  "same_place n (n'\<lparr>nd_net := net\<rparr>) = same_place n n'" "same_place n (n'\<lparr>nd_ostream := os\<rparr>) = same_place n n'"
  by (simp_all add: same_place_def)


lemma send_broadcast_place [simp]: "same_place n (send_broadcast now addr sub os n') = same_place n n'"
  by (simp add: same_place_def send_broadcast_def Let_def split: prod.split)


lemma start_round_place:
  "nd_myId (snd (start_round n)) = nd_myId n" "round_of (snd (start_round n)) = round_of n"
  "nd_myLevel (snd (start_round n)) = level_in (nd_myId n) (nd_mainNode n) (nd_confidantNodes n)"
  "fst (start_round n) = [nextRound]"
  by (simp_all add: start_round_def onRoundStart_def level_in_def Let_def)








subsection \<open>Reading a round\<close>

text \<open>A message read in addresses: the state after \<open>k\<close> of them and what the next one is.\<close>

lemma reads_4:
  "unat sz + 4 < 2 ^ 64 \<Longrightarrow> reads mem 4 k (istream_init ptr sz) =
    \<lparr>is_ptr = ptr + of_nat (4 * min k ((unat sz + 3) div 4)), is_end = ptr + sz, is_good = (k \<le> (unat sz + 3) div 4)\<rparr>"
  using reads_spec [of 4 sz mem k ptr] by (simp add: add.commute)

lemma reads_good: "unat sz + 4 < 2 ^ 64 \<Longrightarrow> is_good (reads mem 4 k (istream_init ptr sz)) \<longleftrightarrow> k \<le> (unat sz + 3) div 4"
  by (simp only: reads_4 ipackstream.select_convs)

lemma quarter: "4 * min k ((s + 3) div 4) = s \<longleftrightarrow> 4 dvd s \<and> s \<le> 4 * (k :: nat)"
proof (cases "k \<le> (s + 3) div 4")
  case True
  then show ?thesis by (simp add: min_def) presburger
next
  case False
  then show ?thesis by (simp add: min_def) presburger
qed

lemma reads_at_end:
  assumes "unat sz + 4 < 2 ^ 64"
  shows "istream_at_end (reads mem 4 k (istream_init ptr sz)) \<longleftrightarrow> 4 dvd unat sz \<and> unat sz \<le> 4 * k"
proof -
  let ?j = "4 * min k ((unat sz + 3) div 4)"
  have "?j < 2 ^ 64"
    using assms by linarith
  then have "of_nat ?j = sz \<longleftrightarrow> ?j = unat sz"
    using unat_of_nat_64 [of ?j] unfolding word_unat_eq_iff by (simp only:)
  then show ?thesis
    unfolding reads_4 [OF assms] istream_at_end_def quarter [symmetric] by simp
qed

lemma reads_bool:
  assumes "unat sz + 4 < 2 ^ 64" "4 * k < unat sz"
  shows "istream_bool (reads mem 4 k (istream_init ptr sz))"
  using assms reads_good [OF assms(1), of mem k ptr] by (simp add: istream_bool_def reads_at_end)

lemma next_value:
  assumes "unat sz + 4 < 2 ^ 64" "4 * k < unat sz"
  shows "istream_get mem 4 (reads mem 4 k (istream_init ptr sz)) =
    (Some (read_mem mem (ptr + of_nat (4 * k)) 4), reads mem 4 (Suc k) (istream_init ptr sz))"
proof -
  let ?st = "reads mem 4 k (istream_init ptr sz)"
  have k: "k < (unat sz + 3) div 4"
    using assms(2) by linarith
  have "is_good (reads mem 4 (Suc k) (istream_init ptr sz))"
    using reads_good [OF assms(1)] k by simp
  moreover have step: "reads mem 4 (Suc k) (istream_init ptr sz) = snd (istream_get mem 4 ?st)"
    by (simp add: reads_def)
  moreover have "is_ptr ?st = ptr + of_nat (4 * k)"
    using k unfolding reads_4 [OF assms(1)] by (simp add: min_def)
  ultimately show ?thesis
    by (simp add: istream_get_def split: if_splits)
qed

lemma next_address:
  assumes "unat sz + 4 < 2 ^ 64" "4 * k < unat sz"
  shows "istream_get_node mem (reads mem 4 k (istream_init ptr sz)) =
    (Some (le_word (read_mem mem (ptr + of_nat (4 * k)) 4)), reads mem 4 (Suc k) (istream_init ptr sz))"
  using next_value [OF assms, of mem ptr] reads_good [OF assms(1), of mem "Suc k" ptr] assms(2)
  by (simp add: istream_get_node_def)

definition address_at :: "memory \<Rightarrow> u64 \<Rightarrow> nat \<Rightarrow> u32" where
  "address_at mem ptr k = le_word (read_mem mem (ptr + of_nat (4 * k)) 4)"

lemma read_confidants_step:
  assumes "unat sz + 4 < 2 ^ 64" "4 * k < unat sz"
  shows "read_confidants mem tail cs (reads mem 4 k (istream_init ptr sz)) =
    (if length cs = 2 \<and> \<not> istream_at_end (reads mem 4 (Suc k) (istream_init ptr sz))
     then Some (\<not> tail, cs @ [address_at mem ptr k], reads mem 4 (Suc k) (istream_init ptr sz))
     else read_confidants mem tail (cs @ [address_at mem ptr k]) (reads mem 4 (Suc k) (istream_init ptr sz)))"
  by (subst read_confidants.simps) (simp add: reads_bool [OF assms] next_address [OF assms] address_at_def)

lemma read_confidants_three:
  fixes mem :: memory and ptr :: u64
  assumes "unat sz + 4 < 2 ^ 64" "4 * (k + 2) < unat sz"
  defines "st \<equiv> reads mem 4 (k + 3) (istream_init ptr sz)"
  shows "read_confidants mem tail [] (reads mem 4 k (istream_init ptr sz)) =
    Some (\<not> tail \<and> \<not> istream_at_end st, [address_at mem ptr k, address_at mem ptr (k + 1), address_at mem ptr (k + 2)], st)"
proof -
  have "read_confidants mem tail cs st = Some (False, cs, st)" if "istream_at_end st" for cs
    using that by (subst read_confidants.simps) (simp add: istream_bool_def)
  moreover have "4 * k < unat sz" "4 * Suc k < unat sz" "4 * Suc (Suc k) < unat sz"
    using assms(2) by simp_all
  ultimately show ?thesis
    using read_confidants_step [OF assms(1), where mem = mem and tail = tail and ptr = ptr]
    by (simp add: st_def eval_nat_numeral)
qed

lemma readRoundData_spec:
  assumes "unat sz + 4 < 2 ^ 64" "16 < unat sz" "nd_istream n = istream_init ptr sz" "nd_roundNum n < address_at mem ptr 0"
  defines "cs \<equiv> [address_at mem ptr 2, address_at mem ptr 3, address_at mem ptr 4]"
    and "st \<equiv> reads mem 4 5 (istream_init ptr sz)"
  shows "readRoundData mem tail uninit n =
    (if tail \<or> istream_at_end st
     then Some (True, n\<lparr>nd_istream := st, nd_roundNum := address_at mem ptr 0, nd_mainNode := address_at mem ptr 1,
       nd_confidantNodes := cs, nd_net := fold addToRingBuffer (address_at mem ptr 1 # cs) (nd_net n)\<rparr>)
     else Some (False, n\<lparr>nd_istream := st\<rparr>))"
proof -
  let ?r = "\<lambda>k. reads mem 4 k (istream_init ptr sz)"
  have "istream_get mem 4 (nd_istream n) = (Some (read_mem mem ptr 4), ?r 1)"
    using next_value [OF assms(1), of 0 mem ptr] assms(2,3) by (simp add: reads_def)
  moreover have "istream_get_node mem (?r 1) = (Some (address_at mem ptr 1), ?r 2)"
    using next_address [OF assms(1), of 1 mem ptr] assms(2) by (simp add: address_at_def numeral_2_eq_2)
  moreover have "read_confidants mem tail [] (?r 2) = Some (\<not> tail \<and> \<not> istream_at_end st, cs, st)"
    using read_confidants_three [OF assms(1), of 2 mem tail ptr] assms(2) by (simp add: cs_def st_def)
  moreover have "le_word (read_mem mem ptr 4) = address_at mem ptr 0"
    by (simp add: address_at_def)
  moreover have "is_good st"
    using reads_good [OF assms(1), of mem 5 ptr] assms(2) by (simp add: st_def)
  moreover have "\<not> address_at mem ptr 0 \<le> nd_roundNum n"
    using assms(4) by simp
  ultimately show ?thesis
    by (cases tail; cases "istream_at_end st") (simp_all add: readRoundData_def cs_def Let_def)
qed

text \<open>C31: a newer round followed by a ring whose size is not a multiple of four is taken over without being started: the
  handler of the ring stores the round number, the main node and the confidants, and then refuses the message, so
  that the level of the node stays the one of its old round and the solver is not told.\<close>

theorem getInitRing_half:
  assumes "unat sz + 4 < 2 ^ 64" "16 < unat sz" "\<not> 4 dvd unat sz" "nd_roundNum n < address_at mem ptr 0"
  shows "\<exists>n'. getInitRing mem ptr sz uninit n = Some ([], n') \<and> nd_myLevel n' = nd_myLevel n \<and>
    round_of n' = (address_at mem ptr 0, address_at mem ptr 1,
      [address_at mem ptr 2, address_at mem ptr 3, address_at mem ptr 4])"
proof -
  let ?n = "n\<lparr>nd_istream := istream_init ptr sz\<rparr>"
  obtain n1 where n1: "readRoundData mem True uninit ?n = Some (True, n1)" "nd_istream n1 = reads mem 4 5 (istream_init ptr sz)"
    "nd_myLevel n1 = nd_myLevel n" "round_of n1 = (address_at mem ptr 0, address_at mem ptr 1,
      [address_at mem ptr 2, address_at mem ptr 3, address_at mem ptr 4])"
    using readRoundData_spec [OF assms(1,2), of ?n ptr mem True uninit] assms(4) by simp
  have a: "agree ptr sz mem mem" by (simp add: agree_def)
  have "inside ptr sz (nd_istream n1)"
    using readRoundData_agree [OF assms(1) a, of ?n True uninit] init_inside n1(1) by auto
  from ring_loop_agree [OF assms(1) a this, of "nd_net n1"]
  obtain k net where "ring_loop mem (nd_istream n1) (nd_net n1) = Some (reads mem 4 (k + 5) (istream_init ptr sz), net)"
    unfolding n1(2) reads_add by blast
  moreover have "\<not> istream_at_end (reads mem 4 (k + 5) (istream_init ptr sz))"
    using reads_at_end [OF assms(1)] assms(3) by simp
  ultimately show ?thesis
    using n1 by (simp add: getInitRing_def)
qed

theorem getInitRing_half_witness:
  "\<exists>n'. getInitRing (\<lambda>a. if a = 0 then 9 else 1) 0 22 0 sample_node = Some ([], n') \<and> nd_myLevel n' = Normal \<and>
    nd_roundNum n' = address_at (\<lambda>a. if a = 0 then 9 else 1) 0 0"
proof -
  have "nd_roundNum sample_node < address_at (\<lambda>a. if a = 0 then 9 else 1) 0 0"
    by (simp add: sample_node_def node_new_def address_at_def read_mem_def upt_conv_Cons)
  then show ?thesis
    using getInitRing_half [of 22 sample_node "\<lambda>a. if a = 0 then 9 else 1" 0 0]
    by (auto simp: sample_node_def node_new_def)
qed

subsection \<open>The round table on its way\<close>

text \<open>The message \<open>sendRoundTable\<close> writes.\<close>

definition round_bytes :: "node \<Rightarrow> byte_array" where
  "round_bytes n = concat (map put_int (nd_roundNum n # nd_mainNode n # nd_confidantNodes n))"

lemma length_round_bytes: "length (nd_confidantNodes n) = 3 \<Longrightarrow> length (round_bytes n) = 20"
  by (simp add: round_bytes_def length_concat o_def sum_list_triv)

lemma put_nodes_content:
  assumes "\<And>i. packet_ok (fresh i)" "ostream_inv os"
  shows "ostream_inv (fold (ostream_put_node fresh) cs os) \<and>
    content (fold (ostream_put_node fresh) cs os) = content os @ concat (map put_int cs)"
  using assms(2)
proof (induction cs arbitrary: os)
  case (Cons c cs)
  have "ostream_inv (ostream_put_node fresh c os) \<and> content (ostream_put_node fresh c os) = content os @ put_int c"
    unfolding ostream_put_node_def using assms(1) Cons.prems by (intro put_content) simp_all
  then show ?case
    using Cons.IH by simp
qed simp

lemma round_bytes_at:
  assumes "read_mem mem ptr 20 = round_bytes n" "nd_confidantNodes n = [c2, c3, c4]"
  shows "address_at mem ptr 0 = nd_roundNum n" "address_at mem ptr 1 = nd_mainNode n" "address_at mem ptr 2 = c2"
    "address_at mem ptr 3 = c3" "address_at mem ptr 4 = c4"
proof -
  have at: "read_mem mem (ptr + of_nat (4 * k)) 4 = take 4 (drop (4 * k) (read_mem mem ptr 20))" if "k < 5" for k
    using that by (intro nth_equalityI) (simp_all add: read_mem_def algebra_simps)
  have "length (put_int (w :: u32)) = 4" for w
    by (simp add: put_int_def)
  moreover have "le_word (put_int (w :: u32)) = w" for w
    by (simp add: put_int_def le_word_le_bytes)
  ultimately show "address_at mem ptr 0 = nd_roundNum n" "address_at mem ptr 1 = nd_mainNode n" "address_at mem ptr 2 = c2"
    "address_at mem ptr 3 = c3" "address_at mem ptr 4 = c4"
    unfolding address_at_def using at [of 0] at [of 1] at [of 2] at [of 3] at [of 4]
    by (simp_all add: assms round_bytes_def)
qed

text \<open>A message of one packet.\<close>

lemma single_packet:
  assumes "ostream_inv os" "length (content os) < max_length"
  shows "os_parts os = [hd (os_parts os)]" "packet_ok (hd (os_parts os))"
    "take (length (content os)) (pk_data (hd (os_parts os))) = content os" "lastSize os = length (content os)"
proof -
  have len: "length (content os) = (length (os_parts os) - 1) * max_length + lastSize os"
    by (rule content_length [OF assms(1)])
  have ne: "os_parts os \<noteq> []"
    using assms(1) by (simp add: ostream_inv_def)
  have one: "length (os_parts os) = 1"
  proof (rule ccontr)
    assume "length (os_parts os) \<noteq> 1"
    with ne have "1 \<le> length (os_parts os) - 1" by (cases "os_parts os") (auto simp: Suc_le_eq)
    then have "1 * max_length \<le> (length (os_parts os) - 1) * max_length" by (rule mult_le_mono1)
    with len assms(2) show False by linarith
  qed
  then show "os_parts os = [hd (os_parts os)]"
    by (cases "os_parts os") auto
  then obtain p where p: "os_parts os = [p]" by blast
  show "packet_ok (hd (os_parts os))"
    using assms(1) p by (simp add: ostream_inv_def)
  show last: "lastSize os = length (content os)"
    using len one by simp
  show "take (length (content os)) (pk_data (hd (os_parts os))) = content os"
    using p last by (simp add: content_def lastSize_def)
qed

lemma broadcast_single:
  fixes now :: time_point and sub :: SubCommandList and l :: nat
  assumes "identity_ok s" "packet_ok (ss_mem s a)"
  defines "p \<equiv> ss_mem (snd (addTaskBroadcast now [a] sub l s)) a"
  shows "packet_ok p" "is_command p Redirect" "is_subcommand p sub" "pk_countHeader p = 0" "pk_data p = pk_data (ss_mem s a)"
proof -
  have "length (fst (nextHash 32 (take l (pk_data (ss_mem s a))) (pk_HashBlock (ss_mem s a)) (ss_hasher s))) = hash_length"
    using nextHash_length [OF assms(1)] assms(2) by (simp add: packet_ok_def)
  then show "packet_ok p" "is_command p Redirect" "is_subcommand p sub" "pk_countHeader p = 0" "pk_data p = pk_data (ss_mem s a)"
    using assms(1,2)
    by (simp_all add: p_def broadcast_mem createSendTasks_def outFrmPack_def Let_def packet_ok_def identity_ok_def case_prod_beta)
qed

lemma sendRoundTable_packet:
  fixes now :: time_point
  assumes "identity_ok (nd_net n)" "\<forall>i. packet_ok (ss_mem (nd_net n) (addr i))" "length (nd_confidantNodes n) = 3"
  defines "p \<equiv> ss_mem (nd_net (sendRoundTable now addr n)) (addr 0)"
  shows "packet_ok p" "is_command p Redirect" "is_subcommand p SGetIpTable" "pk_countHeader p = 0"
    "take 20 (pk_data p) = round_bytes n"
proof -
  let ?f = "fresh_packets addr n"
  define os where "os = fold (ostream_put_node ?f) (nd_confidantNodes n)
    (ostream_put_node ?f (nd_mainNode n) (ostream_put ?f (put_int (nd_roundNum n)) (ostream_init ?f (nd_ostream n))))"
  have f: "packet_ok (?f i)" for i
    using assms(2) by (simp add: fresh_packets_def)
  let ?os1 = "ostream_put ?f (put_int (nd_roundNum n)) (ostream_init ?f (nd_ostream n))"
  have "ostream_inv ?os1 \<and> content ?os1 = put_int (nd_roundNum n)"
    using put_content [OF f init_content(1) [OF f], of "put_int (nd_roundNum n)"] init_content(2) [OF f] by simp
  with put_nodes_content [OF f, where os = ?os1 and cs = "nd_mainNode n # nd_confidantNodes n"]
  have os: "ostream_inv os" "content os = round_bytes n"
    by (simp_all add: os_def round_bytes_def)
  have len: "length (round_bytes n) = 20"
    by (rule length_round_bytes [OF assms(3)])
  have "length (content os) < max_length"
    by (simp add: os len)
  note one = single_packet [OF os(1) this]
  from one(1) obtain p0 where p0: "os_parts os = [p0]" by blast
  let ?s = "publish addr os (removeAllTasks (nd_net n))"
  have mem: "ss_mem ?s (addr 0) = hd (os_parts os)" "identity_ok ?s" "part_addrs addr os = [addr 0]"
    using assms(1) by (simp_all add: p0 publish_def part_addrs_def removeAllTasks_def identity_ok_def)
  have p: "p = ss_mem (snd (addTaskBroadcast now [addr 0] SGetIpTable (lastSize os) ?s)) (addr 0)"
    by (simp add: p_def sendRoundTable_def send_broadcast_def Let_def os_def [symmetric] mem(3) split: prod.split)
  have ok: "packet_ok (ss_mem ?s (addr 0))"
    using one(2) mem(1) by simp
  show "packet_ok p" "is_command p Redirect" "is_subcommand p SGetIpTable" "pk_countHeader p = 0"
    "take 20 (pk_data p) = round_bytes n"
    using broadcast_single [OF mem(2) ok] one(3) len by (simp_all add: p mem(1) os(2))
qed

lemma getRoundTable_new:
  assumes "read_mem mem ptr 20 = round_bytes a" "nd_confidantNodes a = [c2, c3, c4]" "nd_roundNum n < nd_roundNum a"
  shows "\<exists>n'. getRoundTable mem ptr 20 uninit n = Some ([nextRound], n') \<and> round_of n' = round_of a \<and>
    nd_myLevel n' = level_in (nd_myId n) (nd_mainNode a) (nd_confidantNodes a)"
proof -
  let ?n = "n\<lparr>nd_istream := istream_init ptr 20\<rparr>"
  note at = round_bytes_at [OF assms(1,2)]
  have "istream_at_end (reads mem 4 5 (istream_init ptr 20))" "is_good (reads mem 4 5 (istream_init ptr 20))"
    by (subst reads_at_end reads_good, simp_all)+
  with readRoundData_spec [of 20 ?n ptr mem False uninit] assms(3)
  obtain n1 where n1: "readRoundData mem False uninit ?n = Some (True, n1)" "is_good (nd_istream n1)" "nd_myId n1 = nd_myId n"
    "round_of n1 = round_of a"
    using assms(2) at by simp
  then show ?thesis
    using start_round_place [of n1] by (intro exI [of _ "snd (start_round n1)"]) (auto simp: getRoundTable_def prod_eq_iff)
qed

lemma receive_one_redirect:
  assumes "pk_countHeader q = 0" "is_command q Redirect" "is_subcommand q SGetIpTable" "l \<le> max_length"
    "cm_map (ss_backData s) (back_key q) = None"
  shows "\<exists>s'. InputServiceHandleReceive False a q (headerLength + l) s = Some ([CallRoundTable (pk_data q) (of_nat l)], s')"
proof -
  have "ss_backData (addToRingBuffer a s) = ss_backData s"
    by (simp add: addToRingBuffer_def split: prod.split)
  then show ?thesis
    using assms by (simp add: InputServiceHandleReceive_def dispatch_def RunRedirect_def getBackDataCounter_def pushAndIncrease_def
        Let_def redirect_call_def)
qed

end
