(* ===== verification/Stats.thy ===== *)
theory Stats
  imports Blockchain "HOL-Library.Signed_Division"
begin

text \<open>
  The statistics of the chain (\<open>api/src/csstats.cpp\<close>): pools, transactions, contracts and amounts per
  currency in the pools that are younger than a period.  The hash table of the amounts is a map.  The clock
  and the flag \<open>quit\<close>, which another thread sets, are arguments: \<open>clock i\<close> and \<open>quit i\<close> are what turn \<open>i\<close> of the
  loop reads.  The time is counted in ticks, of which a second has \<open>tick\<close>, in 64 bits.
  The assertion that the periods are sorted is left out; the program passes only \<open>stats_periods\<close>.
\<close>

subsection \<open>Collecting\<close>

record total_amount =
  ta_integral :: u64
  ta_fraction :: u64

record period_stats =
  ps_periodSec :: u32
  ps_poolsCount :: u32
  ps_transactionsCount :: u32
  ps_balancePerCurrency :: "string \<rightharpoonup> total_amount"
  ps_smartContractsCount :: u32

definition period_stats_new :: "u32 \<Rightarrow> period_stats" where
  "period_stats_new period =
     \<lparr>ps_periodSec = period, ps_poolsCount = 0, ps_transactionsCount = 0, ps_balancePerCurrency = Map.empty,
      ps_smartContractsCount = 0\<rparr>"

text \<open>\<open>atoll\<close>: white space, a sign and digits; no number is \<open>0\<close>, and a number out of range is the nearest bound.\<close>

definition atoll :: "string \<Rightarrow> int" where
  "atoll s =
     (let t = dropWhile isspace s;
          (neg, t) = (if t \<noteq> [] \<and> hd t = CHR ''-'' then (True, tl t)
                      else if t \<noteq> [] \<and> hd t = CHR ''+'' then (False, tl t) else (False, t));
          n = int (fst (read_digits 0 t))
      in if neg then max (- (2 ^ 63)) (- n) else min (2 ^ 63 - 1) n)"

definition pool_time :: "pool \<Rightarrow> int" where
  "pool_time p = atoll (user_field_string (pool_user_field p 0)) sdiv 1000"

definition pool_age :: "int \<Rightarrow> int \<Rightarrow> pool \<Rightarrow> u32" where
  "pool_age tick now p = word_of_int (sint (word_of_int (now - pool_time p * tick) :: u64) sdiv tick)"

definition stats_transaction :: "transaction \<Rightarrow> period_stats \<Rightarrow> period_stats" where
  "stats_transaction t ps =
     (let ps = (if user_field_is_valid (tr_user_field t 0)
                then ps\<lparr>ps_smartContractsCount := ps_smartContractsCount ps + 1\<rparr> else ps);
          currency = currency_name (tr_currency t);
          a = (case ps_balancePerCurrency ps currency of None \<Rightarrow> \<lparr>ta_integral = 0, ta_fraction = 0\<rparr> | Some a \<Rightarrow> a);
          a = a\<lparr>ta_integral := ta_integral a + scast (integral (tr_amount t))\<rparr>;
          a = a\<lparr>ta_fraction := ta_fraction a + fraction (tr_amount t)\<rparr>
      in ps\<lparr>ps_balancePerCurrency := (ps_balancePerCurrency ps)(currency \<mapsto> a)\<rparr>)"

definition stats_pool :: "pool \<Rightarrow> period_stats \<Rightarrow> period_stats" where
  "stats_pool p ps =
     (let ps = ps\<lparr>ps_poolsCount := ps_poolsCount ps + 1\<rparr>;
          n = transactions_count p;
          ps = ps\<lparr>ps_transactionsCount := ps_transactionsCount ps + ucast n\<rparr>
      in fold (\<lambda>i. stats_transaction (transaction_by_id p \<lparr>id_pool_hash = fst (pool_hash_of p), id_index = of_nat i\<rparr>))
           [0..<unat n] ps)"

definition matchPeriod :: "u32 list \<Rightarrow> u32 \<Rightarrow> (nat \<Rightarrow> 's \<Rightarrow> 's) \<Rightarrow> 's \<Rightarrow> 's" where
  "matchPeriod periods period func stats =
     fold (\<lambda>i stats. if period < periods ! i then func i stats else stats) [0..<length periods] stats"

partial_function (option) collect_loop ::
  "('d, 'i) database_ops \<Rightarrow> nat \<Rightarrow> (nat \<Rightarrow> bool) \<Rightarrow> (nat \<Rightarrow> int) \<Rightarrow> int \<Rightarrow> u32 list \<Rightarrow> nat \<Rightarrow> pool_hash \<Rightarrow> period_stats list \<Rightarrow>
   'd storages \<Rightarrow> (period_stats list \<times> 'd storages) option" where
  "collect_loop ops s quit clock tick periods i blockHash stats w =
     (if \<not> pool_hash_is_empty blockHash \<and> \<not> quit i
      then (let (p, w) = loadBlock ops s blockHash w;
                stats = matchPeriod periods (pool_age tick (clock i) p) (\<lambda>k stats. stats[k := stats_pool p (stats ! k)]) stats
            in collect_loop ops s quit clock tick periods (Suc i) (p_previous_hash p) stats w)
      else Some (stats, w))"

definition collectStats ::
  "('d, 'i) database_ops \<Rightarrow> nat \<Rightarrow> (nat \<Rightarrow> bool) \<Rightarrow> (nat \<Rightarrow> int) \<Rightarrow> int \<Rightarrow> u32 list \<Rightarrow> 'd storages \<Rightarrow>
   (period_stats list \<times> 'd storages) option" where
  "collectStats ops s quit clock tick periods w =
     collect_loop ops s quit clock tick periods 0 (getLastHash s w) (map period_stats_new periods) w"

subsection \<open>The thread\<close>

record csstats =
  cs_quit :: bool
  cs_currentStats :: "period_stats list"
  cs_lastUpdateTime :: int

definition stats_periods :: "u32 list" where
  "stats_periods = (let secondsPerDay = 24 * 60 * 60 in [secondsPerDay, secondsPerDay * 7, secondsPerDay * 30, secondsPerDay * 365 * 100])"

text \<open>When the wait ends, and what a turn then does; \<open>finished\<close> is the time behind it.\<close>

definition stats_wakes :: "int \<Rightarrow> int \<Rightarrow> u16 \<Rightarrow> csstats \<Rightarrow> bool" where
  "stats_wakes tick now updateIntervalSec cs \<longleftrightarrow>
     cs_quit cs \<or> cs_lastUpdateTime cs + int (unat updateIntervalSec) * tick \<le> now"

definition stats_turn ::
  "('d, 'i) database_ops \<Rightarrow> nat \<Rightarrow> (nat \<Rightarrow> bool) \<Rightarrow> (nat \<Rightarrow> int) \<Rightarrow> int \<Rightarrow> int \<Rightarrow> csstats \<Rightarrow> 'd storages \<Rightarrow> (csstats \<times> 'd storages) option" where
  "stats_turn ops s quit clock tick finished cs w =
     (if \<not> cs_quit cs
      then Option.bind (collectStats ops s quit clock tick stats_periods w) (\<lambda>(stats, w).
             Some (cs\<lparr>cs_currentStats := stats, cs_lastUpdateTime := finished\<rparr>, w))
      else Some (cs, w))"

definition stats_stop :: "csstats \<Rightarrow> csstats" where
  "stats_stop cs = cs\<lparr>cs_quit := True\<rparr>"

definition getStats :: "csstats \<Rightarrow> period_stats list" where
  "getStats cs = cs_currentStats cs"

subsection \<open>The reference\<close>

definition in_currency :: "string \<Rightarrow> transaction list \<Rightarrow> transaction list" where
  "in_currency c ts = filter (\<lambda>t. currency_name (tr_currency t) = c) ts"

definition currency_total :: "transaction list \<Rightarrow> string \<Rightarrow> total_amount option" where
  "currency_total ts c =
     (let ts = in_currency c ts
      in if ts = [] then None
         else Some \<lparr>ta_integral = sum_list (map (\<lambda>t. scast (integral (tr_amount t))) ts),
                    ta_fraction = sum_list (map (\<lambda>t. fraction (tr_amount t)) ts)\<rparr>)"

definition period_summary :: "u32 \<Rightarrow> pool list \<Rightarrow> period_stats" where
  "period_summary period ps =
     (let ts = concat (map p_transactions ps)
      in \<lparr>ps_periodSec = period, ps_poolsCount = of_nat (length ps), ps_transactionsCount = of_nat (length ts),
          ps_balancePerCurrency = currency_total ts,
          ps_smartContractsCount = of_nat (length (filter (\<lambda>t. user_field_is_valid (tr_user_field t 0)) ts))\<rparr>)"

text \<open>The pools of the chain from a hash on, and the empty pool that stands for a missing block.\<close>

definition walked :: "pool_hash \<Rightarrow> pool list \<Rightarrow> pool list" where
  "walked h ps =
     (if pool_hash_is_empty (if ps = [] then h else p_previous_hash (last ps)) then ps else ps @ [pool_default])"

definition younger :: "int \<Rightarrow> (nat \<Rightarrow> int) \<Rightarrow> nat \<Rightarrow> u32 \<Rightarrow> pool list \<Rightarrow> pool list" where
  "younger tick clock i period ps =
     map snd (filter (\<lambda>(k, p). pool_age tick (clock k) p < period) (zip [i..<i + length ps] ps))"

lemma currency_total_snoc:
  "currency_total (ts @ [t]) = (currency_total ts)(currency_name (tr_currency t) \<mapsto>
     (let a = (case currency_total ts (currency_name (tr_currency t)) of None \<Rightarrow> \<lparr>ta_integral = 0, ta_fraction = 0\<rparr> | Some a \<Rightarrow> a)
      in \<lparr>ta_integral = ta_integral a + scast (integral (tr_amount t)), ta_fraction = ta_fraction a + fraction (tr_amount t)\<rparr>))"
  by (rule ext) (auto simp: currency_total_def in_currency_def Let_def)

lemma total_amount_eq: "a\<lparr>ta_integral := x, ta_fraction := y\<rparr> = \<lparr>ta_integral = x, ta_fraction = y\<rparr>"
  by (cases a) simp

lemma stats_transaction_step:
  "stats_transaction t ps =
     (let c = currency_name (tr_currency t);
          a = (case ps_balancePerCurrency ps c of None \<Rightarrow> \<lparr>ta_integral = 0, ta_fraction = 0\<rparr> | Some a \<Rightarrow> a)
      in ps\<lparr>ps_smartContractsCount := ps_smartContractsCount ps + (if user_field_is_valid (tr_user_field t 0) then 1 else 0),
            ps_balancePerCurrency := (ps_balancePerCurrency ps)(c \<mapsto>
              \<lparr>ta_integral = ta_integral a + scast (integral (tr_amount t)), ta_fraction = ta_fraction a + fraction (tr_amount t)\<rparr>)\<rparr>)"
  by (cases "user_field_is_valid (tr_user_field t 0)") (simp_all add: stats_transaction_def Let_def total_amount_eq)

lemma stats_transactions:
  assumes "ps_balancePerCurrency ps = currency_total us"
  shows "fold stats_transaction ts ps =
     ps\<lparr>ps_smartContractsCount := ps_smartContractsCount ps + of_nat (length (filter (\<lambda>t. user_field_is_valid (tr_user_field t 0)) ts)),
        ps_balancePerCurrency := currency_total (us @ ts)\<rparr>"
proof (induction ts rule: rev_induct)
  case Nil
  then show ?case using assms by simp
next
  case (snoc t ts)
  let ?n = "\<lambda>ts. of_nat (length (filter (\<lambda>t. user_field_is_valid (tr_user_field t 0)) ts)) :: u32"
  have n: "ps_smartContractsCount ps + ?n (ts @ [t]) =
      ps_smartContractsCount ps + ?n ts + (if user_field_is_valid (tr_user_field t 0) then 1 else 0)"
    by simp
  show ?case
    unfolding n unfolding append_assoc [symmetric] currency_total_snoc fold_append fold.simps comp_def id_def snoc
    unfolding stats_transaction_step by (intro period_stats.equality) (simp_all add: Let_def fun_eq_iff)
qed

text \<open>The pools the storage returns find their transactions by their identifiers.\<close>

lemma transactions_by_id:
  assumes "pool_sealed p" "p_is_valid p" "counted p"
  shows "map (\<lambda>i. transaction_by_id p \<lparr>id_pool_hash = fst (pool_hash_of p), id_index = of_nat i\<rparr>) [0..<unat (transactions_count p)] =
    p_transactions p"
proof (rule nth_equalityI)
  have n: "unat (transactions_count p) = length (p_transactions p)"
    using assms(3) by (simp add: counted_def)
  then show "length (map (\<lambda>i. transaction_by_id p \<lparr>id_pool_hash = fst (pool_hash_of p), id_index = of_nat i\<rparr>)
      [0..<unat (transactions_count p)]) = length (p_transactions p)" by simp
  fix i
  assume "i < length (map (\<lambda>i. transaction_by_id p \<lparr>id_pool_hash = fst (pool_hash_of p), id_index = of_nat i\<rparr>)
      [0..<unat (transactions_count p)])"
  then have i: "i < length (p_transactions p)"
    using n by simp
  have "length (p_transactions p) < 2 ^ 64"
    using n unsigned_less [of "transactions_count p", where 'a = nat] by simp
  from transaction_by_id_sealed [OF assms(1,2) i this] i n show
    "map (\<lambda>i. transaction_by_id p \<lparr>id_pool_hash = fst (pool_hash_of p), id_index = of_nat i\<rparr>) [0..<unat (transactions_count p)] ! i =
      p_transactions p ! i"
    using assms(1) sealed_hash_of [OF assms(1)] by (simp add: pool_sealed_def)
qed

lemma ucast_64_32: "ucast (ucast (x :: u32) :: u64) = x"
  by transfer (simp add: min_def)

lemma stats_pool_summary:
  assumes "pool_sealed p \<and> p_is_valid p \<and> counted p \<or> p = pool_default"
  shows "stats_pool p (period_summary period ps) = period_summary period (ps @ [p])"
proof -
  let ?s = "period_summary period ps"
  let ?s' = "?s\<lparr>ps_poolsCount := ps_poolsCount ?s + 1, ps_transactionsCount := ps_transactionsCount ?s + ucast (transactions_count p)\<rparr>"
  have c: "unat (p_transactionsCount p) = length (p_transactions p)"
    using assms by (auto simp: counted_def pool_default_def)
  have n: "map (\<lambda>i. transaction_by_id p \<lparr>id_pool_hash = fst (pool_hash_of p), id_index = of_nat i\<rparr>) [0..<unat (transactions_count p)] =
      p_transactions p"
    using assms transactions_by_id [of p] by (elim disjE) (simp_all add: pool_default_def)
  have m: "ucast (transactions_count p) = (of_nat (length (p_transactions p)) :: u32)"
    unfolding c [symmetric] transactions_count_def by (simp add: ucast_64_32)
  have "stats_pool p ?s = fold stats_transaction (p_transactions p) ?s'"
    unfolding n [symmetric] fold_map by (simp add: stats_pool_def comp_def Let_def)
  also have "\<dots> = period_summary period (ps @ [p])"
    by (subst stats_transactions [where us = "concat (map p_transactions ps)"]) (simp_all add: period_summary_def m Let_def)
  finally show ?thesis .
qed

lemma matchPeriod_spec:
  assumes "length stats = length periods"
  shows "matchPeriod periods age (\<lambda>k stats. stats[k := f (stats ! k)]) stats =
      map (\<lambda>(per, x). if age < per then f x else x) (zip periods stats)"
proof -
  let ?step = "\<lambda>i stats. if age < periods ! i then stats[i := f (stats ! i)] else stats"
  let ?f = "\<lambda>(per, x). if age < per then f x else x"
  have "fold ?step [0..<m] stats = map ?f (zip (take m periods) (take m stats)) @ drop m stats" if "m \<le> length periods" for m
    using that
  proof (induction m)
    case (Suc m)
    then have m: "m < length stats" "m < length periods"
      using assms by simp_all
    let ?xs = "map ?f (zip (take m periods) (take m stats))"
    have len: "length ?xs = m"
      using m by simp
    have "fold ?step [0..<Suc m] stats = ?step m (?xs @ stats ! m # drop (Suc m) stats)"
      using Suc m by (simp add: Cons_nth_drop_Suc)
    also have "\<dots> = ?xs @ ?f (periods ! m, stats ! m) # drop (Suc m) stats"
      using len by (simp add: nth_append list_update_append)
    also have "\<dots> = map ?f (zip (take (Suc m) periods) (take (Suc m) stats)) @ drop (Suc m) stats"
      using m by (simp add: take_Suc_conv_app_nth)
    finally show ?case .
  qed simp
  from this [of "length periods"] show ?thesis
    using assms by (simp add: matchPeriod_def)
qed

lemma younger_simps [simp]:
  "younger tick clock i per [] = []"
  "younger tick clock i per (p # ps) =
     (if pool_age tick (clock i) p < per then [p] else []) @ younger tick clock (Suc i) per ps"
proof -
  have "[i..<i + length (p # ps)] = i # [Suc i..<Suc i + length ps]"
    by (subst upt_conv_Cons) simp_all
  then show "younger tick clock i per (p # ps) =
      (if pool_age tick (clock i) p < per then [p] else []) @ younger tick clock (Suc i) per ps"
    unfolding younger_def by simp
qed (simp add: younger_def)

lemma walked_Cons: "walked h (p # ps) = p # walked (p_previous_hash p) ps"
  by (simp add: walked_def)

lemma matchPeriod_summary:
  assumes "pool_sealed p \<and> p_is_valid p \<and> counted p \<or> p = pool_default"
  shows "matchPeriod periods age (\<lambda>k stats. stats[k := stats_pool p (stats ! k)]) (map (\<lambda>per. period_summary per (D per)) periods) =
    map (\<lambda>per. period_summary per (D per @ (if age < per then [p] else []))) periods"
proof -
  have "matchPeriod periods age (\<lambda>k stats. stats[k := stats_pool p (stats ! k)]) (map (\<lambda>per. period_summary per (D per)) periods) =
      map (\<lambda>(per, x). if age < per then stats_pool p x else x) (zip periods (map (\<lambda>per. period_summary per (D per)) periods))"
    by (rule matchPeriod_spec) simp
  also have "\<dots> = map (\<lambda>per. period_summary per (D per @ (if age < per then [p] else []))) periods"
    by (induction periods) (simp_all add: stats_pool_summary [OF assms])
  finally show ?thesis .
qed

lemma missing_is_default: "\<not> p_is_valid (view ops st h) \<Longrightarrow> view ops st h = pool_default"
  by (auto simp: pool_load_result pool_from_binary_def get_pool_def bind_eq_Some_conv split: option.splits if_splits)

lemma empty_is_missing: "pool_hash_is_empty h \<Longrightarrow> \<not> p_is_valid (view ops st h)"
  by (simp add: pool_load_result pool_default_def split: option.split)

context database_reader
begin

lemma collect_loop_chain:
  "chain (view ops st0) h ps \<Longrightarrow> w s = Some st \<Longrightarrow> same_view ops st0 st \<Longrightarrow> list_all counted ps \<Longrightarrow> list_all pool_sealed ps \<Longrightarrow>
    \<exists>w' st'. collect_loop ops s (\<lambda>_. False) clock tick periods i h (map (\<lambda>per. period_summary per (D per)) periods) w =
        Some (map (\<lambda>per. period_summary per (D per @ younger tick clock i per (walked h ps))) periods, w') \<and>
      w' s = Some st' \<and> same_view ops st0 st'"
proof (induction "view ops st0" h ps arbitrary: w st i D rule: chain.induct)
  case (chain_end h)
  note step = load_block_step [where w = w and s = s, OF chain_end.prems(1,2), of h]
  have p: "view ops st0 h = pool_default"
    using chain_end.hyps by (rule missing_is_default)
  show ?case
  proof (cases "pool_hash_is_empty h")
    case True
    then show ?thesis
      using chain_end.prems by (subst collect_loop.simps) (simp add: walked_def)
  next
    case False
    have last: "collect_loop ops s (\<lambda>_. False) clock tick periods (Suc i) (PoolHash []) stats w' = Some (stats, w')" for stats w'
      by (subst collect_loop.simps) (simp add: pool_hash_is_empty_def)
    have prev: "p_previous_hash pool_default = PoolHash []"
      by (simp add: pool_default_def)
    from False show ?thesis
      using step(2) by (subst collect_loop.simps)
        (simp add: step(1) p matchPeriod_summary prev last walked_def Let_def)
  qed
next
  case (chain_pool h ps)
  let ?p = "view ops st0 h"
  have "\<not> pool_hash_is_empty h"
    using chain_pool.hyps(1) empty_is_missing by blast
  moreover have ok: "pool_sealed ?p \<and> p_is_valid ?p \<and> counted ?p \<or> ?p = pool_default"
    using chain_pool.hyps(1) chain_pool.prems(3,4) by simp
  moreover note step = load_block_step [where w = w and s = s, OF chain_pool.prems(1,2), of h]
  let ?st = "snd (pool_load ops h st)"
  have "(w(s \<mapsto> ?st)) s = Some ?st"
    by simp
  note IH = chain_pool.hyps(3) [of "w(s \<mapsto> ?st)" ?st "Suc i" "\<lambda>per. D per @ (if pool_age tick (clock i) ?p < per then [?p] else [])",
      OF this step(2)]
  ultimately show ?case
    using IH chain_pool.prems(3,4)
    by (subst collect_loop.simps) (simp add: step(1) matchPeriod_summary [OF ok] walked_Cons Let_def)
qed

end

text \<open>C33: over a chain of finitely many blocks the collection ends, unless it is told to quit before, and gives for
  every period the number of the pools whose age is below it, of their transactions and of those with a contract, and
  the sums of the amounts per currency.  A block that is missing at the end of the chain counts as one more pool.\<close>

theorem collectStats_spec:
  assumes "w s = Some st" "chain (view (berkeley_ops api) st) (s_last_hash st) ps"
    and "\<forall>p \<in> set ps. length (p_transactions p) < 2 ^ 32"
  shows "\<exists>w'. collectStats (berkeley_ops api) s (\<lambda>_. False) clock tick periods w =
    Some (map (\<lambda>period. period_summary period (younger tick clock 0 period (walked (s_last_hash st) ps))) periods, w')"
proof -
  have "currency_total [] = Map.empty"
    by (rule ext) (simp add: currency_total_def in_currency_def)
  then have "period_stats_new = (\<lambda>period. period_summary period [])"
    by (intro ext) (simp add: period_stats_new_def period_summary_def)
  then show ?thesis
    using berkeley.collect_loop_chain [of api st "s_last_hash st" ps w s st clock tick periods 0 "\<lambda>_. []", OF assms(2,1) same_view_refl chain_counted [OF assms(2,3)] chain_sealed [OF assms(2)]] assms(1)
    by (auto simp: collectStats_def getLastHash_def)
qed

theorem collectStats_spec_witness:
  "\<exists>st w'. collectStats (berkeley_ops map_api) 0 (\<lambda>_. False) (\<lambda>_. 100) 1 [86400, 50] [0 \<mapsto> sample_storage] = Some (st, w') \<and>
    map ps_poolsCount st = [1, 0] \<and> map ps_transactionsCount st = [2, 0]"
proof -
  have "p_user_fields sample_sealed = []"
    unfolding sample_sealed_eq by (simp add: pool_body_def sample_pool_def pool_new_def pool_default_def)
  then have "walked (s_last_hash sample_storage) [sample_sealed] = [sample_sealed]" "pool_age 1 100 sample_sealed = 100"
    by (simp_all add: walked_def pool_hash_is_empty_def sample_sealed_fields(2) pool_age_def pool_time_def
        pool_user_field_def user_field_string_def atoll_def)
  then show ?thesis
    using collectStats_spec [of "[0 \<mapsto> sample_storage]" 0 sample_storage map_api, OF _ sample_chain, of "\<lambda>_. 100" 1 "[86400, 50]"]
      sample_sealed_fields(3)
    by (auto simp: period_summary_def Let_def)
qed

end
