(* ===== verification/Api.thy ===== *)
theory Api
  imports Stats Session
begin

text \<open>
  The requests of a wallet that only read the chain (\<open>api/src/APIHandler.cpp\<close>).  The types are those of
  \<open>thrift-interface-definitions/api.thrift\<close>, of which the build generates the classes; their default values
  are those of the generated constructors.  An exception of the standard library is \<open>Raised\<close>.  The chain is
  the storage numbered \<open>s\<close> among those of \<open>w\<close>.  Requests are handled one after the other.
\<close>

subsection \<open>Answers\<close>

datatype 'a api_result = Returned 'a | Raised

datatype APIRequestStatusType = SUCCESS | FAILURE | NOT_IMPLEMENTED

record api_response =
  ar_code :: u8
  ar_message :: string

definition api_response_default :: api_response where
  "api_response_default = \<lparr>ar_code = 0, ar_message = []\<rparr>"

definition SetResponseStatus :: "APIRequestStatusType \<Rightarrow> string \<Rightarrow> api_response" where
  "SetResponseStatus status details =
     (case status of
        SUCCESS \<Rightarrow> \<lparr>ar_code = 0, ar_message = ''Success'' @ details\<rparr>
      | FAILURE \<Rightarrow> \<lparr>ar_code = 1, ar_message = ''Failure'' @ details\<rparr>
      | NOT_IMPLEMENTED \<Rightarrow> \<lparr>ar_code = 2, ar_message = ''Not Implemented'' @ details\<rparr>)"

definition SetResponseStatus_handled :: "bool \<Rightarrow> api_response" where
  "SetResponseStatus_handled commandWasHandled = SetResponseStatus (if commandWasHandled then SUCCESS else NOT_IMPLEMENTED) []"

record api_amount =
  aa_integral :: u32
  aa_fraction :: u64

record smart_contract =
  sc_address :: string
  sc_sourceCode :: string
  sc_byteCode :: string
  sc_contractState :: string
  sc_hashState :: string
  sc_method :: string
  sc_params :: "string list"

definition smart_contract_default :: smart_contract where
  "smart_contract_default =
     \<lparr>sc_address = [], sc_sourceCode = [], sc_byteCode = [], sc_contractState = [], sc_hashState = [], sc_method = [],
      sc_params = []\<rparr>"

record api_transaction =
  at_innerId :: string
  at_source :: string
  at_target :: string
  at_amount :: api_amount
  at_balance :: api_amount
  at_currency :: string
  at_smartContract :: smart_contract

definition api_transaction_default :: api_transaction where
  "api_transaction_default =
     \<lparr>at_innerId = [], at_source = [], at_target = [], at_amount = \<lparr>aa_integral = 0, aa_fraction = 0\<rparr>,
      at_balance = \<lparr>aa_integral = 0, aa_fraction = 0\<rparr>, at_currency = [], at_smartContract = smart_contract_default\<rparr>"

record api_pool =
  ap_hash :: string
  ap_prevHash :: string
  ap_time :: u64
  ap_transactionsCount :: u32
  ap_poolNumber :: u64

definition api_pool_default :: api_pool where
  "api_pool_default = \<lparr>ap_hash = [], ap_prevHash = [], ap_time = 0, ap_transactionsCount = 0, ap_poolNumber = 0\<rparr>"

subsection \<open>Conversions\<close>

text \<open>The assertion that the fraction is not negative is left out; it can only stop a debug build.\<close>

definition convertAmount :: "amount \<Rightarrow> api_amount" where
  "convertAmount a = \<lparr>aa_integral = integral a, aa_fraction = fraction a\<rparr>"

definition convertTransaction :: "transaction \<Rightarrow> api_transaction" where
  "convertTransaction t = api_transaction_default
     \<lparr>at_amount := convertAmount (tr_amount t), at_currency := currency_name (tr_currency t),
      at_innerId := transaction_id_to_string (tr_id t), at_source := address_to_string (tr_source t),
      at_target := address_to_string (tr_target t)\<rparr>"

definition convertTransactions :: "transaction list \<Rightarrow> api_transaction list" where
  "convertTransactions ts = map convertTransaction ts"

definition convertPool :: "pool \<Rightarrow> api_pool" where
  "convertPool p =
     (if p_is_valid p
      then api_pool_default
        \<lparr>ap_hash := pool_hash_to_string (fst (pool_hash_of p)), ap_poolNumber := p_sequence p,
         ap_prevHash := pool_hash_to_string (p_previous_hash p),
         ap_time := word_of_int (atoll (user_field_string (pool_user_field p 0))),
         ap_transactionsCount := ucast (transactions_count p)\<rparr>
      else api_pool_default)"

definition convertPool_hash :: "('d, 'i) database_ops \<Rightarrow> nat \<Rightarrow> pool_hash \<Rightarrow> 'd storages \<Rightarrow> api_pool \<times> 'd storages" where
  "convertPool_hash ops s poolHash w = (let (p, w) = loadBlock ops s poolHash w in (convertPool p, w))"

text \<open>\<open>std::stoi\<close>; it throws if there is no number or if it does not fit.\<close>

definition stoi :: "string \<Rightarrow> int option" where
  "stoi s =
     (let t = dropWhile isspace s;
          (neg, t) = (if t \<noteq> [] \<and> hd t = CHR ''-'' then (True, tl t)
                      else if t \<noteq> [] \<and> hd t = CHR ''+'' then (False, tl t) else (False, t));
          n = (if neg then - int (fst (read_digits 0 t)) else int (fst (read_digits 0 t)))
      in if t = [] \<or> \<not> isdigit (hd t) then None
         else if - (2 ^ 31) \<le> n \<and> n < 2 ^ 31 then Some n else None)"

definition convertStringToID :: "string \<Rightarrow> (string \<times> u64) api_result" where
  "convertStringToID data =
     (let PoolHash = take 64 data
      in if length data > 64 + 1
         then (case stoi (drop (64 + 1) data) of None \<Rightarrow> Raised | Some n \<Rightarrow> Returned (PoolHash, word_of_int n))
         else Returned (PoolHash, 0))"

text \<open>The address of a wallet: the hash of a key in the text the wallet sends, of which 44 bytes are read, or the
  address itself in hexadecimal.  \<open>rest\<close> is the memory behind the text.  The hash overwrites the whole key.\<close>

definition c_str :: "byte_array \<Rightarrow> string \<Rightarrow> byte_array" where
  "c_str rest s = map char_byte s @ [0] @ rest"

definition address_from_key_ptr :: "byte_array \<Rightarrow> address" where
  "address_from_key_ptr key = Address (take public_key_size key)"

definition getAddressFromKey :: "byte_array \<Rightarrow> address" where
  "getAddressFromKey key = address_from_key_ptr (getHashedPublicKey (replicate publicKey_length 0) key)"

definition wallet_address :: "byte_array \<Rightarrow> string \<Rightarrow> address" where
  "wallet_address rest address =
     (if length address \<noteq> 64 then getAddressFromKey (c_str rest address) else address_from_string address)"

subsection \<open>Requests\<close>

definition BalanceGet ::
  "('d, 'i) database_ops \<Rightarrow> nat \<Rightarrow> byte_array \<Rightarrow> string \<Rightarrow> balances_cache \<Rightarrow> 'd storages \<Rightarrow>
   ((api_amount \<times> api_response) \<times> balances_cache \<times> 'd storages) option" where
  "BalanceGet ops s rest address cache w =
     Option.bind (getBalance ops s (wallet_address rest address) cache w) (\<lambda>(result, cache, w).
       Some ((\<lparr>aa_integral = integral result, aa_fraction = fraction result\<rparr>, SetResponseStatus SUCCESS []), cache, w))"

text \<open>The answer holds the transaction if there is one.\<close>

definition TransactionGet ::
  "('d, 'i) database_ops \<Rightarrow> nat \<Rightarrow> string \<Rightarrow> 'd storages \<Rightarrow> (api_transaction option \<times> api_response) api_result \<times> 'd storages" where
  "TransactionGet ops s transactionId w =
     (case convertStringToID transactionId of Raised \<Rightarrow> (Raised, w)
      | Returned (h, index) \<Rightarrow>
          (let (t, w) = loadTransaction ops s \<lparr>id_pool_hash = pool_hash_from_string h, id_index = index\<rparr> w
           in (Returned (if transaction_is_valid t then Some (convertTransaction t) else None, SetResponseStatus SUCCESS []), w)))"

text \<open>The transactions of a pool from the newest on: \<open>offset\<close> and \<open>limit\<close> are signed, the size is compared with
  \<open>limit\<close> as unsigned numbers.\<close>

fun page_pool :: "address \<Rightarrow> u64 \<Rightarrow> pool \<Rightarrow> nat \<Rightarrow> u64 \<Rightarrow> transaction list \<Rightarrow> u64 \<times> transaction list" where
  "page_pool addr limit p curIdx offset ts =
     (let t = transaction_at p (of_nat curIdx);
          (offset, ts) = (if address_eq (tr_target t) addr \<or> address_eq (tr_source t) addr
                          then (if offset = 0 then (offset, ts @ [t]) else (offset - 1, ts)) else (offset, ts))
      in if of_nat (length ts) = limit then (offset, ts)
         else if curIdx = 0 then (offset, ts)
         else page_pool addr limit p (curIdx - 1) offset ts)"

partial_function (option) page_loop ::
  "('d, 'i) database_ops \<Rightarrow> nat \<Rightarrow> address \<Rightarrow> u64 \<Rightarrow> pool \<Rightarrow> u64 \<Rightarrow> transaction list \<Rightarrow> 'd storages \<Rightarrow>
   (transaction list \<times> 'd storages) option" where
  "page_loop ops s addr limit cur offset ts w =
     (if p_is_valid cur
      then (let (offset, ts) = (if transactions_count cur \<noteq> 0
                                then page_pool addr limit cur (unat (transactions_count cur) - 1) offset ts else (offset, ts))
            in if of_nat (length ts) = limit then Some (ts, w)
               else (let (cur, w) = loadBlock ops s (p_previous_hash cur) w in page_loop ops s addr limit cur offset ts w))
      else Some (ts, w))"

definition TransactionsGet ::
  "('d, 'i) database_ops \<Rightarrow> nat \<Rightarrow> byte_array \<Rightarrow> string \<Rightarrow> u64 \<Rightarrow> u64 \<Rightarrow> 'd storages \<Rightarrow>
   ((api_transaction list \<times> api_response) \<times> 'd storages) option" where
  "TransactionsGet ops s rest address offset limit w =
     (let (cur, w) = loadBlock ops s (getLastHash s w) w
      in Option.bind (page_loop ops s (wallet_address rest address) limit cur offset [] w) (\<lambda>(ts, w).
           Some ((convertTransactions ts, SetResponseStatus SUCCESS []), w)))"

text \<open>The 64-bit numbers are signed; the loop runs from \<open>offset\<close> while the index is below \<open>offset + limit\<close>.\<close>

definition extractTransactions :: "pool \<Rightarrow> u64 \<Rightarrow> u64 \<Rightarrow> api_transaction list" where
  "extractTransactions p limit offset =
     (let transactionsCount = transactions_count p
      in if transactionsCount <s offset then []
         else let transactionsCount = transactionsCount - offset;
                  limit = (if transactionsCount <s limit then transactionsCount else limit)
              in map (\<lambda>index. convertTransaction (transaction_at p (word_of_int index)))
                   [sint offset..sint (offset + limit) - 1])"

definition PoolTransactionsGet ::
  "('d, 'i) database_ops \<Rightarrow> nat \<Rightarrow> string \<Rightarrow> u64 \<Rightarrow> u64 \<Rightarrow> 'd storages \<Rightarrow> (api_transaction list \<times> api_response) \<times> 'd storages" where
  "PoolTransactionsGet ops s hash offset limit w =
     (let (p, w) = loadBlock ops s (pool_hash_from_string hash) w
      in ((if p_is_valid p then extractTransactions p limit offset else [], SetResponseStatus SUCCESS []), w))"

definition PoolInfoGet ::
  "('d, 'i) database_ops \<Rightarrow> nat \<Rightarrow> string \<Rightarrow> 'd storages \<Rightarrow> (api_pool option \<times> api_response) \<times> 'd storages" where
  "PoolInfoGet ops s hash w =
     (let poolHash = pool_hash_from_string hash; (p, w) = loadBlock ops s poolHash w
      in if p_is_valid p
         then (let (pool, w) = convertPool_hash ops s poolHash w in ((Some pool, SetResponseStatus SUCCESS []), w))
         else ((None, SetResponseStatus SUCCESS []), w))"

record api_period_stats =
  aps_periodDuration :: u64
  aps_poolsCount :: u32
  aps_transactionsCount :: u32
  aps_balancePerCurrency :: "string \<rightharpoonup> total_amount"
  aps_smartContractsCount :: u32

definition StatsGet :: "csstats \<Rightarrow> api_period_stats list \<times> api_response" where
  "StatsGet cs =
     (map (\<lambda>ps. \<lparr>aps_periodDuration = ucast (ps_periodSec ps), aps_poolsCount = ps_poolsCount ps,
                  aps_transactionsCount = ps_transactionsCount ps, aps_balancePerCurrency = ps_balancePerCurrency ps,
                  aps_smartContractsCount = ps_smartContractsCount ps\<rparr>) (getStats cs),
      SetResponseStatus SUCCESS [])"

definition NodesInfoGet :: api_response where
  "NodesInfoGet = SetResponseStatus NOT_IMPLEMENTED []"

text \<open>The list of pools, with the cache of converted pools.  The request throws when it reserves room for a negative
  number of pools.\<close>

type_synonym pool_cache = "(pool_hash \<times> api_pool) list"

fun pool_list :: "('d, 'i) database_ops \<Rightarrow> nat \<Rightarrow> u64 \<Rightarrow> u64 \<Rightarrow> nat \<Rightarrow> nat \<Rightarrow> pool_hash \<Rightarrow> api_pool list \<Rightarrow> pool_cache \<Rightarrow> 'd storages \<Rightarrow>
    api_pool list \<times> pool_cache \<times> 'd storages" where
  "pool_list ops s sequence offset it lower hash pools poolCache w =
     (if lower < it
      then (case map_find pool_hash_lt hash poolCache of
              None \<Rightarrow>
                (let (p, w) = loadBlock ops s hash w;
                     apiPool = convertPool p;
                     pools = (if of_nat it \<le> sequence - min sequence offset then pools @ [apiPool] else pools)
                 in pool_list ops s sequence offset (it - 1) lower (p_previous_hash p) pools
                      (map_emplace pool_hash_lt hash apiPool poolCache) w)
            | Some apiPool \<Rightarrow>
                pool_list ops s sequence offset (it - 1) lower (pool_hash_from_string (ap_prevHash apiPool)) (pools @ [apiPool])
                  poolCache w)
      else (pools, poolCache, w))"

declare pool_list.simps [simp del] page_pool.simps [simp del]

definition PoolListGet ::
  "('d, 'i) database_ops \<Rightarrow> nat \<Rightarrow> u64 \<Rightarrow> u64 \<Rightarrow> pool_cache \<Rightarrow> 'd storages \<Rightarrow> api_pool list api_result \<times> pool_cache \<times> 'd storages" where
  "PoolListGet ops s offset limit poolCache w =
     (let offset = (if 100 <s offset then 100 else offset);
          limit = (if 100 <s limit then 100 else limit)
      in if limit <s 0 then (Raised, poolCache, w)
         else let sequence = getSize s w;
                  lower = sequence - min sequence (offset + limit);
                  (pools, poolCache, w) =
                    pool_list ops s sequence offset (unat sequence) (unat lower) (getLastHash s w) [] poolCache w
              in (Returned pools, poolCache, w))"

end
