(* ===== verification/ApiReads.thy ===== *)
theory ApiReads
  imports Api
begin

text \<open>
  What the reading requests of \<open>Api\<close> answer: a transaction by its printed identifier, a page of the
  transactions of an address, and the list of pools with its cache.
\<close>

subsection \<open>A transaction by its identifier\<close>

lemma decimal_snoc: "decimal a (s @ [c]) = decimal a s * 10 + (of_char c - 48)"
  by (simp add: decimal_def)

lemma takeWhile_isdigit_snoc:
  "takeWhile isdigit (s @ [c]) =
     (if list_all isdigit s then (if isdigit c then s @ [c] else s) else takeWhile isdigit s)"
  by (induction s) auto

text \<open>The decimal number that a printed index begins with: the index itself below ten, and less from there on.\<close>

definition as_decimal :: "nat \<Rightarrow> nat" where
  "as_decimal n = decimal 0 (takeWhile isdigit (print_hex n))"

lemma as_decimal_less: "as_decimal n \<le> n \<and> (10 \<le> n \<longrightarrow> as_decimal n < n) \<and> (n < 10 \<longrightarrow> as_decimal n = n)"
proof (induction n rule: print_hex.induct)
  case (1 n)
  show ?case
  proof (cases "n < 16")
    case True
    then show ?thesis
      by (cases "n < 10") (simp_all add: as_decimal_def print_hex.simps [of n] isdigit_hex_digit decimal_def code_hex_digit_lower)
  next
    case False
    let ?q = "print_hex (n div 16)" and ?r = "n mod 16"
    have IH: "as_decimal (n div 16) \<le> n div 16"
      using "1.IH" False by blast
    have less: "n div 16 * 10 + ?r < n" "n div 16 < n"
      using False div_mult_mod_eq [of n 16] div_greater_zero_iff [of n 16] by linarith+
    have hex: "print_hex n = ?q @ [hex_digit_lower ?r]"
      using False by (subst print_hex.simps) simp
    have all: "takeWhile isdigit ?q = ?q" if "list_all isdigit ?q"
      using that by (simp add: list_all_iff takeWhile_eq_all_conv)
    from hex have "as_decimal n = as_decimal (n div 16) * 10 + ?r \<or> as_decimal n = as_decimal (n div 16)"
      by (cases "list_all isdigit ?q"; cases "?r < 10")
        (simp_all add: all as_decimal_def takeWhile_isdigit_snoc isdigit_hex_digit decimal_snoc code_hex_digit_lower)
    then show ?thesis
      using IH less False by linarith
  qed
qed

lemma length_print_hex: "n < 16 ^ Suc k \<Longrightarrow> length (print_hex n) \<le> Suc k"
proof (induction k arbitrary: n)
  case (Suc k)
  then have "n div 16 < 16 ^ Suc k"
    by (simp add: less_mult_imp_div_less mult.commute)
  with Suc.IH show ?case
    by (subst print_hex.simps) simp
qed (simp add: print_hex.simps)

lemma stoi_index:
  assumes "n < 2 ^ 28"
  shows "stoi (pad8 (print_hex n)) = Some (int (as_decimal n))"
proof -
  have "length (print_hex n) \<le> 7"
    using length_print_hex [of n 6] assms by simp
  then obtain s where s: "pad8 (print_hex n) = CHR ''0'' # s" "takeWhile isdigit (CHR ''0'' # s) = takeWhile isdigit (pad8 (print_hex n))"
    by (cases "8 - length (print_hex n)") (auto simp: pad8_def)
  have "decimal 0 (takeWhile isdigit (replicate k (CHR ''0'') @ t)) = decimal 0 (takeWhile isdigit t)" for k t
    by (induction k) (simp_all add: decimal_def isdigit_def)
  then have "decimal 0 (takeWhile isdigit (pad8 (print_hex n))) = as_decimal n"
    by (simp add: pad8_def as_decimal_def)
  moreover have "as_decimal n < 2 ^ 31"
    using as_decimal_less [of n] assms by simp
  ultimately show ?thesis
    unfolding stoi_def s(1) using s(2) by (simp add: Let_def isspace_def isdigit_def read_digits_eq del: takeWhile.simps)
qed

lemma length_hex: "length (to_hex bs) = 2 * length bs"
  by (induction bs) simp_all

text \<open>C35: asking for a transaction by the identifier that the requests print for it gives that transaction exactly if
  its number in the block is below ten; from there on the answer is an earlier transaction of the block.\<close>

theorem TransactionGet_printed_id:
  assumes "w s = Some st" "view ops st (p_hash p) = p" "p_is_valid p" "pool_sealed p"
    and "list_all transaction_is_valid (p_transactions p)" "length (hash_value (p_hash p)) = hash_size"
    and "n < length (p_transactions p)" "length (p_transactions p) < 2 ^ 28"
  shows "\<exists>j. (j = n \<longleftrightarrow> n < 10) \<and> j \<le> n \<and>
    fst (TransactionGet ops s (at_innerId (convertTransaction (p_transactions p ! n))) w) =
      Returned (Some (convertTransaction (p_transactions p ! j)), SetResponseStatus SUCCESS [])"
proof -
  let ?j = "as_decimal n" and ?h = "pool_hash_to_string (p_hash p)"
  have j: "?j \<le> n" "?j = n \<longleftrightarrow> n < 10"
    using as_decimal_less [of n] by (cases "n < 10"; simp)+
  have id: "tr_id (p_transactions p ! k) = \<lparr>id_pool_hash = p_hash p, id_index = of_nat k\<rparr>" if "k < length (p_transactions p)" for k
    using assms(4) that by (simp add: pool_sealed_def)
  have n: "unat (of_nat n :: u64) = n"
    using assms(7,8) by (simp add: unat_of_nat take_bit_nat_eq_self)
  have shown: "at_innerId (convertTransaction (p_transactions p ! n)) = ?h @ CHR '':'' # pad8 (print_hex n)"
    using id [OF assms(7)] n by (simp add: convertTransaction_def transaction_id_to_string_def)
  have len: "length ?h = 64"
    using assms(6) by (simp add: pool_hash_to_string_def length_hex)
  have "n < 2 ^ 28"
    using assms(7,8) by linarith
  then have conv: "convertStringToID (?h @ CHR '':'' # pad8 (print_hex n)) = Returned (?h, of_nat ?j)"
    using len stoi_index [of n] by (simp add: convertStringToID_def Let_def pad8_def)
  have hash: "pool_hash_from_string ?h = p_hash p"
    using assms(6) by (intro pool_hash_text) simp
  have tj: "transaction_by_id p \<lparr>id_pool_hash = p_hash p, id_index = of_nat ?j\<rparr> = p_transactions p ! ?j"
    using transaction_by_id_sealed [OF assms(4,3), of ?j] id [of ?j] j assms(7,8) by simp
  have "fst (loadTransaction ops s \<lparr>id_pool_hash = p_hash p, id_index = of_nat ?j\<rparr> w) = p_transactions p ! ?j"
    using assms(1,2,6) tj
    by (auto simp: loadTransaction_def storage_transaction_def transaction_id_is_valid_def pool_hash_is_empty_def Let_def
        case_prod_beta)
  moreover have "transaction_is_valid (p_transactions p ! ?j)"
    using assms(5,7) j(1) by (simp add: list_all_length)
  ultimately have "fst (TransactionGet ops s (at_innerId (convertTransaction (p_transactions p ! n))) w) =
      Returned (Some (convertTransaction (p_transactions p ! ?j)), SetResponseStatus SUCCESS [])"
    by (simp add: shown TransactionGet_def conv hash case_prod_beta)
  then show ?thesis
    using j by blast
qed

theorem TransactionGet_printed_id_witness:
  "fst (TransactionGet (berkeley_ops map_api) 0 (at_innerId (convertTransaction (p_transactions sample_sealed ! 1))) [0 \<mapsto> sample_storage]) =
    Returned (Some (convertTransaction (p_transactions sample_sealed ! 1)), SetResponseStatus SUCCESS [])"
proof -
  have "length (hash_value (p_hash sample_sealed)) = hash_size" "pool_sealed sample_sealed"
    using pool_from_binary_sealed sample_sealed_fields(1,4) by (simp_all add: calc_from_data_def length_calc_hash)
  then show ?thesis
    using TransactionGet_printed_id [of "[0 \<mapsto> sample_storage]" 0 sample_storage "berkeley_ops map_api" sample_sealed 1]
      sample_sealed_fields sample_view by auto
qed

subsection \<open>Pages of transactions\<close>

definition involved :: "address \<Rightarrow> transaction \<Rightarrow> bool" where
  "involved addr t \<longleftrightarrow> address_eq (tr_target t) addr \<or> address_eq (tr_source t) addr"

text \<open>One transaction: it is skipped, or it is the next of the page.\<close>

definition page_step :: "address \<Rightarrow> transaction \<Rightarrow> u64 \<Rightarrow> transaction list \<Rightarrow> u64 \<times> transaction list" where
  "page_step addr t offset ts =
     (if involved addr t then (if offset = 0 then (offset, ts @ [t]) else (offset - 1, ts)) else (offset, ts))"

definition page_inv :: "u64 \<Rightarrow> u64 \<Rightarrow> transaction list \<Rightarrow> bool" where
  "page_inv limit offset ts \<longleftrightarrow> length ts < unat limit \<and> (ts = [] \<or> offset = 0)"

lemma page_step_spec:
  assumes "page_inv limit offset ts" "page_step addr t offset ts = (offset', ts')"
  shows "ts' @ drop (unat offset') xs = ts @ drop (unat offset) (filter (involved addr) [t] @ xs)"
    "unat offset' - length xs = unat offset - length (filter (involved addr) [t] @ xs)"
    "length ts' \<le> unat limit" "ts' = [] \<or> offset' = 0"
proof -
  have "unat (offset - 1) = unat offset - 1" if "offset \<noteq> 0"
    using that unat_minus_one by blast
  moreover have "drop n (t # xs) = drop (n - 1) xs" if "n \<noteq> 0" for n
    using that by (cases n) simp_all
  moreover have "unat offset \<noteq> 0" if "offset \<noteq> 0"
    using that by (simp add: unat_eq_zero)
  ultimately show "ts' @ drop (unat offset') xs = ts @ drop (unat offset) (filter (involved addr) [t] @ xs)"
    "unat offset' - length xs = unat offset - length (filter (involved addr) [t] @ xs)"
    "length ts' \<le> unat limit" "ts' = [] \<or> offset' = 0"
    using assms by (auto simp: page_inv_def page_step_def split: if_splits)
qed

lemma full_page: "length ts \<le> unat limit \<Longrightarrow> of_nat (length ts) = (limit :: u64) \<longleftrightarrow> length ts = unat limit"
  using unat_lt_64 [of limit] by (auto simp: word_unat_eq_iff unat_of_nat take_bit_nat_eq_self)

lemma page_pool_spec:
  assumes "counted p"
  shows "k < length (p_transactions p) \<Longrightarrow> page_inv limit offset ts \<Longrightarrow> page_pool addr limit p k offset ts = (offset', ts') \<Longrightarrow>
    ts' = take (unat limit) (ts @ drop (unat offset) (filter (involved addr) (rev (take (Suc k) (p_transactions p))))) \<and>
    (length ts' < unat limit \<longrightarrow> page_inv limit offset' ts' \<and>
       unat offset' = unat offset - length (filter (involved addr) (rev (take (Suc k) (p_transactions p)))))"
proof (induction k arbitrary: offset ts)
  case (0 offset ts)
  let ?t = "p_transactions p ! 0"
  obtain o1 ts1 where step: "page_step addr ?t offset ts = (o1, ts1)" by fastforce
  have "transaction_at p 0 = ?t"
    using 0(1) by (simp add: transaction_at_def)
  then have "offset' = o1" "ts' = ts1"
    using 0(3) step by (auto simp: page_pool.simps [of _ _ _ 0] page_step_def involved_def Let_def split: if_splits)
  moreover have "take (Suc 0) (p_transactions p) = [?t]"
    using 0(1) by (simp add: take_Suc_conv_app_nth)
  ultimately show ?case
    using page_step_spec(1,2) [OF 0(2) step, of "[]"] page_step_spec(3,4) [OF 0(2) step] by (simp add: page_inv_def)
next
  case (Suc k offset ts)
  let ?t = "p_transactions p ! Suc k" and ?ys = "filter (involved addr) (rev (take (Suc k) (p_transactions p)))"
  obtain o1 ts1 where step: "page_step addr ?t offset ts = (o1, ts1)" by fastforce
  note st = page_step_spec(1,2) [OF Suc.prems(2) step, of ?ys] page_step_spec(3,4) [OF Suc.prems(2) step]
  have "unat (of_nat (Suc k) :: u64) = Suc k"
    using Suc.prems(1) assms unsigned_less [of "p_transactionsCount p", where 'a = nat]
    by (intro unat_of_nat_64) (simp add: counted_def)
  then have "transaction_at p (of_nat (Suc k)) = ?t"
    using Suc.prems(1) by (simp add: transaction_at_def del: of_nat_Suc)
  then have run: "(if of_nat (length ts1) = limit then (o1, ts1) else page_pool addr limit p k o1 ts1) = (offset', ts')"
    using Suc.prems(3) step
    by (subst (asm) page_pool.simps) (simp add: page_step_def involved_def Let_def del: of_nat_Suc split: if_splits)
  have xs: "filter (involved addr) (rev (take (Suc (Suc k)) (p_transactions p))) = filter (involved addr) [?t] @ ?ys"
    using Suc.prems(1) by (simp add: take_Suc_conv_app_nth)
  show ?case
  proof (cases "length ts1 = unat limit")
    case True
    then have "ts' = ts1"
      using run full_page [of ts1 limit] by simp
    moreover have "take (unat limit) (ts1 @ drop (unat o1) ?ys) = ts1"
      using True by simp
    ultimately show ?thesis
      using True unfolding xs st(1) [symmetric] by simp
  next
    case False
    then have "page_inv limit o1 ts1" "page_pool addr limit p k o1 ts1 = (offset', ts')"
      using st(3,4) run full_page [of ts1 limit] by (simp_all add: page_inv_def)
    from Suc.IH [OF Suc_lessD [OF Suc.prems(1)] this] show ?thesis
      unfolding xs st(1,2) [symmetric] .
  qed
qed

lemma take_take_append: "take n (take n xs @ ys) = take n (xs @ ys)"
  by (cases "length xs \<le> n") simp_all

context database_reader
begin

lemma page_loop_chain:
  "chain (view ops st0) h ps \<Longrightarrow> w s = Some st \<Longrightarrow> same_view ops st0 st \<Longrightarrow> list_all counted ps \<Longrightarrow> page_inv limit offset ts \<Longrightarrow>
    \<exists>w'. page_loop ops s addr limit (view ops st0 h) offset ts w =
      Some (take (unat limit) (ts @ drop (unat offset) (filter (involved addr) (newest_first ps))), w')"
proof (induction "view ops st0" h ps arbitrary: w st offset ts rule: chain.induct)
  case (chain_end h)
  then show ?case
    by (subst page_loop.simps) (simp add: page_inv_def)
next
  case (chain_pool h ps)
  let ?p = "view ops st0 h"
  let ?xs = "filter (involved addr) (rev (p_transactions ?p))" and ?ys = "filter (involved addr) (newest_first ps)"
  obtain o1 ts1 where run: "(if transactions_count ?p \<noteq> 0
      then page_pool addr limit ?p (unat (transactions_count ?p) - 1) offset ts else (offset, ts)) = (o1, ts1)"
    by fastforce
  have n: "unat (transactions_count ?p) = length (p_transactions ?p)"
    using chain_pool.prems(3) by (simp add: counted_def)
  then have z: "transactions_count ?p = 0 \<longleftrightarrow> p_transactions ?p = []"
    by (metis length_0_conv unat_eq_zero)
  have page: "ts1 = take (unat limit) (ts @ drop (unat offset) ?xs)"
    "length ts1 < unat limit \<Longrightarrow> page_inv limit o1 ts1 \<and> unat o1 = unat offset - length ?xs"
  proof -
    have "ts1 = take (unat limit) (ts @ drop (unat offset) ?xs) \<and>
        (length ts1 < unat limit \<longrightarrow> page_inv limit o1 ts1 \<and> unat o1 = unat offset - length ?xs)"
    proof (cases "p_transactions ?p = []")
      case True
      then show ?thesis
        using run z chain_pool.prems(4) by (simp add: page_inv_def)
    next
      case False
      then have pp: "page_pool addr limit ?p (length (p_transactions ?p) - 1) offset ts = (o1, ts1)"
        "take (Suc (length (p_transactions ?p) - 1)) (p_transactions ?p) = p_transactions ?p" "counted ?p"
        "length (p_transactions ?p) - 1 < length (p_transactions ?p)"
        using run n z chain_pool.prems(3) by simp_all
      from page_pool_spec [OF pp(3,4) chain_pool.prems(4) pp(1)] show ?thesis
        unfolding pp(2) .
    qed
    then show "ts1 = take (unat limit) (ts @ drop (unat offset) ?xs)"
      "length ts1 < unat limit \<Longrightarrow> page_inv limit o1 ts1 \<and> unat o1 = unat offset - length ?xs" by blast+
  qed
  have split: "take (unat limit) (ts @ drop (unat offset) (?xs @ ?ys)) =
      take (unat limit) (ts1 @ drop (unat offset - length ?xs) ?ys)"
    unfolding page(1) take_take_append by simp
  note step = load_block_step [where w = w and s = s, OF chain_pool.prems(1,2), of "p_previous_hash ?p"]
  show ?case
  proof (cases "length ts1 = unat limit")
    case True
    then show ?thesis
      using chain_pool.hyps(1) run full_page [of ts1 limit] split by (subst page_loop.simps) simp
  next
    case False
    then have less: "length ts1 < unat limit"
      by (simp add: page(1))
    let ?st = "snd (pool_load ops (p_previous_hash ?p) st)"
    have "(w(s \<mapsto> ?st)) s = Some ?st"
      by simp
    from chain_pool.hyps(3) [of "w(s \<mapsto> ?st)" ?st o1 ts1, OF this step(2)] chain_pool.prems(3) page(2) [OF less]
    obtain w' where "page_loop ops s addr limit (view ops st0 (p_previous_hash ?p)) o1 ts1 (w(s \<mapsto> ?st)) =
        Some (take (unat limit) (ts1 @ drop (unat offset - length ?xs) ?ys), w')"
      by auto
    moreover have "of_nat (length ts1) \<noteq> limit"
      using full_page [of ts1 limit] less by simp
    ultimately have "page_loop ops s addr limit ?p offset ts w =
        Some (take (unat limit) (ts @ drop (unat offset) (?xs @ ?ys)), w')"
      unfolding split using chain_pool.hyps(1) run by (subst page_loop.simps) (simp add: step(1))
    then show ?thesis by simp
  qed
qed

end

text \<open>C34: a page of the transactions of a wallet is the part of all transactions it takes part in, from the newest to the
  oldest over the whole chain, that begins behind \<open>offset\<close> of them and has at most \<open>limit\<close>, for every limit but zero.\<close>

theorem TransactionsGet_page:
  assumes "w s = Some st" "chain (view (berkeley_ops api) st) (s_last_hash st) ps"
    and "\<forall>p \<in> set ps. length (p_transactions p) < 2 ^ 32" "limit \<noteq> 0"
  shows "\<exists>w'. TransactionsGet (berkeley_ops api) s rest address offset limit w =
    Some ((map convertTransaction (take (unat limit) (drop (unat offset)
        (filter (involved (wallet_address rest address)) (newest_first ps)))), SetResponseStatus SUCCESS []), w')"
proof -
  let ?st = "snd (pool_load (berkeley_ops api) (s_last_hash st) st)"
  note step = berkeley.load_block_step [where w = w and s = s, OF assms(1) same_view_refl, where h = "s_last_hash st"]
  have "(w(s \<mapsto> ?st)) s = Some ?st" "page_inv limit offset []"
    using assms(4) by (simp_all add: page_inv_def unat_gt_0)
  from berkeley.page_loop_chain [of api st "s_last_hash st" ps "w(s \<mapsto> ?st)" s ?st limit offset "[]" "wallet_address rest address", OF assms(2) this(1) step(2) chain_counted [OF assms(2,3)] this(2)]
  show ?thesis
    using assms(1) by (auto simp: TransactionsGet_def getLastHash_def step(1) convertTransactions_def)
qed

theorem TransactionsGet_page_witness:
  "\<exists>t w'. TransactionsGet (berkeley_ops map_api) 0 [] (address_to_string (Address (replicate 32 1))) 1 5 [0 \<mapsto> sample_storage] =
    Some (([convertTransaction t], SetResponseStatus SUCCESS []), w') \<and> tr_innerID t = 1"
proof -
  obtain t u where ts: "p_transactions sample_sealed = [t, u]" "tr_innerID t = 1"
    using sample_sealed_fields(3,6) by (auto simp: numeral_2_eq_2 length_Suc_conv)
  have "wallet_address [] (address_to_string (Address (replicate 32 1))) = Address (replicate 32 1)"
    using address_text [of "Address (replicate 32 1)"] by (simp add: wallet_address_def address_to_string_def length_hex address_is_valid_def)
  then show ?thesis
    using TransactionsGet_page [of "[0 \<mapsto> sample_storage]" 0 sample_storage map_api, OF _ sample_chain, of 5 "[]"
        "address_to_string (Address (replicate 32 1))" 1]
      sample_sealed_fields(7) ts by (auto simp: involved_def)
qed

subsection \<open>The list of pools\<close>

text \<open>The pools that are listed: those from \<open>off\<close> on and those that are in the cache; \<open>k\<close> counts the pools.\<close>

fun listed :: "nat \<Rightarrow> pool_hash set \<Rightarrow> nat \<Rightarrow> pool list \<Rightarrow> pool list" where
  "listed off C k [] = []"
| "listed off C k (p # ps) = (if off \<le> k \<or> p_hash p \<in> C then [p] else []) @ listed off C (Suc k) ps"

lemma listed_empty: "listed off {} k ps = drop (off - k) ps"
proof (induction ps arbitrary: k)
  case (Cons p ps)
  then show ?case by (cases "off \<le> k") (simp_all add: drop_Cons')
qed simp

lemma listed_all: "p_hash ` set ps \<subseteq> C \<Longrightarrow> listed off C k ps = ps"
  by (induction ps arbitrary: k) auto

lemma listed_insert: "h \<notin> p_hash ` set ps \<Longrightarrow> listed off (insert h C) k ps = listed off C k ps"
  by (induction ps arbitrary: k) auto

text \<open>Every block is stored under its hash, and no hash occurs twice in a finite chain.\<close>

definition stored :: "(pool_hash \<Rightarrow> pool) \<Rightarrow> bool" where
  "stored load \<longleftrightarrow> (\<forall>h. p_is_valid (load h) \<longrightarrow> p_hash (load h) = h)"

lemma chain_unique: "chain load h ps \<Longrightarrow> chain load h qs \<Longrightarrow> ps = qs"
proof (induction arbitrary: qs rule: chain.induct)
  case (chain_end load h)
  then show ?case by (cases qs) (blast elim: chain_ConsE)+
next
  case (chain_pool load h ps)
  show ?case
  proof (cases qs)
    case Nil
    then show ?thesis
      using chain_pool by (blast elim: chain_NilE)
  next
    case (Cons q qs')
    then have "q = load h" "chain load (p_previous_hash (load h)) qs'"
      using chain_pool.prems by (auto elim: chain_ConsE)
    then show ?thesis
      using Cons chain_pool.IH by simp
  qed
qed

lemma chain_suffix: "chain load h ps \<Longrightarrow> stored load \<Longrightarrow> p \<in> set ps \<Longrightarrow> \<exists>qs. chain load (p_hash p) (p # qs) \<and> length qs < length ps"
proof (induction rule: chain.induct)
  case (chain_pool load h ps)
  show ?case
  proof (cases "p = load h")
    case True
    then have "p_hash p = h"
      using chain_pool.hyps(1) chain_pool.prems(1) by (simp add: stored_def)
    then show ?thesis
      using chain.chain_pool [OF chain_pool.hyps(1,2)] True by auto
  next
    case False
    then obtain qs where "chain load (p_hash p) (p # qs)" "length qs < length ps"
      using chain_pool.IH chain_pool.prems by auto
    then show ?thesis
      by (intro exI [of _ qs]) simp
  qed
qed simp

lemma chain_distinct: "chain load h ps \<Longrightarrow> stored load \<Longrightarrow> distinct (map p_hash ps)"
proof (induction rule: chain.induct)
  case (chain_pool load h ps)
  have "p_hash (load h) \<notin> p_hash ` set ps"
  proof
    assume "p_hash (load h) \<in> p_hash ` set ps"
    moreover have "p_hash (load h) = h"
      using chain_pool.hyps(1) chain_pool.prems by (simp add: stored_def)
    ultimately obtain p where p: "p \<in> set ps" "p_hash p = h" by auto
    then obtain qs where "chain load h (p # qs)" "length qs < length ps"
      using chain_suffix [OF chain_pool.hyps(2) chain_pool.prems p(1)] by auto
    with chain_unique [OF chain.chain_pool [where h = h, OF chain_pool.hyps(1,2)], of "p # qs"] show False by simp
  qed
  then show ?case
    using chain_pool.IH [OF chain_pool.prems] by simp
qed simp

definition pool_cache_ok :: "(pool_hash \<Rightarrow> pool) \<Rightarrow> pool_cache \<Rightarrow> bool" where
  "pool_cache_ok load cache \<longleftrightarrow> map_sorted pool_hash_lt cache \<and>
     (\<forall>h a. map_find pool_hash_lt h cache = Some a \<longrightarrow> a = convertPool (load h))"

definition cached :: "pool_cache \<Rightarrow> pool_hash set" where
  "cached cache = {h. map_find pool_hash_lt h cache \<noteq> None}"

lemma list_position:
  assumes "it \<le> unat (sequence :: u64)" "k + it = unat sequence" "0 < it"
  shows "of_nat it \<le> sequence - min sequence offset \<longleftrightarrow> unat offset \<le> k"
proof -
  have "unat (of_nat it :: u64) = it"
    using assms(1) unat_lt_64 [of sequence] by (simp add: unat_of_nat take_bit_nat_eq_self)
  moreover have "unat (sequence - min sequence offset) = unat sequence - unat offset"
    by (simp add: min_def unat_sub word_le_nat_alt)
  ultimately show ?thesis
    using assms by (simp add: word_le_nat_alt) linarith
qed

lemma pool_load_count [simp]: "s_count_pool (snd (pool_load ops h st)) = s_count_pool st"
  by (simp add: pool_load_def Let_def split: option.split prod.split)

lemma emplace_new: "map_find lt k m = None \<Longrightarrow> map_emplace lt k v m = map_assign lt k v m"
  by (induction lt k v m rule: map_emplace.induct) (simp_all split: if_splits)

interpretation pool_hash_key: key_order pool_hash_lt
  unfolding pool_hash_lt_def by (rule key_order_image) (rule pool_hash.expand)

lemma cache_grow:
  assumes "pool_cache_ok load cache" "h \<notin> cached cache"
  shows "pool_cache_ok load (map_emplace pool_hash_lt h (convertPool (load h)) cache)"
    "cached (map_emplace pool_hash_lt h (convertPool (load h)) cache) = insert h (cached cache)"
proof -
  have "map_emplace pool_hash_lt h (convertPool (load h)) cache = map_assign pool_hash_lt h (convertPool (load h)) cache"
    using assms(2) by (intro emplace_new) (simp add: cached_def)
  then show "pool_cache_ok load (map_emplace pool_hash_lt h (convertPool (load h)) cache)"
    "cached (map_emplace pool_hash_lt h (convertPool (load h)) cache) = insert h (cached cache)"
    using assms(1) by (auto simp: pool_cache_ok_def cached_def pool_hash_key.sorted_assign pool_hash_key.find_assign)
qed

context database_reader
begin

lemma pool_list_chain:
  "chain (view ops st0) h ps \<Longrightarrow> stored (view ops st0) \<Longrightarrow> \<forall>p \<in> set ps. length (hash_value (p_previous_hash p)) \<in> {0, hash_size} \<Longrightarrow>
    w s = Some st \<Longrightarrow> same_view ops st0 st \<Longrightarrow> pool_cache_ok (view ops st0) cache \<Longrightarrow>
    k + it = unat sequence \<Longrightarrow> it - lower \<le> length ps \<Longrightarrow>
    \<exists>cache' w' st'. pool_list ops s sequence offset it lower h acc cache w =
        (acc @ map convertPool (listed (unat offset) (cached cache) k (take (it - lower) ps)), cache', w') \<and>
      pool_cache_ok (view ops st0) cache' \<and> p_hash ` set (take (it - lower) ps) \<subseteq> cached cache' \<and> cached cache \<subseteq> cached cache' \<and>
      w' s = Some st' \<and> same_view ops st0 st' \<and> s_count_pool st' = s_count_pool st"
proof (induction "view ops st0" h ps arbitrary: w st cache it k acc rule: chain.induct)
  case (chain_end h)
  then show ?case
    by (subst pool_list.simps) auto
next
  case (chain_pool h ps)
  let ?p = "view ops st0 h"
  note prems = chain_pool.prems
  have h: "p_hash ?p = h"
    using chain_pool.hyps(1) prems(1) by (simp add: stored_def)
  have fresh: "h \<notin> p_hash ` set ps"
    using chain_distinct [OF chain.chain_pool [where h = h, OF chain_pool.hyps(1,2)] prems(1)] h by simp
  show ?case
  proof (cases "lower < it")
    case False
    then show ?thesis
      using prems by (subst pool_list.simps) auto
  next
    case True
    then obtain m where m: "it - lower = Suc m" "it - 1 - lower = m" "m \<le> length ps" "Suc k + (it - 1) = unat sequence"
      using prems(6,7) by (cases "it - lower") auto
    note IH = chain_pool.hyps(3) [OF prems(1) _ _ _ _ m(4), unfolded m(2), OF _ _ _ _ m(3)]
    have pos: "of_nat it \<le> sequence - min sequence offset \<longleftrightarrow> unat offset \<le> k"
      using list_position [of it sequence k offset] prems(6) True by simp
    show ?thesis
    proof (cases "h \<in> cached cache")
      case True
      then have found: "map_find pool_hash_lt h cache = Some (convertPool ?p)"
        using prems(5) by (auto simp: cached_def pool_cache_ok_def)
      have prev: "pool_hash_from_string (ap_prevHash (convertPool ?p)) = p_previous_hash ?p"
        using chain_pool.hyps(1) prems(2) pool_hash_text by (simp add: convertPool_def)
      have "pool_list ops s sequence offset it lower h acc cache w =
          pool_list ops s sequence offset (it - 1) lower (p_previous_hash ?p) (acc @ [convertPool ?p]) cache w"
        using \<open>lower < it\<close> by (subst pool_list.simps) (simp add: found prev)
      then show ?thesis
        using IH [of w st cache "acc @ [convertPool ?p]", OF _ prems(3-5)] prems(2) True h by (auto simp: m(1))
    next
      case False
      let ?st = "snd (pool_load ops h st)" and ?acc = "acc @ (if unat offset \<le> k then [convertPool ?p] else [])"
      let ?cache = "map_emplace pool_hash_lt h (convertPool ?p) cache"
      note step = load_block_step [where w = w and s = s, OF prems(3,4), of h]
      note grow = cache_grow [OF prems(5) False]
      have "map_find pool_hash_lt h cache = None"
        using False by (simp add: cached_def)
      then have run: "pool_list ops s sequence offset it lower h acc cache w =
          pool_list ops s sequence offset (it - 1) lower (p_previous_hash ?p) ?acc ?cache (w(s \<mapsto> ?st))"
        using \<open>lower < it\<close> pos by (subst pool_list.simps) (simp add: step(1) Let_def)
      have new: "listed (unat offset) (insert h (cached cache)) (Suc k) (take m ps) = listed (unat offset) (cached cache) (Suc k) (take m ps)"
        using fresh by (intro listed_insert) (auto dest: in_set_takeD)
      have "(w(s \<mapsto> ?st)) s = Some ?st"
        by simp
      from IH [of "w(s \<mapsto> ?st)" ?st ?cache ?acc, OF _ this step(2) grow(1)] prems(2)
      show ?thesis
        using False h by (auto simp: run m(1) grow(2) new)
    qed
  qed
qed

end

lemma sint_of_small:
  assumes "unat (v :: u64) < 2 ^ 63"
  shows "sint v = int (unat v)"
proof -
  have u: "uint v = int (unat v)" by simp
  have "int (unat v) < int (2 ^ 63)"
    using assms by (simp only: of_nat_less_iff)
  then have "uint v < 2 ^ 63"
    unfolding u by simp
  moreover have "- (2 ^ 63) \<le> uint v"
    by (rule order_trans [of _ 0]) simp_all
  ultimately have "sint (word_of_int (uint v) :: u64) = uint v"
    by (subst sint_sbintrunc') (simp add: signed_take_bit_int_eq_self)
  then show ?thesis
    unfolding u [symmetric] word_of_int_uint .
qed

lemma clamped:
  assumes "unat v < 2 ^ 63"
  shows "unat (if 100 <s v then 100 else v :: u64) = min 100 (unat v)" "\<not> (if 100 <s v then 100 else v :: u64) <s 0"
proof -
  have "100 <s v \<longleftrightarrow> 100 < int (unat v)" "\<not> v <s 0"
    unfolding word_sless_alt sint_of_small [OF assms] by simp_all
  then have "100 <s v \<longleftrightarrow> 100 < unat v" "\<not> v <s 0"
    by linarith+
  then show "unat (if 100 <s v then 100 else v :: u64) = min 100 (unat v)" "\<not> (if 100 <s v then 100 else v :: u64) <s 0"
    by (auto simp: min_def word_sless_alt)
qed

text \<open>On an empty cache the list of pools skips \<open>offset\<close> of them and has at most \<open>limit\<close>, both at most a hundred; asked
  again, the same request does not skip any, because the pools it has passed over are now in the cache.\<close>

theorem PoolListGet_repeated:
  assumes "w s = Some st" "chain (view (berkeley_ops api) st) (s_last_hash st) ps" "length ps = unat (s_count_pool st)"
    and "stored (view (berkeley_ops api) st)" "\<forall>p \<in> set ps. length (hash_value (p_previous_hash p)) \<in> {0, hash_size}"
    and "unat offset < 2 ^ 63" "unat limit < 2 ^ 63"
    and "off = min 100 (unat offset)" "lim = min 100 (unat limit)"
  shows "\<exists>cache w' cache' w''. PoolListGet (berkeley_ops api) s offset limit [] w =
      (Returned (map convertPool (drop off (take (off + lim) ps))), cache, w') \<and>
    PoolListGet (berkeley_ops api) s offset limit cache w' = (Returned (map convertPool (take (off + lim) ps)), cache', w'')"
proof -
  let ?ops = "berkeley_ops api" and ?seq = "s_count_pool st"
  define o1 l1 where "o1 = (if 100 <s offset then 100 else offset)" and "l1 = (if 100 <s limit then 100 else limit)"
  have o1: "unat o1 = off" and l1: "unat l1 = lim" "\<not> l1 <s 0"
    using clamped [OF assms(6)] clamped [OF assms(7)] by (simp_all add: o1_def l1_def assms(8,9))
  have sum: "unat (o1 + l1) = off + lim"
    using o1 l1(1) assms(8,9) by (simp add: unat_word_ariths)
  let ?lower = "unat (?seq - min ?seq (o1 + l1))"
  have lower: "take (unat ?seq - ?lower) ps = take (off + lim) ps" "unat ?seq - ?lower \<le> length ps"
    using sum assms(3) by (auto simp: min_def unat_sub word_le_nat_alt)
  have run: "\<exists>cache' w' st'. PoolListGet ?ops s offset limit cache w =
        (Returned (map convertPool (listed off (cached cache) 0 (take (off + lim) ps))), cache', w') \<and>
      pool_cache_ok (view ?ops st) cache' \<and> p_hash ` set (take (off + lim) ps) \<subseteq> cached cache' \<and>
      w' s = Some st' \<and> same_view ?ops st st' \<and> s_count_pool st' = ?seq"
    if c: "w s = Some st1" "same_view ?ops st st1" "s_count_pool st1 = ?seq" "pool_cache_ok (view ?ops st) cache" for w st1 cache
  proof -
    have "getLastHash s w = s_last_hash st" "getSize s w = ?seq"
      using c by (simp_all add: getLastHash_def getSize_def same_view_def)
    with berkeley.pool_list_chain [of api st "s_last_hash st" ps w s st1 cache 0 "unat ?seq" ?seq ?lower o1 "[]",
        OF assms(2,4,5) c(1,2,4) _ lower(2)] c(3)
    show ?thesis
      using l1(2) unfolding PoolListGet_def o1_def [symmetric] l1_def [symmetric] lower(1) o1 by (auto simp: Let_def)
  qed
  have "pool_cache_ok (view ?ops st) []" "cached [] = {}"
    by (simp_all add: pool_cache_ok_def cached_def)
  from run [of w st "[]", OF assms(1) same_view_refl refl this(1)] obtain cache w' st' where first:
    "PoolListGet ?ops s offset limit [] w = (Returned (map convertPool (drop off (take (off + lim) ps))), cache, w')"
    "pool_cache_ok (view ?ops st) cache" "p_hash ` set (take (off + lim) ps) \<subseteq> cached cache"
    "w' s = Some st'" "same_view ?ops st st'" "s_count_pool st' = ?seq"
    by (auto simp: listed_empty \<open>cached [] = {}\<close>)
  from run [of w' st' cache, OF first(4-6,2)] listed_all [OF first(3)] first(1) show ?thesis by auto
qed

theorem PoolListGet_repeated_witness:
  "\<exists>cache w' cache' w''. PoolListGet (berkeley_ops map_api) 0 1 5 [] [0 \<mapsto> sample_storage\<lparr>s_count_pool := 1\<rparr>] = (Returned [], cache, w') \<and>
    PoolListGet (berkeley_ops map_api) 0 1 5 cache w' = (Returned [convertPool sample_sealed], cache', w'')"
proof -
  let ?st = "sample_storage\<lparr>s_count_pool := 1\<rparr>"
  have view: "view (berkeley_ops map_api) ?st = view (berkeley_ops map_api) sample_storage"
    by (intro ext) (simp add: pool_load_result)
  have "view (berkeley_ops map_api) sample_storage h = pool_default" if "h \<noteq> calc_from_data (put_pool sample_pool)" for h
  proof -
    have "hash_value h \<noteq> hash_value (calc_from_data (put_pool sample_pool))"
      using that pool_hash.expand by blast
    then show ?thesis
      by (simp add: pool_load_result sample_storage_def storage_default_def berkeley_ops_def berkeley_is_open_def
          berkeley_get_def map_api_def)
  qed
  then have "\<not> p_is_valid (view (berkeley_ops map_api) sample_storage h)" if "h \<noteq> calc_from_data (put_pool sample_pool)" for h
    using that by (simp only: pool_default_def pool.select_convs(1) not_False_eq_True)
  moreover have "p_hash (view (berkeley_ops map_api) sample_storage (calc_from_data (put_pool sample_pool))) = calc_from_data (put_pool sample_pool)"
    unfolding sample_view(1) by (rule sample_sealed_fields(4))
  ultimately have "stored (view (berkeley_ops map_api) sample_storage)"
    unfolding stored_def by metis
  then have stored: "stored (view (berkeley_ops map_api) ?st)"
    unfolding view .
  have "s_last_hash ?st = s_last_hash sample_storage" by simp
  then have chain: "chain (view (berkeley_ops map_api) ?st) (s_last_hash ?st) [sample_sealed]"
    unfolding view using sample_chain by (simp only:)
  have prev: "\<forall>p \<in> set [sample_sealed]. length (hash_value (p_previous_hash p)) \<in> {0, hash_size}"
    using sample_sealed_fields(2) by simp
  have "[0 \<mapsto> ?st] 0 = Some ?st" "length [sample_sealed] = unat (s_count_pool ?st)"
    by simp_all
  note r = PoolListGet_repeated [of "[0 \<mapsto> ?st]" 0 ?st map_api "[sample_sealed]" 1 5 1 5, OF this(1) chain this(2) stored prev]
  have n: "unat (1 :: u64) < 2 ^ 63" "unat (5 :: u64) < 2 ^ 63" "1 = min 100 (unat (1 :: u64))" "5 = min 100 (unat (5 :: u64))"
    "take (1 + 5) [sample_sealed] = [sample_sealed]" "drop 1 [sample_sealed] = []"
    by simp_all
  show ?thesis
    using r [OF n(1-4)] unfolding n(5,6) list.map .
qed

end
