(* ===== verification/Contracts.thy ===== *)
theory Contracts
  imports ApiReads
begin

text \<open>
  The requests about smart contracts and the sending of transactions (\<open>api/src/APIHandler.cpp\<close>).  A contract is kept in
  the user field 0 of a transaction.  Thrift, which writes and reads contracts (\<open>ser\<close>, \<open>deser\<close>), and the
  executor of contracts are not part of the program and are arguments; \<^term>\<open>None\<close> is an exception that they throw.
  What the handler asks the solver and the executor to do is a list of \<open>api_effect\<close>s.
\<close>

subsection \<open>The caches\<close>

record api_handler =
  ah_smart_origin :: "(string \<times> transaction_id) list"
  ah_smart_state :: "(string \<times> transaction_id) list"
  ah_deployed_by_creator :: "(address \<times> transaction_id list) list"
  ah_last_seen_contract_block :: pool_hash
  ah_transport_opened :: bool

definition is_smart :: "transaction \<Rightarrow> bool" where
  "is_smart t \<longleftrightarrow> user_field_type (tr_user_field t 0) = 2"

definition is_smart_deploy :: "smart_contract \<Rightarrow> bool" where
  "is_smart_deploy smart \<longleftrightarrow> sc_byteCode smart \<noteq> []"

definition fetch_smart :: "(string \<Rightarrow> smart_contract option) \<Rightarrow> transaction \<Rightarrow> smart_contract option" where
  "fetch_smart deser t =
     (if transaction_is_valid t then deser (user_field_string (tr_user_field t 0)) else Some smart_contract_default)"

text \<open>\<open>m[k]\<close>, which makes an entry if there is none.\<close>

definition subscript :: "('k \<Rightarrow> 'k \<Rightarrow> bool) \<Rightarrow> 'k \<Rightarrow> 'v \<Rightarrow> ('k \<times> 'v) list \<Rightarrow> 'v \<times> ('k \<times> 'v) list" where
  "subscript lt k d m = (case map_find lt k m of None \<Rightarrow> (d, map_emplace lt k d m) | Some v \<Rightarrow> (v, m))"

text \<open>An iterator of \<open>poss\<close> points behind the identifiers inserted since the begin of the update; it is the number of them.\<close>

record contract_scan =
  sn_poss :: "(address \<times> nat) list"
  sn_state_updated :: "string set"
  sn_handler :: api_handler

definition scan_contract :: "transaction \<Rightarrow> smart_contract \<Rightarrow> contract_scan \<Rightarrow> contract_scan" where
  "scan_contract t smart sn =
     (let h = sn_handler sn
      in if is_smart_deploy smart
         then (let h = h\<lparr>ah_smart_origin := map_assign (<) (sc_address smart) (tr_id t) (ah_smart_origin h)\<rparr>;
                   (targetList, _) = subscript address_lt (tr_source t) [] (ah_deployed_by_creator h);
                   (pos, _) = subscript address_lt (tr_source t) 0 (sn_poss sn);
                   targetList = take pos targetList @ [tr_id t] @ drop pos targetList
               in sn\<lparr>sn_poss := map_assign address_lt (tr_source t) (Suc pos) (sn_poss sn),
                     sn_handler := h\<lparr>ah_deployed_by_creator := map_assign address_lt (tr_source t) targetList (ah_deployed_by_creator h)\<rparr>\<rparr>)
         else if sc_address smart \<notin> sn_state_updated sn
         then sn\<lparr>sn_state_updated := insert (sc_address smart) (sn_state_updated sn),
                 sn_handler := h\<lparr>ah_smart_state := map_assign (<) (sc_address smart) (tr_id t) (ah_smart_state h)\<rparr>\<rparr>
         else sn)"

text \<open>The transactions of a pool; \<^term>\<open>False\<close> is an exception, which leaves the caches as they are then.\<close>

primrec scan_transactions :: "(string \<Rightarrow> smart_contract option) \<Rightarrow> transaction list \<Rightarrow> contract_scan \<Rightarrow> bool \<times> contract_scan" where
  "scan_transactions deser [] sn = (True, sn)"
| "scan_transactions deser (t # ts) sn =
     (if \<not> is_smart t then scan_transactions deser ts sn
      else case fetch_smart deser t of None \<Rightarrow> (False, sn)
           | Some smart \<Rightarrow> scan_transactions deser ts (scan_contract t smart sn))"

partial_function (option) update_loop ::
  "('d, 'i) database_ops \<Rightarrow> nat \<Rightarrow> (string \<Rightarrow> smart_contract option) \<Rightarrow> pool_hash \<Rightarrow> pool_hash \<Rightarrow> contract_scan \<Rightarrow> 'd storages \<Rightarrow>
   (bool \<times> contract_scan \<times> 'd storages) option" where
  "update_loop ops s deser last_seen curr_ph sn w =
     (if \<not> pool_hash_eq curr_ph last_seen
      then (let (p, w) = loadBlock ops s curr_ph w;
                (ok, sn) = scan_transactions deser (rev (p_transactions p)) sn
            in if ok then update_loop ops s deser last_seen (p_previous_hash p) sn w else Some (False, sn, w))
      else Some (True, sn, w))"

definition update_smart_caches ::
  "('d, 'i) database_ops \<Rightarrow> nat \<Rightarrow> (string \<Rightarrow> smart_contract option) \<Rightarrow> api_handler \<Rightarrow> 'd storages \<Rightarrow>
   (bool \<times> api_handler \<times> 'd storages) option" where
  "update_smart_caches ops s deser h w =
     (let last_ph = getLastHash s w
      in Option.bind (update_loop ops s deser (ah_last_seen_contract_block h) last_ph
              \<lparr>sn_poss = [], sn_state_updated = {}, sn_handler = h\<rparr> w)
           (\<lambda>(ok, sn, w). Some (ok, if ok then (sn_handler sn)\<lparr>ah_last_seen_contract_block := last_ph\<rparr> else sn_handler sn, w)))"

definition api_handler_empty :: api_handler where
  "api_handler_empty = \<lparr>ah_smart_origin = [], ah_smart_state = [], ah_deployed_by_creator = [],
     ah_last_seen_contract_block = PoolHash [], ah_transport_opened = False\<rparr>"

definition APIHandler_new ::
  "('d, 'i) database_ops \<Rightarrow> nat \<Rightarrow> (string \<Rightarrow> smart_contract option) \<Rightarrow> bool \<Rightarrow> 'd storages \<Rightarrow> (bool \<times> api_handler \<times> 'd storages) option" where
  "APIHandler_new ops s deser good w =
     (if \<not> good then Some (True, api_handler_empty, w) else update_smart_caches ops s deser api_handler_empty w)"

subsection \<open>Requests about contracts\<close>

definition SmartContractGet ::
  "('d, 'i) database_ops \<Rightarrow> nat \<Rightarrow> (string \<Rightarrow> smart_contract option) \<Rightarrow> string \<Rightarrow> api_handler \<Rightarrow> 'd storages \<Rightarrow>
   ((smart_contract \<times> api_response) api_result \<times> api_handler \<times> 'd storages) option" where
  "SmartContractGet ops s deser address h w =
     Option.bind (update_smart_caches ops s deser h w) (\<lambda>(ok, h, w).
       if \<not> ok then Some (Raised, h, w)
       else (let (trid, origin) = subscript (<) address transaction_id_default (ah_smart_origin h);
                 h = h\<lparr>ah_smart_origin := origin\<rparr>;
                 (tr, w) = loadTransaction ops s trid w
             in case fetch_smart deser tr of None \<Rightarrow> Some (Raised, h, w)
                | Some smart \<Rightarrow>
                    Some (Returned (smart, SetResponseStatus (if sc_address smart \<noteq> [] then SUCCESS else FAILURE) []), h, w)))"

primrec map_smarts ::
  "('d, 'i) database_ops \<Rightarrow> nat \<Rightarrow> (string \<Rightarrow> smart_contract option) \<Rightarrow> (smart_contract \<Rightarrow> 'a) \<Rightarrow> transaction_id list \<Rightarrow> 'd storages \<Rightarrow>
   'a list api_result \<times> 'd storages" where
  "map_smarts ops s deser mapper [] w = (Returned [], w)"
| "map_smarts ops s deser mapper (trid # trids) w =
     (let (tr, w) = loadTransaction ops s trid w
      in case fetch_smart deser tr of None \<Rightarrow> (Raised, w)
         | Some smart \<Rightarrow>
             (case map_smarts ops s deser mapper trids w of
                (Returned out, w) \<Rightarrow> (Returned (mapper smart # out), w)
              | (Raised, w) \<Rightarrow> (Raised, w)))"

definition get_mapped_deployer_smart ::
  "('d, 'i) database_ops \<Rightarrow> nat \<Rightarrow> (string \<Rightarrow> smart_contract option) \<Rightarrow> address \<Rightarrow> (smart_contract \<Rightarrow> 'a) \<Rightarrow> api_handler \<Rightarrow> 'd storages \<Rightarrow>
   ('a list api_result \<times> api_handler \<times> 'd storages) option" where
  "get_mapped_deployer_smart ops s deser deployer mapper h w =
     Option.bind (update_smart_caches ops s deser h w) (\<lambda>(ok, h, w).
       if \<not> ok then Some (Raised, h, w)
       else (let (trids, deployed) = subscript address_lt deployer [] (ah_deployed_by_creator h);
                 h = h\<lparr>ah_deployed_by_creator := deployed\<rparr>;
                 (out, w) = map_smarts ops s deser mapper trids w
             in Some (out, h, w)))"

fun with_status :: "'a api_result \<Rightarrow> ('a \<times> api_response) api_result" where
  "with_status (Returned out) = Returned (out, SetResponseStatus SUCCESS [])"
| "with_status Raised = Raised"

definition SmartContractsListGet ::
  "('d, 'i) database_ops \<Rightarrow> nat \<Rightarrow> (string \<Rightarrow> smart_contract option) \<Rightarrow> byte_array \<Rightarrow> string \<Rightarrow> api_handler \<Rightarrow> 'd storages \<Rightarrow>
   ((smart_contract list \<times> api_response) api_result \<times> api_handler \<times> 'd storages) option" where
  "SmartContractsListGet ops s deser rest deployer h w =
     Option.bind (get_mapped_deployer_smart ops s deser (getAddressFromKey (c_str rest deployer)) (\<lambda>smart. smart) h w)
       (\<lambda>(out, h, w). Some (with_status out, h, w))"

definition SmartContractAddressesListGet ::
  "('d, 'i) database_ops \<Rightarrow> nat \<Rightarrow> (string \<Rightarrow> smart_contract option) \<Rightarrow> byte_array \<Rightarrow> string \<Rightarrow> api_handler \<Rightarrow> 'd storages \<Rightarrow>
   ((string list \<times> api_response) api_result \<times> api_handler \<times> 'd storages) option" where
  "SmartContractAddressesListGet ops s deser rest deployer h w =
     Option.bind (get_mapped_deployer_smart ops s deser (getAddressFromKey (c_str rest deployer)) sc_address h w)
       (\<lambda>(out, h, w). Some (with_status out, h, w))"

subsection \<open>Sending a transaction\<close>

datatype api_effect =
  SendWalletTransaction transaction | OpenTransport | ExecuteByteCode string string string string "string list"

type_synonym executor = "string \<Rightarrow> string \<Rightarrow> string \<Rightarrow> string \<Rightarrow> string list \<Rightarrow> string option"

text \<open>The contract that is sent over the network, from the contract in the request and the last state of it, or nothing if
  a contract is deployed twice or called before it is deployed.\<close>

definition contract_for_net :: "api_transaction \<Rightarrow> smart_contract \<Rightarrow> smart_contract \<Rightarrow> smart_contract option" where
  "contract_for_net tr smart_for_executor smart_for_net =
     (let input_smart = (if sc_method (at_smartContract tr) \<noteq> [] then (at_smartContract tr)\<lparr>sc_byteCode := [], sc_sourceCode := []\<rparr>
                         else at_smartContract tr);
          deploy = is_smart_deploy input_smart
      in if (sc_address smart_for_executor = []) = deploy
         then (let net = (if deploy then smart_for_net\<lparr>sc_byteCode := sc_byteCode input_smart, sc_sourceCode := sc_sourceCode input_smart\<rparr>
                          else smart_for_net)
               in Some (net\<lparr>sc_address := at_target tr, sc_hashState := sc_hashState input_smart, sc_method := sc_method input_smart,
                            sc_params := sc_params input_smart\<rparr>))
         else None)"

text \<open>The transaction with the contract, the call of the executor, and the transaction with the new state.  \<open>open_ok\<close> tells
  whether the connection to the executor can be opened.\<close>

definition flow_execute ::
  "executor \<Rightarrow> (smart_contract \<Rightarrow> string) \<Rightarrow> bool \<Rightarrow> transaction \<Rightarrow> smart_contract \<Rightarrow> smart_contract \<Rightarrow> api_handler \<Rightarrow>
   api_response api_result \<times> api_effect list \<times> api_handler" where
  "flow_execute exec ser open_ok t smart_for_executor smart_for_net h =
     (let t = set_amount (amount_of_int 1) (snd (tr_add_user_field 0 (UF_String (ser smart_for_net)) t));
          sent = [SendWalletTransaction t];
          opening = (if \<not> ah_transport_opened h then [OpenTransport] else []);
          opened = (ah_transport_opened h \<or> open_ok);
          h = h\<lparr>ah_transport_opened := True\<rparr>;
          meth = (if sc_method smart_for_net = [] then ''initialize'' else sc_method smart_for_net)
      in if \<not> opened then (Raised, sent @ opening, h)
         else let call = ExecuteByteCode (sc_address smart_for_net) (sc_byteCode smart_for_executor) (sc_contractState smart_for_net)
                           meth (sc_params smart_for_net)
              in case exec (sc_address smart_for_net) (sc_byteCode smart_for_executor) (sc_contractState smart_for_net)
                        meth (sc_params smart_for_net) of
                   None \<Rightarrow> (Raised, sent @ opening @ [call], h)
                 | Some contractState \<Rightarrow>
                     (let new_smart = smart_contract_default\<lparr>sc_contractState := contractState, sc_method := sc_method smart_for_net,
                            sc_params := sc_params smart_for_net, sc_address := sc_address smart_for_net\<rparr>;
                          redeploy = snd (tr_add_user_field 0 (UF_String (ser new_smart)) t)
                      in (Returned (SetResponseStatus SUCCESS []), sent @ opening @ [call, SendWalletTransaction redeploy], h)))"

definition flow_contract ::
  "('d, 'i) database_ops \<Rightarrow> nat \<Rightarrow> (string \<Rightarrow> smart_contract option) \<Rightarrow> executor \<Rightarrow> (smart_contract \<Rightarrow> string) \<Rightarrow> bool \<Rightarrow>
   api_transaction \<Rightarrow> transaction \<Rightarrow> api_handler \<Rightarrow> 'd storages \<Rightarrow>
   (api_response api_result \<times> api_effect list \<times> api_handler \<times> 'd storages) option" where
  "flow_contract ops s deser exec ser open_ok tr t h w =
     Option.bind (update_smart_caches ops s deser h w) (\<lambda>(ok, h, w).
       if \<not> ok then Some (Raised, [], h, w)
       else (let (trid, origin) = subscript (<) (at_target tr) transaction_id_default (ah_smart_origin h);
                 h = h\<lparr>ah_smart_origin := origin\<rparr>;
                 (tr1, w) = loadTransaction ops s trid w
             in case fetch_smart deser tr1 of None \<Rightarrow> Some (Raised, [], h, w)
                | Some smart_for_executor \<Rightarrow>
                    (let (trid, state) = subscript (<) (at_target tr) transaction_id_default (ah_smart_state h);
                         h = h\<lparr>ah_smart_state := state\<rparr>;
                         (tr2, w) = loadTransaction ops s trid w
                     in case fetch_smart deser tr2 of None \<Rightarrow> Some (Raised, [], h, w)
                        | Some smart_for_net \<Rightarrow>
                            (case contract_for_net tr smart_for_executor smart_for_net of
                               None \<Rightarrow> Some (Returned (SetResponseStatus FAILURE []), [], h, w)
                             | Some net \<Rightarrow>
                                 (let (res, effs, h) = flow_execute exec ser open_ok t smart_for_executor net h
                                  in Some (res, effs, h, w))))))"

text \<open>\<open>rest_source\<close> and \<open>rest_target\<close> are the memory behind the texts of the two keys.\<close>

definition TransactionFlow ::
  "('d, 'i) database_ops \<Rightarrow> nat \<Rightarrow> (string \<Rightarrow> smart_contract option) \<Rightarrow> executor \<Rightarrow> (smart_contract \<Rightarrow> string) \<Rightarrow> bool \<Rightarrow>
   byte_array \<Rightarrow> byte_array \<Rightarrow> api_transaction \<Rightarrow> api_handler \<Rightarrow> balances_cache \<Rightarrow> 'd storages \<Rightarrow>
   (api_response api_result \<times> api_effect list \<times> api_handler \<times> balances_cache \<times> 'd storages) option" where
  "TransactionFlow ops s deser exec ser open_ok rest_source rest_target tr h cache w =
     (if at_target tr = ''accXpfvxnZa8txuxpjyPqzBaqYPHqYu2rwn34lL8rjI='' then Some (Returned api_response_default, [], h, cache, w)
      else let source = getAddressFromKey (c_str rest_source (at_source tr))
           in case amount_of_ratio (aa_integral (at_amount tr)) (aa_fraction (at_amount tr)) 1000000000000000000 of
                Inl _ \<Rightarrow> Some (Raised, [], h, cache, w)
              | Inr amount \<Rightarrow>
                  Option.bind (getBalance ops s source cache w) (\<lambda>(balance, cache, w).
                    let t = set_target (getAddressFromKey (c_str rest_target (at_target tr)))
                              (set_source source (set_currency (Currency ''CS'') (set_balance balance (set_amount amount transaction_default))))
                    in if sc_address (at_smartContract tr) = []
                       then Some (Returned (SetResponseStatus SUCCESS []), [SendWalletTransaction t], h, cache, w)
                       else Option.bind (flow_contract ops s deser exec ser open_ok tr t h w) (\<lambda>(res, effs, h, w).
                              Some (res, effs, h, cache, w))))"

subsection \<open>What the caches hold\<close>

definition contracts :: "(string \<Rightarrow> smart_contract option) \<Rightarrow> transaction list \<Rightarrow> (transaction \<times> smart_contract) list" where
  "contracts deser ts = map (\<lambda>t. (t, the (fetch_smart deser t))) (filter is_smart ts)"

definition readable :: "(string \<Rightarrow> smart_contract option) \<Rightarrow> transaction list \<Rightarrow> bool" where
  "readable deser ts \<longleftrightarrow> (\<forall>t \<in> set ts. is_smart t \<longrightarrow> fetch_smart deser t \<noteq> None)"

text \<open>The deployments of an address or of a contract and the states of a contract, from the newest to the oldest.\<close>

definition deployed_ids :: "address \<Rightarrow> (transaction \<times> smart_contract) list \<Rightarrow> transaction_id list" where
  "deployed_ids a cs = map (tr_id \<circ> fst) (filter (\<lambda>(t, smart). is_smart_deploy smart \<and> tr_source t = a) cs)"

definition origin_ids :: "string \<Rightarrow> (transaction \<times> smart_contract) list \<Rightarrow> transaction_id list" where
  "origin_ids a cs = map (tr_id \<circ> fst) (filter (\<lambda>(t, smart). is_smart_deploy smart \<and> sc_address smart = a) cs)"

definition state_ids :: "string \<Rightarrow> (transaction \<times> smart_contract) list \<Rightarrow> transaction_id list" where
  "state_ids a cs = map (tr_id \<circ> fst) (filter (\<lambda>(t, smart). \<not> is_smart_deploy smart \<and> sc_address smart = a) cs)"

definition deployed_by :: "api_handler \<Rightarrow> address \<Rightarrow> transaction_id list" where
  "deployed_by h a = fst (subscript address_lt a [] (ah_deployed_by_creator h))"

definition origin_of :: "api_handler \<Rightarrow> string \<Rightarrow> transaction_id" where
  "origin_of h a = fst (subscript (<) a transaction_id_default (ah_smart_origin h))"

definition state_of :: "api_handler \<Rightarrow> string \<Rightarrow> transaction_id" where
  "state_of h a = fst (subscript (<) a transaction_id_default (ah_smart_state h))"

definition handler_sorted :: "api_handler \<Rightarrow> bool" where
  "handler_sorted h \<longleftrightarrow> map_sorted (<) (ah_smart_origin h) \<and> map_sorted (<) (ah_smart_state h) \<and>
     map_sorted address_lt (ah_deployed_by_creator h)"

lemma subscript_value: "fst (subscript lt k d m) = (case map_find lt k m of None \<Rightarrow> d | Some v \<Rightarrow> v)"
  by (simp add: subscript_def split: option.split)

text \<open>The scan of \<open>us\<close>, from a handler \<open>h\<close>.\<close>

definition scanned :: "api_handler \<Rightarrow> (transaction \<times> smart_contract) list \<Rightarrow> contract_scan \<Rightarrow> bool" where
  "scanned h us sn \<longleftrightarrow> handler_sorted (sn_handler sn) \<and> map_sorted address_lt (sn_poss sn) \<and>
     (\<forall>a. fst (subscript address_lt a 0 (sn_poss sn)) = length (deployed_ids a us)) \<and>
     (\<forall>a. deployed_by (sn_handler sn) a = deployed_ids a us @ deployed_by h a) \<and>
     (\<forall>a. origin_of (sn_handler sn) a = (if origin_ids a us = [] then origin_of h a else last (origin_ids a us))) \<and>
     (\<forall>a. state_of (sn_handler sn) a = (if state_ids a us = [] then state_of h a else hd (state_ids a us))) \<and>
     (\<forall>a. a \<in> sn_state_updated sn \<longleftrightarrow> state_ids a us \<noteq> []) \<and>
     ah_transport_opened (sn_handler sn) = ah_transport_opened h"

lemma ids_snoc:
  "deployed_ids a (us @ [(t, smart)]) = deployed_ids a us @ (if is_smart_deploy smart \<and> tr_source t = a then [tr_id t] else [])"
  "origin_ids b (us @ [(t, smart)]) = origin_ids b us @ (if is_smart_deploy smart \<and> sc_address smart = b then [tr_id t] else [])"
  "state_ids b (us @ [(t, smart)]) = state_ids b us @ (if \<not> is_smart_deploy smart \<and> sc_address smart = b then [tr_id t] else [])"
  by (simp_all add: deployed_ids_def origin_ids_def state_ids_def)

lemma scan_contract_scanned:
  assumes "scanned h us sn"
  shows "scanned h (us @ [(t, smart)]) (scan_contract t smart sn)"
  using assms
  by (auto simp: scanned_def scan_contract_def ids_snoc handler_sorted_def deployed_by_def origin_of_def state_of_def
      subscript_value address_key.sorted_assign address_key.find_assign linorder_key.sorted_assign linorder_key.find_assign
      Let_def case_prod_beta)

lemma contracts_simps [simp]:
  "contracts deser [] = []"
  "contracts deser (t # ts) = (if is_smart t then [(t, the (fetch_smart deser t))] else []) @ contracts deser ts"
  "contracts deser (ts @ ts') = contracts deser ts @ contracts deser ts'"
  by (simp_all add: contracts_def)

lemma ids_append:
  "deployed_ids a (us @ vs) = deployed_ids a us @ deployed_ids a vs"
  "state_ids b (us @ vs) = state_ids b us @ state_ids b vs"
  by (simp_all add: deployed_ids_def state_ids_def)

lemma scan_transactions_scanned:
  "readable deser ts \<Longrightarrow> scanned h us sn \<Longrightarrow>
    \<exists>sn'. scan_transactions deser ts sn = (True, sn') \<and> scanned h (us @ contracts deser ts) sn'"
proof (induction ts arbitrary: us sn)
  case (Cons t ts)
  show ?case
  proof (cases "is_smart t")
    case True
    then obtain smart where smart: "fetch_smart deser t = Some smart"
      using Cons.prems(1) by (auto simp: readable_def)
    have "readable deser ts"
      using Cons.prems(1) by (simp add: readable_def)
    from Cons.IH [OF this scan_contract_scanned [OF Cons.prems(2), of t smart]] True smart show ?thesis
      by simp
  next
    case False
    then show ?thesis
      using Cons by (simp add: readable_def)
  qed
qed simp

definition hash_after :: "pool_hash \<Rightarrow> pool list \<Rightarrow> pool_hash" where
  "hash_after h ps = (if ps = [] then h else p_previous_hash (last ps))"

lemma hash_after_Cons: "hash_after h (p # ps) = hash_after (p_previous_hash p) ps"
  by (simp add: hash_after_def)

lemma newest_first_append: "newest_first (ps @ qs) = newest_first ps @ newest_first qs"
  by (simp add: newest_first_def)

context database_reader
begin

lemma update_loop_chain:
  "chain (view ops st0) h (newer @ older) \<Longrightarrow> stored (view ops st0) \<Longrightarrow> w s = Some st \<Longrightarrow> same_view ops st0 st \<Longrightarrow>
    \<forall>p \<in> set newer. p_hash p \<noteq> upto_ph \<Longrightarrow> upto_ph = hash_after h newer \<Longrightarrow> readable deser (newest_first newer) \<Longrightarrow> scanned h0 us sn \<Longrightarrow>
    \<exists>sn' w'. update_loop ops s deser upto_ph h sn w = Some (True, sn', w') \<and>
      scanned h0 (us @ contracts deser (newest_first newer)) sn'"
proof (induction newer arbitrary: h w st us sn)
  case Nil
  then show ?case
    by (subst update_loop.simps) (simp add: hash_after_def)
next
  case (Cons p newer)
  have p: "p = view ops st0 h" "p_is_valid p" "chain (view ops st0) (p_previous_hash p) (newer @ older)"
    using Cons.prems(1) by (auto elim: chain_ConsE)
  then have "h \<noteq> upto_ph"
    using Cons.prems(2,5) by (auto simp: stored_def)
  have "readable deser (rev (p_transactions p))" "readable deser (newest_first newer)"
    using Cons.prems(7) by (simp_all add: readable_def)
  note read = this
  obtain sn1 where sn1: "scan_transactions deser (rev (p_transactions p)) sn = (True, sn1)"
    "scanned h0 (us @ contracts deser (rev (p_transactions p))) sn1"
    using scan_transactions_scanned [OF read(1) Cons.prems(8)] by blast
  note step = load_block_step [where w = w and s = s, OF Cons.prems(3,4), of h]
  let ?st = "snd (pool_load ops h st)"
  have "(w(s \<mapsto> ?st)) s = Some ?st" "\<forall>q \<in> set newer. p_hash q \<noteq> upto_ph" "upto_ph = hash_after (p_previous_hash p) newer"
    using Cons.prems(5,6) by (simp_all add: hash_after_Cons)
  from Cons.IH [of "p_previous_hash p" "w(s \<mapsto> ?st)" ?st, OF p(3) Cons.prems(2) this(1) step(2) this(2,3) read(2) sn1(2)]
  obtain sn' w' where "update_loop ops s deser upto_ph (p_previous_hash p) sn1 (w(s \<mapsto> ?st)) = Some (True, sn', w')"
    "scanned h0 ((us @ contracts deser (rev (p_transactions p))) @ contracts deser (newest_first newer)) sn'"
    by blast
  then show ?case
    using \<open>h \<noteq> upto_ph\<close> by (subst update_loop.simps) (simp add: step(1) p(1) [symmetric] sn1(1))
qed

end

definition newest_id :: "transaction_id list \<Rightarrow> transaction_id" where
  "newest_id is = (case is of [] \<Rightarrow> transaction_id_default | i # _ \<Rightarrow> i)"

lemma newest_id_append: "newest_id (xs @ ys) = (if xs = [] then newest_id ys else hd xs)"
  by (cases xs) (simp_all add: newest_id_def)

text \<open>What the caches are to hold after the chain \<open>ps\<close>: all deployments of every address, and the newest state of every
  contract.\<close>

definition caches_ok :: "(string \<Rightarrow> smart_contract option) \<Rightarrow> pool list \<Rightarrow> api_handler \<Rightarrow> bool" where
  "caches_ok deser ps h \<longleftrightarrow> handler_sorted h \<and>
     (\<forall>a. deployed_by h a = deployed_ids a (contracts deser (newest_first ps))) \<and>
     (\<forall>a. state_of h a = newest_id (state_ids a (contracts deser (newest_first ps))))"

lemma smart_caches_update:
  assumes "w s = Some st" "chain (view (berkeley_ops api) st) (s_last_hash st) (newer @ older)" "stored (view (berkeley_ops api) st)"
    and "\<forall>p \<in> set newer. p_hash p \<noteq> ah_last_seen_contract_block h" "ah_last_seen_contract_block h = hash_after (s_last_hash st) newer"
    and "readable deser (newest_first newer)" "caches_ok deser older h"
  shows "\<exists>h' w'. update_smart_caches (berkeley_ops api) s deser h w = Some (True, h', w') \<and> caches_ok deser (newer @ older) h' \<and>
    ah_last_seen_contract_block h' = s_last_hash st \<and>
    (\<forall>a. origin_of h' a = (let ids = origin_ids a (contracts deser (newest_first newer)) in if ids = [] then origin_of h a else last ids))"
proof -
  let ?sn = "\<lparr>sn_poss = [], sn_state_updated = {}, sn_handler = h\<rparr>"
  have "scanned h [] ?sn"
    using assms(7) by (simp add: scanned_def caches_ok_def subscript_value deployed_ids_def origin_ids_def state_ids_def)
  from berkeley.update_loop_chain [of api st "s_last_hash st" newer older w s st, OF assms(2,3,1) same_view_refl assms(4-6) this]
  obtain sn w' where sn: "update_loop (berkeley_ops api) s deser (ah_last_seen_contract_block h) (s_last_hash st) ?sn w = Some (True, sn, w')"
    "scanned h (contracts deser (newest_first newer)) sn"
    by auto
  define h' where "h' = (sn_handler sn)\<lparr>ah_last_seen_contract_block := s_last_hash st\<rparr>"
  have "update_smart_caches (berkeley_ops api) s deser h w = Some (True, h', w')"
    using assms(1) sn(1) by (simp add: update_smart_caches_def getLastHash_def h'_def)
  moreover have same: "handler_sorted h' = handler_sorted (sn_handler sn)" "deployed_by h' = deployed_by (sn_handler sn)"
    "state_of h' = state_of (sn_handler sn)" "origin_of h' = origin_of (sn_handler sn)"
    by (simp_all add: h'_def handler_sorted_def deployed_by_def state_of_def origin_of_def fun_eq_iff)
  moreover have "caches_ok deser (newer @ older) h'"
    using sn(2) assms(7) unfolding caches_ok_def same
    by (auto simp: scanned_def newest_first_append ids_append newest_id_append)
  moreover have "ah_last_seen_contract_block h' = s_last_hash st"
    by (simp add: h'_def)
  ultimately show ?thesis
    using sn(2) by (intro exI [of _ h'] exI [of _ w']) (simp add: scanned_def Let_def)
qed

text \<open>C11: the update of the caches of contracts, which looks only at the blocks since the last one, leaves what a scan of
  the whole chain would: the deployments of every address from the newest to the oldest, and the newest state
  of every contract.  The origin of a contract is its oldest deployment among the new blocks, if there is one.\<close>

theorem smart_caches_incremental:
  assumes "w s = Some st" "chain (view (berkeley_ops api) st) (s_last_hash st) (newer @ older)" "stored (view (berkeley_ops api) st)"
    and "\<forall>p \<in> set newer. p_hash p \<noteq> ah_last_seen_contract_block h" "ah_last_seen_contract_block h = hash_after (s_last_hash st) newer"
    and "readable deser (newest_first newer)" "caches_ok deser older h"
  shows "\<exists>h' w'. update_smart_caches (berkeley_ops api) s deser h w = Some (True, h', w') \<and> caches_ok deser (newer @ older) h' \<and>
    ah_last_seen_contract_block h' = s_last_hash st \<and>
    (\<forall>a. origin_of h' a = (let ids = origin_ids a (contracts deser (newest_first newer)) in if ids = [] then origin_of h a else last ids))"
  using smart_caches_update [of w s st api newer older h deser, OF assms] .

text \<open>A storage of one block.\<close>

definition one_block :: "pool \<Rightarrow> (u32 \<rightharpoonup> byte_array, byte_array \<rightharpoonup> u32) berkeley storage" where
  "one_block q = storage_default
     \<lparr>s_db := Some \<lparr>db_blocks = Some [1 \<mapsto> put_pool q], db_seq_no = Some [hash_value (calc_from_data (put_pool q)) \<mapsto> 1],
        db_last_error = DbNoError\<rparr>, s_last_hash := calc_from_data (put_pool q)\<rparr>"

lemma one_block_last [simp]: "s_last_hash (one_block q) = calc_from_data (put_pool q)"
  by (simp add: one_block_def)

lemma one_block_view:
  "view (berkeley_ops map_api) (one_block q) (calc_from_data (put_pool q)) = pool_from_binary (put_pool q)"
  "h \<noteq> calc_from_data (put_pool q) \<Longrightarrow> view (berkeley_ops map_api) (one_block q) h = pool_default"
proof -
  show "view (berkeley_ops map_api) (one_block q) (calc_from_data (put_pool q)) = pool_from_binary (put_pool q)"
    by (simp add: pool_load_result one_block_def storage_default_def berkeley_ops_def berkeley_is_open_def
        berkeley_get_def map_api_def)
  assume "h \<noteq> calc_from_data (put_pool q)"
  then have "hash_value h \<noteq> hash_value (calc_from_data (put_pool q))"
    using pool_hash.expand by blast
  then show "view (berkeley_ops map_api) (one_block q) h = pool_default"
    by (simp add: pool_load_result one_block_def storage_default_def berkeley_ops_def berkeley_is_open_def
        berkeley_get_def map_api_def)
qed

lemma one_block_binary:
  "pool_ok q \<Longrightarrow> pool_from_binary (put_pool q) = update_transactions ((pool_body q)\<lparr>p_binary := put_pool q\<rparr>)"
  using get_put_pool [of q "[]"] by (simp add: pool_from_binary_def)

lemma one_block_chain:
  assumes "pool_ok q" "p_previous_hash q = PoolHash []"
  shows "chain (view (berkeley_ops map_api) (one_block q)) (calc_from_data (put_pool q)) [pool_from_binary (put_pool q)]"
    "stored (view (berkeley_ops map_api) (one_block q))"
proof -
  let ?load = "view (berkeley_ops map_api) (one_block q)" and ?h = "calc_from_data (put_pool q)"
  have p: "p_is_valid (pool_from_binary (put_pool q))" "p_previous_hash (pool_from_binary (put_pool q)) = PoolHash []"
    "p_hash (pool_from_binary (put_pool q)) = ?h"
    by (simp_all add: one_block_binary [OF assms(1)]) (simp_all add: pool_body_def assms(2))
  have "?load (PoolHash []) = pool_default"
    by (rule one_block_view(2)) (rule calc_not_empty)
  then have "chain ?load (PoolHash []) []"
    by (intro chain_end) (simp add: pool_default_def)
  then have "chain ?load ?h [?load ?h]"
    using p by (intro chain_pool) (simp_all add: one_block_view(1))
  then show "chain ?load ?h [pool_from_binary (put_pool q)]"
    by (simp only: one_block_view(1))
  have "p_hash (?load h) = h" if "p_is_valid (?load h)" for h
  proof (cases "h = ?h")
    case True
    then show ?thesis
      using p(3) by (simp only: one_block_view(1))
  next
    case False
    then show ?thesis
      using that by (simp add: one_block_view(2) pool_default_def)
  qed
  then show "stored ?load"
    by (simp add: stored_def)
qed

definition contract_pool :: pool where
  "contract_pool = (pool_new (PoolHash []) 0 None)
     \<lparr>p_transactions := [snd (tr_add_user_field 0 (UF_String ''code'')
        (transaction_new 1 (Address (replicate 32 1)) (Address (replicate 32 2)) (Currency ''CS'')
          (amount_of_int 3) (amount_of_int 1) (amount_of_int 0) []))]\<rparr>"

definition sample_contract :: smart_contract where
  "sample_contract = smart_contract_default\<lparr>sc_address := ''c'', sc_byteCode := ''b''\<rparr>"

theorem smart_caches_incremental_witness:
  "\<exists>h' w'. update_smart_caches (berkeley_ops map_api) 0 (\<lambda>_. Some sample_contract) api_handler_empty [0 \<mapsto> one_block contract_pool] =
      Some (True, h', w') \<and>
    length (deployed_by h' (Address (replicate 32 1))) = 1"
proof -
  let ?b = "pool_from_binary (put_pool contract_pool)" and ?deser = "\<lambda>_. Some sample_contract"
  have ok: "pool_ok contract_pool" "p_previous_hash contract_pool = PoolHash []"
    by (simp_all add: contract_pool_def pool_new_def pool_default_def pool_ok_def map_ok_def map_sorted_Cons
        transaction_ok_def transaction_new_def transaction_priv_def tr_add_user_field_def user_field_is_valid_def user_field_type_def user_field_ok_def)
  have prev: "p_previous_hash ?b = PoolHash []" "p_hash ?b = calc_from_data (put_pool contract_pool)"
    by (simp_all add: one_block_binary [OF ok(1)]) (simp_all add: pool_body_def ok(2))
  have "length (deployed_ids (Address (replicate 32 1)) (contracts ?deser (newest_first [?b]))) = 1"
    unfolding one_block_binary [OF ok(1)]
    by (simp add: contract_pool_def pool_body_def pool_new_def pool_default_def update_transactions_def
        transaction_update_id_def transaction_copy_def transaction_new_def transaction_priv_def tr_add_user_field_def
        user_field_is_valid_def user_field_type_def is_smart_def tr_user_field_def deployed_ids_def is_smart_deploy_def
        sample_contract_def fetch_smart_def transaction_is_valid_def address_is_valid_def currency_is_valid_def address_eq_def
        amount_ge_def amount_lt_def amount_of_int_def Let_def word_sless_alt id_lt_def)
  moreover have "caches_ok ?deser [] api_handler_empty"
    by (simp add: caches_ok_def handler_sorted_def api_handler_empty_def deployed_by_def state_of_def subscript_value
        deployed_ids_def state_ids_def newest_id_def)
  moreover have "readable ?deser (newest_first [?b])"
    by (simp add: readable_def fetch_smart_def)
  moreover have "\<forall>p \<in> set [?b]. p_hash p \<noteq> ah_last_seen_contract_block api_handler_empty"
    using prev(2) calc_not_empty [of "put_pool contract_pool"] by (simp add: api_handler_empty_def)
  moreover have "ah_last_seen_contract_block api_handler_empty = hash_after (s_last_hash (one_block contract_pool)) [?b]"
    using prev(1) by (simp add: api_handler_empty_def hash_after_def)
  moreover have "chain (view (berkeley_ops map_api) (one_block contract_pool)) (s_last_hash (one_block contract_pool)) ([?b] @ [])"
    "stored (view (berkeley_ops map_api) (one_block contract_pool))"
    using one_block_chain [OF ok] by simp_all
  ultimately show ?thesis
    using smart_caches_incremental [of "[0 \<mapsto> one_block contract_pool]" 0 "one_block contract_pool" map_api "[?b]" "[]" api_handler_empty ?deser]
    by (auto simp: caches_ok_def)
qed

subsection \<open>What is sent\<close>

lemma ratio_of_denominator:
  "amount_of_ratio i n 1000000000000000000 =
    (if unat n < 1000000000000000000 then Inr \<lparr>integral = i, fraction = n\<rparr>
     else Inl (Invalid_argument ''Amount::Amount(): Invalid fraction part.''))"
proof -
  have "(unat n * 1000000000000000000 + unat (1000000000000000000 :: u64) div 2) div unat (1000000000000000000 :: u64) = unat n"
    by simp
  then show ?thesis
    using amount_of_ratio_val [of 1000000000000000000 i n] by simp
qed

text \<open>The transaction made of a request, without a contract.\<close>

definition request_transaction :: "byte_array \<Rightarrow> byte_array \<Rightarrow> api_transaction \<Rightarrow> amount \<Rightarrow> transaction" where
  "request_transaction rest_source rest_target tr balance = transaction_default
     \<lparr>tr_amount := \<lparr>integral = aa_integral (at_amount tr), fraction = aa_fraction (at_amount tr)\<rparr>, tr_balance := balance,
      tr_currency := Currency ''CS'', tr_source := getAddressFromKey (c_str rest_source (at_source tr)),
      tr_target := getAddressFromKey (c_str rest_target (at_target tr))\<rparr>"

lemma request_transaction_set:
  "set_target (getAddressFromKey (c_str rest_target (at_target tr)))
     (set_source (getAddressFromKey (c_str rest_source (at_source tr))) (set_currency (Currency ''CS'')
       (set_balance balance (set_amount \<lparr>integral = aa_integral (at_amount tr), fraction = aa_fraction (at_amount tr)\<rparr> transaction_default)))) =
   request_transaction rest_source rest_target tr balance"
  by (simp add: request_transaction_def setter_defs transaction_default_def)

text \<open>C36: a transfer is handed to the solver as one transaction between the addresses of the two keys, with exactly the
  amount of the request and with the balance of the sender over the whole chain, and the caches of
  contracts are not touched; a request whose fraction is not below one throws, and nothing is sent.  A request to
  the one target whose key is written in the code is answered at once with the default answer, nothing is sent and
  nothing is thrown, whatever its amount is.\<close>

theorem TransactionFlow_transfer:
  assumes "w s = Some st" "chain (view (berkeley_ops api) st) (s_last_hash st) ps"
    and "\<forall>p \<in> set ps. length (p_transactions p) < 2 ^ 32"
    and "\<forall>t \<in> set (newest_first ps). amount_ok (tr_amount t) \<and> amount_ok (tr_balance t)"
    and "ps \<noteq> [] \<longrightarrow> p_hash (hd ps) = s_last_hash st" "cache_ok ps cache"
    and "sc_address (at_smartContract tr) = []"
  shows "if at_target tr = ''accXpfvxnZa8txuxpjyPqzBaqYPHqYu2rwn34lL8rjI=''
    then TransactionFlow (berkeley_ops api) s deser exec ser open_ok rest_source rest_target tr h cache w =
      Some (Returned api_response_default, [], h, cache, w)
    else if unat (aa_fraction (at_amount tr)) < 1000000000000000000
    then \<exists>balance cache' w'.
      TransactionFlow (berkeley_ops api) s deser exec ser open_ok rest_source rest_target tr h cache w =
        Some (Returned (SetResponseStatus SUCCESS []), [SendWalletTransaction (request_transaction rest_source rest_target tr balance)],
          h, cache', w') \<and>
      amount_stands balance (balance_of (getAddressFromKey (c_str rest_source (at_source tr))) ps) \<and> cache_ok ps cache'
    else TransactionFlow (berkeley_ops api) s deser exec ser open_ok rest_source rest_target tr h cache w =
        Some (Raised, [], h, cache, w)"
proof (cases "at_target tr = ''accXpfvxnZa8txuxpjyPqzBaqYPHqYu2rwn34lL8rjI='' \<or>
    \<not> unat (aa_fraction (at_amount tr)) < 1000000000000000000")
  case True
  then show ?thesis
    by (auto simp: TransactionFlow_def ratio_of_denominator)
next
  case False
  let ?source = "getAddressFromKey (c_str rest_source (at_source tr))"
  have ok: "\<forall>t \<in> set (newest_first ps). amounts_ok t"
    using assms(4) by (auto simp: amounts_ok_def amount_ok_def amount_weak_def)
  obtain r cache' w' where run: "getBalance (berkeley_ops api) s ?source cache w = Some (r, cache', w')"
    "amount_stands r (balance_of ?source ps)" "cache_ok ps cache'"
    using berkeley.getBalance_chain [of w s st, OF assms(1,2) chain_counted [OF assms(2,3)] ok chain_sealed [OF assms(2)] assms(5,6),
        of ?source] by blast
  then show ?thesis
    using False assms(7) by (auto simp: TransactionFlow_def ratio_of_denominator request_transaction_set)
qed

definition sample_transfer :: api_transaction where
  "sample_transfer = api_transaction_default\<lparr>at_source := ''from'', at_target := ''to'', at_amount := \<lparr>aa_integral = 5, aa_fraction = 7\<rparr>\<rparr>"

lemma sample_amounts: "\<forall>t \<in> set (newest_first [sample_sealed]). amount_ok (tr_amount t) \<and> amount_ok (tr_balance t)"
  unfolding sample_sealed_eq
  by (simp add: pool_body_def sample_pool_def pool_new_def pool_default_def update_transactions_def Let_def transaction_update_id_def
      transaction_copy_def transaction_new_def transaction_priv_def amount_of_int_def upt_rec amount_ok_def)

theorem TransactionFlow_transfer_witness:
  "\<exists>t cache' w'. TransactionFlow (berkeley_ops map_api) 0 (\<lambda>_. None) (\<lambda>_ _ _ _ _. None) (\<lambda>_. []) False [] [] sample_transfer
      api_handler_empty [] [0 \<mapsto> sample_storage] =
    Some (Returned (SetResponseStatus SUCCESS []), [SendWalletTransaction t], api_handler_empty, cache', w') \<and>
    tr_amount t = \<lparr>integral = 5, fraction = 7\<rparr>"
proof -
  have "p_hash (hd [sample_sealed]) = s_last_hash sample_storage"
    by (simp add: sample_sealed_fields(4)) (simp add: sample_storage_def)
  then show ?thesis
    using TransactionFlow_transfer [of "[0 \<mapsto> sample_storage]" 0 sample_storage map_api "[sample_sealed]" "[]" sample_transfer
        "\<lambda>_. None" "\<lambda>_ _ _ _ _. None" "\<lambda>_. []" False "[]" "[]" api_handler_empty, OF _ sample_chain _ sample_amounts]
      sample_sealed_fields(3)
    by (auto simp: cache_ok_def map_sorted_def sample_transfer_def api_transaction_default_def smart_contract_default_def
        request_transaction_def)
qed

lemma load_default_transaction: "fst (loadTransaction ops s transaction_id_default w) = transaction_default"
  by (simp add: loadTransaction_def storage_transaction_def transaction_id_is_valid_def transaction_id_default_def
      pool_hash_is_empty_def)

lemma fetch_default: "fetch_smart deser transaction_default = Some smart_contract_default"
  by (simp add: fetch_smart_def)

text \<open>The contract of a deployment, and the transaction that carries a contract.\<close>

definition deployed_contract :: "api_transaction \<Rightarrow> smart_contract" where
  "deployed_contract tr = (at_smartContract tr)\<lparr>sc_address := at_target tr, sc_contractState := []\<rparr>"

definition contract_transaction :: "(smart_contract \<Rightarrow> string) \<Rightarrow> smart_contract \<Rightarrow> transaction \<Rightarrow> transaction" where
  "contract_transaction ser smart t =
     t\<lparr>tr_user_fields := map_assign id_lt 0 (UF_String (ser smart)) (tr_user_fields t), tr_amount := amount_of_int 1\<rparr>"

lemma add_contract: "\<not> tr_read_only t \<Longrightarrow> snd (tr_add_user_field 0 (UF_String x) t) = t\<lparr>tr_user_fields := map_assign id_lt 0 (UF_String x) (tr_user_fields t)\<rparr>"
  by (simp add: tr_add_user_field_def user_field_is_valid_def user_field_type_def)

lemma assign_twice: "map_assign lt k v (map_assign lt k u m) = map_assign lt k v m" if "key_order lt"
  using key_order.irrefl [OF that] key_order.asym [OF that] by (induction m) auto

lemma flow_execute_deploy:
  assumes "\<not> tr_read_only t" "sc_method (at_smartContract tr) = []"
  shows "flow_execute exec ser True t smart_contract_default (deployed_contract tr) h =
    (let call = exec (at_target tr) [] [] ''initialize'' (sc_params (at_smartContract tr))
     in (case call of None \<Rightarrow> Raised | Some _ \<Rightarrow> Returned (SetResponseStatus SUCCESS []),
         SendWalletTransaction (contract_transaction ser (deployed_contract tr) t) #
           (if ah_transport_opened h then [] else [OpenTransport]) @
           ExecuteByteCode (at_target tr) [] [] ''initialize'' (sc_params (at_smartContract tr)) #
           (case call of None \<Rightarrow> [] | Some state \<Rightarrow>
              [SendWalletTransaction (contract_transaction ser (smart_contract_default\<lparr>sc_contractState := state,
                 sc_params := sc_params (at_smartContract tr), sc_address := at_target tr\<rparr>) t)]),
         h\<lparr>ah_transport_opened := True\<rparr>))"
proof -
  have "key_order id_lt" ..
  note twice = assign_twice [OF this]
  have "sc_byteCode smart_contract_default = []" "sc_contractState (deployed_contract tr) = []"
    "sc_address (deployed_contract tr) = at_target tr" "sc_params (deployed_contract tr) = sc_params (at_smartContract tr)"
    "sc_method (deployed_contract tr) = []"
    using assms(2) by (simp_all add: smart_contract_default_def deployed_contract_def)
  then show ?thesis
    using assms(1)
    by (cases t) (simp add: flow_execute_def add_contract set_amount_def contract_transaction_def Let_def twice
        smart_contract_default_def split: option.split)
qed

text \<open>C37: a contract that is not known yet and has code is deployed: the solver gets a transaction with the contract, the
  executor is asked to initialise it, and the solver gets a second transaction with the state it answered.  The code
  that the executor is given is empty: it is taken from the deployment in the chain, which there is none of.\<close>

theorem TransactionFlow_deploy:
  assumes "w s = Some st" "chain (view (berkeley_ops api) st) (s_last_hash st) (newer @ older)" "stored (view (berkeley_ops api) st)"
    and "\<forall>p \<in> set newer. p_hash p \<noteq> ah_last_seen_contract_block h" "ah_last_seen_contract_block h = hash_after (s_last_hash st) newer"
    and "readable deser (newest_first newer)" "caches_ok deser older h"
    and "origin_of h (at_target tr) = transaction_id_default" "origin_ids (at_target tr) (contracts deser (newest_first newer)) = []"
    and "state_ids (at_target tr) (contracts deser (newest_first (newer @ older))) = []"
    and "\<not> tr_read_only t" "sc_method (at_smartContract tr) = []" "sc_byteCode (at_smartContract tr) \<noteq> []"
    and "exec (at_target tr) [] [] ''initialize'' (sc_params (at_smartContract tr)) = Some state"
  shows "\<exists>opening h' w'. flow_contract (berkeley_ops api) s deser exec ser True tr t h w =
    Some (Returned (SetResponseStatus SUCCESS []),
      SendWalletTransaction (contract_transaction ser (deployed_contract tr) t) # opening @
      [ExecuteByteCode (at_target tr) [] [] ''initialize'' (sc_params (at_smartContract tr)),
       SendWalletTransaction (contract_transaction ser (smart_contract_default\<lparr>sc_contractState := state,
         sc_params := sc_params (at_smartContract tr), sc_address := at_target tr\<rparr>) t)], h', w') \<and>
    set opening \<subseteq> {OpenTransport} \<and> ah_transport_opened h'"
proof -
  obtain h1 w1 where up: "update_smart_caches (berkeley_ops api) s deser h w = Some (True, h1, w1)"
    "caches_ok deser (newer @ older) h1" "origin_of h1 (at_target tr) = transaction_id_default"
    using smart_caches_update [of w s st api newer older h deser, OF assms(1-7)] assms(8,9) by auto
  have "state_of h1 (at_target tr) = transaction_id_default"
    using up(2) assms(10) by (simp add: caches_ok_def newest_id_def)
  then have "fst (subscript (<) (at_target tr) transaction_id_default (ah_smart_state h1)) = transaction_id_default"
    "fst (subscript (<) (at_target tr) transaction_id_default (ah_smart_origin h1)) = transaction_id_default"
    using up(3) by (simp_all add: state_of_def origin_of_def)
  moreover have "contract_for_net tr smart_contract_default smart_contract_default = Some (deployed_contract tr)"
    using assms(12,13) by (cases "at_smartContract tr")
      (simp add: contract_for_net_def smart_contract_default_def is_smart_deploy_def deployed_contract_def Let_def)
  ultimately show ?thesis
    using assms(14)
    by (simp add: flow_contract_def up(1) case_prod_beta Let_def load_default_transaction fetch_default
        flow_execute_deploy [OF assms(11,12)])
qed

definition sample_deployment :: api_transaction where
  "sample_deployment = sample_transfer\<lparr>at_smartContract := sample_contract\<rparr>"

theorem TransactionFlow_deploy_witness:
  "\<exists>opening t1 t2 h' w'. flow_contract (berkeley_ops map_api) 0 (\<lambda>_. None) (\<lambda>_ _ _ _ _. Some ''s'') sc_byteCode True sample_deployment
      transaction_default api_handler_empty [0 \<mapsto> one_block sample_pool] =
    Some (Returned (SetResponseStatus SUCCESS []),
      SendWalletTransaction t1 # opening @ [ExecuteByteCode ''to'' [] [] ''initialize'' [], SendWalletTransaction t2], h', w')"
proof -
  let ?st = "one_block sample_pool"
  have ok: "pool_ok sample_pool" "p_previous_hash sample_pool = PoolHash []"
    by (simp_all add: sample_pool_def pool_new_def pool_default_def pool_ok_def map_ok_def transaction_ok_def transaction_new_def
        transaction_priv_def)
  have chain: "chain (view (berkeley_ops map_api) ?st) (s_last_hash ?st) ([sample_sealed] @ [])"
    "stored (view (berkeley_ops map_api) ?st)"
    using one_block_chain [OF ok] by simp_all
  have "filter is_smart (p_transactions sample_sealed) = []"
    unfolding sample_sealed_eq
    by (simp add: pool_body_def sample_pool_def pool_new_def pool_default_def update_transactions_def Let_def transaction_update_id_def
        transaction_copy_def transaction_new_def transaction_priv_def upt_rec is_smart_def tr_user_field_def user_field_type_def)
  then have none: "\<forall>t \<in> set (newest_first [sample_sealed]). \<not> is_smart t"
    by (simp add: filter_empty_conv)
  then have read: "readable (\<lambda>_. None) (newest_first [sample_sealed])" "contracts (\<lambda>_. None) (newest_first [sample_sealed]) = []"
    by (simp_all add: readable_def contracts_def)
  have seen: "\<forall>p \<in> set [sample_sealed]. p_hash p \<noteq> ah_last_seen_contract_block api_handler_empty"
    "ah_last_seen_contract_block api_handler_empty = hash_after (s_last_hash ?st) [sample_sealed]"
    using sample_sealed_fields(2,4) calc_not_empty [of "put_pool sample_pool"] by (simp_all add: api_handler_empty_def hash_after_def)
  have empty: "caches_ok (\<lambda>_. None) [] api_handler_empty" "origin_of api_handler_empty (at_target sample_deployment) = transaction_id_default"
    by (simp_all add: caches_ok_def handler_sorted_def api_handler_empty_def deployed_by_def state_of_def origin_of_def subscript_value
        deployed_ids_def state_ids_def newest_id_def)
  have ids: "origin_ids (at_target sample_deployment) (contracts (\<lambda>_. None) (newest_first [sample_sealed])) = []"
    "state_ids (at_target sample_deployment) (contracts (\<lambda>_. None) (newest_first ([sample_sealed] @ []))) = []"
    by (simp_all only: read(2) append_Nil2) (simp_all add: origin_ids_def state_ids_def)
  have tr: "\<not> tr_read_only transaction_default" "sc_method (at_smartContract sample_deployment) = []"
    "sc_byteCode (at_smartContract sample_deployment) \<noteq> []" "sc_params (at_smartContract sample_deployment) = []"
    "at_target sample_deployment = ''to''"
    by (simp_all add: transaction_default_def sample_deployment_def sample_contract_def smart_contract_default_def sample_transfer_def)
  have "[0 \<mapsto> ?st] 0 = Some ?st" by simp
  from TransactionFlow_deploy [of "[0 \<mapsto> ?st]" 0 ?st map_api "[sample_sealed]" "[]" api_handler_empty "\<lambda>_. None" sample_deployment
      transaction_default "\<lambda>_ _ _ _ _. Some ''s''" "''s''" sc_byteCode,
      OF this chain seen read(1) empty ids tr(1-3) refl]
  show ?thesis
    unfolding tr(4,5) by blast
qed

end
