(* ===== verification/Fe.thy ===== *)
theory Fe
  imports SignedWords
begin

text \<open>
  The field of integers modulo \<open>2^255 - 19\<close> of Ed25519 (\<open>src/ed25519/src/fe.c\<close>, \<open>fe.h\<close>).  An element is an array of ten
  \<open>int32_t\<close>; \<open>limbs\<close> is the integer that the comment in \<open>fe.h\<close> gives to it.  The carries that every product ends with
  are the one step \<open>fe_carry\<close>, taken in the order of the source.  \<open>fe_copy\<close> is the identity on values.

  The bounds that the comments of the source give to the limbs are checked by computing with bounds: \<open>carry_bounds\<close>
  follows a sequence of carries with the largest absolute values, and refuses if an \<open>int64_t\<close> could overflow.
\<close>

subsection \<open>Definitions\<close>

type_synonym fe = "u32 list"

definition load_3 :: "byte_array \<Rightarrow> u64" where
  "load_3 s = ucast (s ! 0) OR push_bit 8 (ucast (s ! 1)) OR push_bit 16 (ucast (s ! 2))"

definition load_4 :: "byte_array \<Rightarrow> u64" where
  "load_4 s = ucast (s ! 0) OR push_bit 8 (ucast (s ! 1)) OR push_bit 16 (ucast (s ! 2)) OR push_bit 24 (ucast (s ! 3))"

definition fe_0 :: fe where
  "fe_0 = [0, 0, 0, 0, 0, 0, 0, 0, 0, 0]"

definition fe_1 :: fe where
  "fe_1 = [1, 0, 0, 0, 0, 0, 0, 0, 0, 0]"

definition fe_add :: "fe \<Rightarrow> fe \<Rightarrow> fe" where
  "fe_add f g = map2 (+) f g"

definition fe_sub :: "fe \<Rightarrow> fe \<Rightarrow> fe" where
  "fe_sub f g = map2 (-) f g"

definition fe_neg :: "fe \<Rightarrow> fe" where
  "fe_neg f = map uminus f"

definition fe_cmov :: "fe \<Rightarrow> fe \<Rightarrow> u32 \<Rightarrow> fe" where
  "fe_cmov f g b = map2 (\<lambda>a c. a XOR ((a XOR c) AND (- b))) f g"

definition fe_cswap :: "fe \<Rightarrow> fe \<Rightarrow> u32 \<Rightarrow> fe \<times> fe" where
  "fe_cswap f g b = (let x = map2 (\<lambda>a c. (a XOR c) AND (- b)) f g in (map2 (XOR) f x, map2 (XOR) g x))"

text \<open>The limbs at even places have 26 bits, the others 25.\<close>

definition limb_bits :: "nat \<Rightarrow> nat" where
  "limb_bits i = (if even i then 26 else 25)"

definition fe_carry :: "nat \<Rightarrow> u64 list \<Rightarrow> u64 list" where
  "fe_carry i h =
     (let n = limb_bits i; carry = signed_drop_bit n (h ! i + push_bit (n - 1) 1)
      in if i = 9 then h[0 := h ! 0 + carry * 19, 9 := h ! 9 - push_bit n carry]
         else h[Suc i := h ! Suc i + carry, i := h ! i - push_bit n carry])"

definition mul_order :: "nat list" where
  "mul_order = [0, 4, 1, 5, 2, 6, 3, 7, 4, 8, 9, 0]"

definition small_order :: "nat list" where
  "small_order = [9, 1, 3, 5, 7, 0, 2, 4, 6, 8]"

definition fe_frombytes :: "byte_array \<Rightarrow> fe" where
  "fe_frombytes s =
     (let h0 = load_4 s;
          h1 = push_bit 6 (load_3 (drop 4 s));
          h2 = push_bit 5 (load_3 (drop 7 s));
          h3 = push_bit 3 (load_3 (drop 10 s));
          h4 = push_bit 2 (load_3 (drop 13 s));
          h5 = load_4 (drop 16 s);
          h6 = push_bit 7 (load_3 (drop 20 s));
          h7 = push_bit 5 (load_3 (drop 23 s));
          h8 = push_bit 4 (load_3 (drop 26 s));
          h9 = push_bit 2 (load_3 (drop 29 s) AND 8388607)
      in map scast (fold fe_carry small_order [h0, h1, h2, h3, h4, h5, h6, h7, h8, h9]))"

text \<open>The product \<open>f * (int64_t) g\<close> of two \<open>int32_t\<close>.\<close>

definition mul64 :: "u32 \<Rightarrow> u32 \<Rightarrow> u64" where
  "mul64 f g = scast f * scast g"

definition mul_limbs :: "fe \<Rightarrow> fe \<Rightarrow> u64 list" where
  "mul_limbs f g =
     (let f0 = f ! 0; f1 = f ! 1; f2 = f ! 2; f3 = f ! 3; f4 = f ! 4; f5 = f ! 5; f6 = f ! 6; f7 = f ! 7; f8 = f ! 8;
          f9 = f ! 9; g0 = g ! 0; g1 = g ! 1; g2 = g ! 2; g3 = g ! 3; g4 = g ! 4; g5 = g ! 5; g6 = g ! 6; g7 = g ! 7;
          g8 = g ! 8; g9 = g ! 9; g1_19 = 19 * g1; g2_19 = 19 * g2; g3_19 = 19 * g3; g4_19 = 19 * g4; g5_19 = 19 * g5;
          g6_19 = 19 * g6; g7_19 = 19 * g7; g8_19 = 19 * g8; g9_19 = 19 * g9; f1_2 = 2 * f1; f3_2 = 2 * f3;
          f5_2 = 2 * f5; f7_2 = 2 * f7; f9_2 = 2 * f9; f0g0 = mul64 f0 g0; f0g1 = mul64 f0 g1; f0g2 = mul64 f0 g2;
          f0g3 = mul64 f0 g3; f0g4 = mul64 f0 g4; f0g5 = mul64 f0 g5; f0g6 = mul64 f0 g6; f0g7 = mul64 f0 g7;
          f0g8 = mul64 f0 g8; f0g9 = mul64 f0 g9; f1g0 = mul64 f1 g0; f1g1_2 = mul64 f1_2 g1; f1g2 = mul64 f1 g2;
          f1g3_2 = mul64 f1_2 g3; f1g4 = mul64 f1 g4; f1g5_2 = mul64 f1_2 g5; f1g6 = mul64 f1 g6;
          f1g7_2 = mul64 f1_2 g7; f1g8 = mul64 f1 g8; f1g9_38 = mul64 f1_2 g9_19; f2g0 = mul64 f2 g0;
          f2g1 = mul64 f2 g1; f2g2 = mul64 f2 g2; f2g3 = mul64 f2 g3; f2g4 = mul64 f2 g4; f2g5 = mul64 f2 g5;
          f2g6 = mul64 f2 g6; f2g7 = mul64 f2 g7; f2g8_19 = mul64 f2 g8_19; f2g9_19 = mul64 f2 g9_19;
          f3g0 = mul64 f3 g0; f3g1_2 = mul64 f3_2 g1; f3g2 = mul64 f3 g2; f3g3_2 = mul64 f3_2 g3; f3g4 = mul64 f3 g4;
          f3g5_2 = mul64 f3_2 g5; f3g6 = mul64 f3 g6; f3g7_38 = mul64 f3_2 g7_19; f3g8_19 = mul64 f3 g8_19;
          f3g9_38 = mul64 f3_2 g9_19; f4g0 = mul64 f4 g0; f4g1 = mul64 f4 g1; f4g2 = mul64 f4 g2; f4g3 = mul64 f4 g3;
          f4g4 = mul64 f4 g4; f4g5 = mul64 f4 g5; f4g6_19 = mul64 f4 g6_19; f4g7_19 = mul64 f4 g7_19;
          f4g8_19 = mul64 f4 g8_19; f4g9_19 = mul64 f4 g9_19; f5g0 = mul64 f5 g0; f5g1_2 = mul64 f5_2 g1;
          f5g2 = mul64 f5 g2; f5g3_2 = mul64 f5_2 g3; f5g4 = mul64 f5 g4; f5g5_38 = mul64 f5_2 g5_19;
          f5g6_19 = mul64 f5 g6_19; f5g7_38 = mul64 f5_2 g7_19; f5g8_19 = mul64 f5 g8_19; f5g9_38 = mul64 f5_2 g9_19;
          f6g0 = mul64 f6 g0; f6g1 = mul64 f6 g1; f6g2 = mul64 f6 g2; f6g3 = mul64 f6 g3; f6g4_19 = mul64 f6 g4_19;
          f6g5_19 = mul64 f6 g5_19; f6g6_19 = mul64 f6 g6_19; f6g7_19 = mul64 f6 g7_19; f6g8_19 = mul64 f6 g8_19;
          f6g9_19 = mul64 f6 g9_19; f7g0 = mul64 f7 g0; f7g1_2 = mul64 f7_2 g1; f7g2 = mul64 f7 g2;
          f7g3_38 = mul64 f7_2 g3_19; f7g4_19 = mul64 f7 g4_19; f7g5_38 = mul64 f7_2 g5_19; f7g6_19 = mul64 f7 g6_19;
          f7g7_38 = mul64 f7_2 g7_19; f7g8_19 = mul64 f7 g8_19; f7g9_38 = mul64 f7_2 g9_19; f8g0 = mul64 f8 g0;
          f8g1 = mul64 f8 g1; f8g2_19 = mul64 f8 g2_19; f8g3_19 = mul64 f8 g3_19; f8g4_19 = mul64 f8 g4_19;
          f8g5_19 = mul64 f8 g5_19; f8g6_19 = mul64 f8 g6_19; f8g7_19 = mul64 f8 g7_19; f8g8_19 = mul64 f8 g8_19;
          f8g9_19 = mul64 f8 g9_19; f9g0 = mul64 f9 g0; f9g1_38 = mul64 f9_2 g1_19; f9g2_19 = mul64 f9 g2_19;
          f9g3_38 = mul64 f9_2 g3_19; f9g4_19 = mul64 f9 g4_19; f9g5_38 = mul64 f9_2 g5_19; f9g6_19 = mul64 f9 g6_19;
          f9g7_38 = mul64 f9_2 g7_19; f9g8_19 = mul64 f9 g8_19; f9g9_38 = mul64 f9_2 g9_19;
          h0 = f0g0 + f1g9_38 + f2g8_19 + f3g7_38 + f4g6_19 + f5g5_38 + f6g4_19 + f7g3_38 + f8g2_19 + f9g1_38;
          h1 = f0g1 + f1g0 + f2g9_19 + f3g8_19 + f4g7_19 + f5g6_19 + f6g5_19 + f7g4_19 + f8g3_19 + f9g2_19;
          h2 = f0g2 + f1g1_2 + f2g0 + f3g9_38 + f4g8_19 + f5g7_38 + f6g6_19 + f7g5_38 + f8g4_19 + f9g3_38;
          h3 = f0g3 + f1g2 + f2g1 + f3g0 + f4g9_19 + f5g8_19 + f6g7_19 + f7g6_19 + f8g5_19 + f9g4_19;
          h4 = f0g4 + f1g3_2 + f2g2 + f3g1_2 + f4g0 + f5g9_38 + f6g8_19 + f7g7_38 + f8g6_19 + f9g5_38;
          h5 = f0g5 + f1g4 + f2g3 + f3g2 + f4g1 + f5g0 + f6g9_19 + f7g8_19 + f8g7_19 + f9g6_19;
          h6 = f0g6 + f1g5_2 + f2g4 + f3g3_2 + f4g2 + f5g1_2 + f6g0 + f7g9_38 + f8g8_19 + f9g7_38;
          h7 = f0g7 + f1g6 + f2g5 + f3g4 + f4g3 + f5g2 + f6g1 + f7g0 + f8g9_19 + f9g8_19;
          h8 = f0g8 + f1g7_2 + f2g6 + f3g5_2 + f4g4 + f5g3_2 + f6g2 + f7g1_2 + f8g0 + f9g9_38;
          h9 = f0g9 + f1g8 + f2g7 + f3g6 + f4g5 + f5g4 + f6g3 + f7g2 + f8g1 + f9g0
      in [h0, h1, h2, h3, h4, h5, h6, h7, h8, h9])"

definition fe_mul :: "fe \<Rightarrow> fe \<Rightarrow> fe" where
  "fe_mul f g = map scast (fold fe_carry mul_order (mul_limbs f g))"

definition fe_mul121666 :: "fe \<Rightarrow> fe" where
  "fe_mul121666 f = map scast (fold fe_carry small_order (map (\<lambda>a. mul64 a 121666) f))"

text \<open>The ten sums of products of \<open>fe_sq\<close> and \<open>fe_sq2\<close>, which are the same in both.\<close>

definition sq_limbs :: "fe \<Rightarrow> u64 list" where
  "sq_limbs f =
     (let f0 = f ! 0; f1 = f ! 1; f2 = f ! 2; f3 = f ! 3; f4 = f ! 4; f5 = f ! 5; f6 = f ! 6; f7 = f ! 7; f8 = f ! 8;
          f9 = f ! 9; f0_2 = 2 * f0; f1_2 = 2 * f1; f2_2 = 2 * f2; f3_2 = 2 * f3; f4_2 = 2 * f4; f5_2 = 2 * f5;
          f6_2 = 2 * f6; f7_2 = 2 * f7; f5_38 = 38 * f5; f6_19 = 19 * f6; f7_38 = 38 * f7; f8_19 = 19 * f8;
          f9_38 = 38 * f9; f0f0 = mul64 f0 f0; f0f1_2 = mul64 f0_2 f1; f0f2_2 = mul64 f0_2 f2; f0f3_2 = mul64 f0_2 f3;
          f0f4_2 = mul64 f0_2 f4; f0f5_2 = mul64 f0_2 f5; f0f6_2 = mul64 f0_2 f6; f0f7_2 = mul64 f0_2 f7;
          f0f8_2 = mul64 f0_2 f8; f0f9_2 = mul64 f0_2 f9; f1f1_2 = mul64 f1_2 f1; f1f2_2 = mul64 f1_2 f2;
          f1f3_4 = mul64 f1_2 f3_2; f1f4_2 = mul64 f1_2 f4; f1f5_4 = mul64 f1_2 f5_2; f1f6_2 = mul64 f1_2 f6;
          f1f7_4 = mul64 f1_2 f7_2; f1f8_2 = mul64 f1_2 f8; f1f9_76 = mul64 f1_2 f9_38; f2f2 = mul64 f2 f2;
          f2f3_2 = mul64 f2_2 f3; f2f4_2 = mul64 f2_2 f4; f2f5_2 = mul64 f2_2 f5; f2f6_2 = mul64 f2_2 f6;
          f2f7_2 = mul64 f2_2 f7; f2f8_38 = mul64 f2_2 f8_19; f2f9_38 = mul64 f2 f9_38; f3f3_2 = mul64 f3_2 f3;
          f3f4_2 = mul64 f3_2 f4; f3f5_4 = mul64 f3_2 f5_2; f3f6_2 = mul64 f3_2 f6; f3f7_76 = mul64 f3_2 f7_38;
          f3f8_38 = mul64 f3_2 f8_19; f3f9_76 = mul64 f3_2 f9_38; f4f4 = mul64 f4 f4; f4f5_2 = mul64 f4_2 f5;
          f4f6_38 = mul64 f4_2 f6_19; f4f7_38 = mul64 f4 f7_38; f4f8_38 = mul64 f4_2 f8_19; f4f9_38 = mul64 f4 f9_38;
          f5f5_38 = mul64 f5 f5_38; f5f6_38 = mul64 f5_2 f6_19; f5f7_76 = mul64 f5_2 f7_38;
          f5f8_38 = mul64 f5_2 f8_19; f5f9_76 = mul64 f5_2 f9_38; f6f6_19 = mul64 f6 f6_19; f6f7_38 = mul64 f6 f7_38;
          f6f8_38 = mul64 f6_2 f8_19; f6f9_38 = mul64 f6 f9_38; f7f7_38 = mul64 f7 f7_38; f7f8_38 = mul64 f7_2 f8_19;
          f7f9_76 = mul64 f7_2 f9_38; f8f8_19 = mul64 f8 f8_19; f8f9_38 = mul64 f8 f9_38; f9f9_38 = mul64 f9 f9_38;
          h0 = f0f0 + f1f9_76 + f2f8_38 + f3f7_76 + f4f6_38 + f5f5_38;
          h1 = f0f1_2 + f2f9_38 + f3f8_38 + f4f7_38 + f5f6_38;
          h2 = f0f2_2 + f1f1_2 + f3f9_76 + f4f8_38 + f5f7_76 + f6f6_19;
          h3 = f0f3_2 + f1f2_2 + f4f9_38 + f5f8_38 + f6f7_38;
          h4 = f0f4_2 + f1f3_4 + f2f2 + f5f9_76 + f6f8_38 + f7f7_38;
          h5 = f0f5_2 + f1f4_2 + f2f3_2 + f6f9_38 + f7f8_38;
          h6 = f0f6_2 + f1f5_4 + f2f4_2 + f3f3_2 + f7f9_76 + f8f8_19;
          h7 = f0f7_2 + f1f6_2 + f2f5_2 + f3f4_2 + f8f9_38; h8 = f0f8_2 + f1f7_4 + f2f6_2 + f3f5_4 + f4f4 + f9f9_38;
          h9 = f0f9_2 + f1f8_2 + f2f7_2 + f3f6_2 + f4f5_2
      in [h0, h1, h2, h3, h4, h5, h6, h7, h8, h9])"

definition fe_sq :: "fe \<Rightarrow> fe" where
  "fe_sq f = map scast (fold fe_carry mul_order (sq_limbs f))"

definition fe_sq2 :: "fe \<Rightarrow> fe" where
  "fe_sq2 f = map scast (fold fe_carry mul_order (map (\<lambda>h. h + h) (sq_limbs f)))"

text \<open>A call of \<open>fe_sq\<close> and the loop \<open>for (i = 1; i < n; ++i)\<close> around another one behind it.\<close>

definition fe_sqs :: "nat \<Rightarrow> fe \<Rightarrow> fe" where
  "fe_sqs n f = (fe_sq ^^ (n - 1)) (fe_sq f)"

definition fe_invert :: "fe \<Rightarrow> fe" where
  "fe_invert z =
     (let t0 = fe_sqs 1 z; t1 = fe_sqs 2 t0; t1 = fe_mul z t1; t0 = fe_mul t0 t1;
          t2 = fe_sqs 1 t0; t1 = fe_mul t1 t2; t2 = fe_sqs 5 t1; t1 = fe_mul t2 t1;
          t2 = fe_sqs 10 t1; t2 = fe_mul t2 t1; t3 = fe_sqs 20 t2; t2 = fe_mul t3 t2;
          t2 = fe_sqs 10 t2; t1 = fe_mul t2 t1; t2 = fe_sqs 50 t1; t2 = fe_mul t2 t1;
          t3 = fe_sqs 100 t2; t2 = fe_mul t3 t2; t2 = fe_sqs 50 t2; t1 = fe_mul t2 t1;
          t1 = fe_sqs 5 t1
      in fe_mul t1 t0)"

definition fe_pow22523 :: "fe \<Rightarrow> fe" where
  "fe_pow22523 z =
     (let t0 = fe_sqs 1 z; t1 = fe_sqs 2 t0; t1 = fe_mul z t1; t0 = fe_mul t0 t1;
          t0 = fe_sqs 1 t0; t0 = fe_mul t1 t0; t1 = fe_sqs 5 t0; t0 = fe_mul t1 t0;
          t1 = fe_sqs 10 t0; t1 = fe_mul t1 t0; t2 = fe_sqs 20 t1; t1 = fe_mul t2 t1;
          t1 = fe_sqs 10 t1; t0 = fe_mul t1 t0; t1 = fe_sqs 50 t0; t1 = fe_mul t1 t0;
          t2 = fe_sqs 100 t1; t1 = fe_mul t2 t1; t1 = fe_sqs 50 t1; t0 = fe_mul t1 t0;
          t0 = fe_sqs 2 t0
      in fe_mul t0 z)"

text \<open>The quotient \<open>q\<close> of \<open>fe_tobytes\<close>, the carries with which it takes the remainder, and the bytes.\<close>

definition tobytes_q :: "fe \<Rightarrow> u32" where
  "tobytes_q h =
     fold (\<lambda>i q. signed_drop_bit (limb_bits i) (h ! i + q)) [0..<10] (signed_drop_bit 25 (19 * (h ! 9) + push_bit 24 1))"

definition tobytes_carry :: "nat \<Rightarrow> fe \<Rightarrow> fe" where
  "tobytes_carry i h =
     (let n = limb_bits i; carry = signed_drop_bit n (h ! i)
      in if i = 9 then h[9 := h ! 9 - push_bit n carry]
         else h[Suc i := h ! Suc i + carry, i := h ! i - push_bit n carry])"

definition tobytes_store :: "fe \<Rightarrow> byte_array" where
  "tobytes_store h =
     [ucast (h ! 0), ucast (signed_drop_bit 8 (h ! 0)), ucast (signed_drop_bit 16 (h ! 0)),
      ucast (signed_drop_bit 24 (h ! 0) OR push_bit 2 (h ! 1)), ucast (signed_drop_bit 6 (h ! 1)),
      ucast (signed_drop_bit 14 (h ! 1)), ucast (signed_drop_bit 22 (h ! 1) OR push_bit 3 (h ! 2)),
      ucast (signed_drop_bit 5 (h ! 2)), ucast (signed_drop_bit 13 (h ! 2)),
      ucast (signed_drop_bit 21 (h ! 2) OR push_bit 5 (h ! 3)), ucast (signed_drop_bit 3 (h ! 3)),
      ucast (signed_drop_bit 11 (h ! 3)), ucast (signed_drop_bit 19 (h ! 3) OR push_bit 6 (h ! 4)),
      ucast (signed_drop_bit 2 (h ! 4)), ucast (signed_drop_bit 10 (h ! 4)), ucast (signed_drop_bit 18 (h ! 4)),
      ucast (h ! 5), ucast (signed_drop_bit 8 (h ! 5)), ucast (signed_drop_bit 16 (h ! 5)),
      ucast (signed_drop_bit 24 (h ! 5) OR push_bit 1 (h ! 6)), ucast (signed_drop_bit 7 (h ! 6)),
      ucast (signed_drop_bit 15 (h ! 6)), ucast (signed_drop_bit 23 (h ! 6) OR push_bit 3 (h ! 7)),
      ucast (signed_drop_bit 5 (h ! 7)), ucast (signed_drop_bit 13 (h ! 7)),
      ucast (signed_drop_bit 21 (h ! 7) OR push_bit 4 (h ! 8)), ucast (signed_drop_bit 4 (h ! 8)),
      ucast (signed_drop_bit 12 (h ! 8)), ucast (signed_drop_bit 20 (h ! 8) OR push_bit 6 (h ! 9)),
      ucast (signed_drop_bit 2 (h ! 9)), ucast (signed_drop_bit 10 (h ! 9)), ucast (signed_drop_bit 18 (h ! 9))]"

definition fe_tobytes :: "fe \<Rightarrow> byte_array" where
  "fe_tobytes h = tobytes_store (fold tobytes_carry [0..<10] (h[0 := h ! 0 + 19 * tobytes_q h]))"

definition fe_isnegative :: "fe \<Rightarrow> u8" where
  "fe_isnegative f = fe_tobytes f ! 0 AND 1"

definition fe_isnonzero :: "fe \<Rightarrow> bool" where
  "fe_isnonzero f = (let s = fe_tobytes f in fold (\<lambda>i r. r OR s ! i) [1..<32] (s ! 0) \<noteq> 0)"

subsection \<open>Carries\<close>

text \<open>The prime of the field, and the number that ten limbs stand for.\<close>

definition p25519 :: int where
  "p25519 = 2 ^ 255 - 19"

definition limbs :: "int list \<Rightarrow> int" where
  "limbs h = h ! 0 + 2 ^ 26 * h ! 1 + 2 ^ 51 * h ! 2 + 2 ^ 77 * h ! 3 + 2 ^ 102 * h ! 4 + 2 ^ 128 * h ! 5 +
     2 ^ 153 * h ! 6 + 2 ^ 179 * h ! 7 + 2 ^ 204 * h ! 8 + 2 ^ 230 * h ! 9"

definition fe_val :: "fe \<Rightarrow> int" where
  "fe_val f = limbs (map sint f)"

definition carry_int :: "nat \<Rightarrow> int list \<Rightarrow> int list" where
  "carry_int i h =
     (let n = limb_bits i; c = (h ! i + 2 ^ (n - 1)) div 2 ^ n
      in if i = 9 then h[0 := h ! 0 + c * 19, 9 := h ! 9 - 2 ^ n * c]
         else h[Suc i := h ! Suc i + c, i := h ! i - 2 ^ n * c])"

definition carry_bound :: "nat \<Rightarrow> int list \<Rightarrow> int list option" where
  "carry_bound i B =
     (let n = limb_bits i; c = (B ! i + 2 ^ (n - 1)) div 2 ^ n; j = (if i = 9 then 0 else Suc i);
          d = (if i = 9 then c * 19 else c)
      in if B ! i + 2 ^ (n - 1) < 2 ^ 63 \<and> B ! j + d < 2 ^ 63 then Some (B[j := B ! j + d, i := 2 ^ (n - 1)]) else None)"

fun carry_bounds :: "nat list \<Rightarrow> int list \<Rightarrow> int list option" where
  "carry_bounds [] B = Some B"
| "carry_bounds (i # is) B = Option.bind (carry_bound i B) (carry_bounds is)"

lemma limb_bits_range [simp]: "0 < limb_bits i" "limb_bits i < 32"
  by (simp_all add: limb_bits_def)

lemma fe_carry_sound:
  assumes "length h = 10" "i < 10" "within B (map sint h)" "carry_bound i B = Some B'"
  shows "map sint (fe_carry i h) = carry_int i (map sint h)" "within B' (map sint (fe_carry i h))"
proof -
  let ?n = "limb_bits i" and ?j = "if i = 9 then 0 else Suc i"
  let ?c = "signed_drop_bit ?n (h ! i + push_bit (?n - 1) 1)"
  let ?d = "if i = 9 then ?c * 19 else ?c"
  let ?e = "let c = (B ! i + 2 ^ (?n - 1)) div 2 ^ ?n in if i = 9 then c * 19 else c"
  have B: "length B = 10" using within_length [OF assms(3)] assms(1) by simp
  have i: "\<bar>sint (h ! i)\<bar> \<le> B ! i" using within_nth [OF assms(3), of i] assms(1,2) by simp
  have ok: "B ! i + 2 ^ (?n - 1) < 2 ^ 63" "B ! ?j + ?e < 2 ^ 63" "B' = B[?j := B ! ?j + ?e, i := 2 ^ (?n - 1)]"
    using assms(4) by (simp_all add: carry_bound_def Let_def split: if_splits)
  note c = round_carry [OF i limb_bits_range(1) limb_bits_range(2) ok(1)]
  have j: "?j < 10" "?j \<noteq> i" using assms(2) by auto
  then have "\<bar>sint (h ! ?j)\<bar> \<le> B ! ?j" using within_nth [OF assms(3), of ?j] assms(1) by simp
  moreover have d: "\<bar>if i = 9 then sint ?c * 19 else sint ?c\<bar> \<le> ?e"
    using c(2) by (auto simp: Let_def abs_mult)
  ultimately have jb: "\<bar>sint (h ! ?j) + (if i = 9 then sint ?c * 19 else sint ?c)\<bar> \<le> B ! ?j + ?e" by linarith
  then have js: "sint (h ! ?j + ?d) = sint (h ! ?j) + (if i = 9 then sint ?c * 19 else sint ?c)"
    using ok(2) by (intro sint_eq_64) (simp, linarith)
  have eq: "fe_carry i h = h[?j := h ! ?j + ?d, i := h ! i - push_bit ?n ?c]"
    by (auto simp: fe_carry_def Let_def)
  show "map sint (fe_carry i h) = carry_int i (map sint h)"
    using j assms(1,2) js c(1,3) by (auto simp: eq carry_int_def Let_def map_update)
  show "within B' (map sint (fe_carry i h))"
    unfolding ok(3) eq map_update using jb c(4) by (intro within_update assms(3)) (simp_all only: js)
qed

lemma limbs_carry_int: "length h = 10 \<Longrightarrow> i < 10 \<Longrightarrow> limbs (carry_int i h) mod p25519 = limbs h mod p25519"
proof -
  assume l: "length h = 10" "i < 10"
  show ?thesis
  proof (cases "i = 9")
    case False
    then have "i = 0 \<or> i = 1 \<or> i = 2 \<or> i = 3 \<or> i = 4 \<or> i = 5 \<or> i = 6 \<or> i = 7 \<or> i = 8" using l(2) by presburger
    then have "limbs (carry_int i h) = limbs h"
      using l(1) by (elim disjE) (simp_all add: limbs_def carry_int_def limb_bits_def Let_def nth_list_update flip: numeral_2_eq_2)
    then show ?thesis by simp
  next
    case True
    then have "limbs (carry_int i h) = limbs h + p25519 * (- ((h ! 9 + 2 ^ 24) div 2 ^ 25))"
      using l(1) by (simp add: limbs_def carry_int_def limb_bits_def Let_def nth_list_update p25519_def)
    then show ?thesis by (simp only: mod_mult_self2)
  qed
qed

lemma length_fe_carry [simp]: "length (fe_carry i h) = length h"
  by (simp add: fe_carry_def Let_def)

lemma fe_carries_sound:
  assumes "length h = 10" "\<forall>i \<in> set is. i < 10" "within B (map sint h)" "carry_bounds is B = Some B'"
  shows "within B' (map sint (fold fe_carry is h)) \<and>
    limbs (map sint (fold fe_carry is h)) mod p25519 = limbs (map sint h) mod p25519"
  using assms
proof (induction "is" arbitrary: h B)
  case (Cons i "is")
  then obtain C where C: "carry_bound i B = Some C" "carry_bounds is C = Some B'"
    by (auto simp: bind_eq_Some_conv)
  have i: "i < 10" using Cons.prems(2) by simp
  note s = fe_carry_sound [OF Cons.prems(1) i Cons.prems(3) C(1)]
  have "limbs (map sint (fe_carry i h)) mod p25519 = limbs (map sint h) mod p25519"
    unfolding s(1) using Cons.prems(1) i by (intro limbs_carry_int) auto
  with Cons.IH [of "fe_carry i h" C] s(2) C(2) Cons.prems(1,2) show ?case by simp
qed simp

text \<open>After any number of carries the words, read as signed numbers, are those of the integer computation.\<close>

lemma fe_carries_exact:
  assumes "length h = 10" "\<forall>i \<in> set is. i < 10" "within B (map sint h)" "carry_bounds is B = Some B'"
  shows "map sint (fold fe_carry (take k is) h) = fold carry_int (take k is) (map sint h)"
  using assms
proof (induction "is" arbitrary: h B k)
  case (Cons i "is")
  then obtain C where C: "carry_bound i B = Some C" "carry_bounds is C = Some B'"
    by (auto simp: bind_eq_Some_conv)
  have i: "i < 10" using Cons.prems(2) by simp
  note s = fe_carry_sound [OF Cons.prems(1) i Cons.prems(3) C(1)]
  show ?case
  proof (cases k)
    case (Suc j)
    then show ?thesis using Cons.IH [of "fe_carry i h" C j] s C(2) Cons.prems(1,2) by simp
  qed simp
qed simp

lemma map_sint_scast:
  assumes "within B (map sint h)" "\<forall>b \<in> set B. b < 2 ^ 31"
  shows "map sint (map scast h :: u32 list) = map sint (h :: u64 list)"
proof -
  have "sint (scast x :: u32) = sint x" if "x \<in> set h" for x
  proof -
    from that obtain i where i: "i < length h" "h ! i = x" unfolding in_set_conv_nth by blast
    then have "\<bar>sint x\<bar> \<le> B ! i" using within_nth [OF assms(1), of i] by simp
    moreover have "B ! i < 2 ^ 31" using assms(2) i within_length [OF assms(1)] by simp
    ultimately show ?thesis by (intro sint_eq_32) simp_all
  qed
  then show ?thesis by simp
qed

subsection \<open>Products\<close>

text \<open>The sums of products as integers.  All coefficients are positive, so the same polynomials give their bounds.\<close>

definition mul_int :: "int list \<Rightarrow> int list \<Rightarrow> int list" where
  "mul_int f g =
     [f ! 0 * g ! 0 + 38 * (f ! 1 * g ! 9) + 19 * (f ! 2 * g ! 8) + 38 * (f ! 3 * g ! 7) + 19 * (f ! 4 * g ! 6) +
        38 * (f ! 5 * g ! 5) + 19 * (f ! 6 * g ! 4) + 38 * (f ! 7 * g ! 3) + 19 * (f ! 8 * g ! 2) +
        38 * (f ! 9 * g ! 1),
      f ! 0 * g ! 1 + f ! 1 * g ! 0 + 19 * (f ! 2 * g ! 9) + 19 * (f ! 3 * g ! 8) + 19 * (f ! 4 * g ! 7) +
        19 * (f ! 5 * g ! 6) + 19 * (f ! 6 * g ! 5) + 19 * (f ! 7 * g ! 4) + 19 * (f ! 8 * g ! 3) +
        19 * (f ! 9 * g ! 2),
      f ! 0 * g ! 2 + 2 * (f ! 1 * g ! 1) + f ! 2 * g ! 0 + 38 * (f ! 3 * g ! 9) + 19 * (f ! 4 * g ! 8) +
        38 * (f ! 5 * g ! 7) + 19 * (f ! 6 * g ! 6) + 38 * (f ! 7 * g ! 5) + 19 * (f ! 8 * g ! 4) +
        38 * (f ! 9 * g ! 3),
      f ! 0 * g ! 3 + f ! 1 * g ! 2 + f ! 2 * g ! 1 + f ! 3 * g ! 0 + 19 * (f ! 4 * g ! 9) + 19 * (f ! 5 * g ! 8) +
        19 * (f ! 6 * g ! 7) + 19 * (f ! 7 * g ! 6) + 19 * (f ! 8 * g ! 5) + 19 * (f ! 9 * g ! 4),
      f ! 0 * g ! 4 + 2 * (f ! 1 * g ! 3) + f ! 2 * g ! 2 + 2 * (f ! 3 * g ! 1) + f ! 4 * g ! 0 +
        38 * (f ! 5 * g ! 9) + 19 * (f ! 6 * g ! 8) + 38 * (f ! 7 * g ! 7) + 19 * (f ! 8 * g ! 6) +
        38 * (f ! 9 * g ! 5),
      f ! 0 * g ! 5 + f ! 1 * g ! 4 + f ! 2 * g ! 3 + f ! 3 * g ! 2 + f ! 4 * g ! 1 + f ! 5 * g ! 0 +
        19 * (f ! 6 * g ! 9) + 19 * (f ! 7 * g ! 8) + 19 * (f ! 8 * g ! 7) + 19 * (f ! 9 * g ! 6),
      f ! 0 * g ! 6 + 2 * (f ! 1 * g ! 5) + f ! 2 * g ! 4 + 2 * (f ! 3 * g ! 3) + f ! 4 * g ! 2 +
        2 * (f ! 5 * g ! 1) + f ! 6 * g ! 0 + 38 * (f ! 7 * g ! 9) + 19 * (f ! 8 * g ! 8) + 38 * (f ! 9 * g ! 7),
      f ! 0 * g ! 7 + f ! 1 * g ! 6 + f ! 2 * g ! 5 + f ! 3 * g ! 4 + f ! 4 * g ! 3 + f ! 5 * g ! 2 +
        f ! 6 * g ! 1 + f ! 7 * g ! 0 + 19 * (f ! 8 * g ! 9) + 19 * (f ! 9 * g ! 8),
      f ! 0 * g ! 8 + 2 * (f ! 1 * g ! 7) + f ! 2 * g ! 6 + 2 * (f ! 3 * g ! 5) + f ! 4 * g ! 4 +
        2 * (f ! 5 * g ! 3) + f ! 6 * g ! 2 + 2 * (f ! 7 * g ! 1) + f ! 8 * g ! 0 + 38 * (f ! 9 * g ! 9),
      f ! 0 * g ! 9 + f ! 1 * g ! 8 + f ! 2 * g ! 7 + f ! 3 * g ! 6 + f ! 4 * g ! 5 + f ! 5 * g ! 4 +
        f ! 6 * g ! 3 + f ! 7 * g ! 2 + f ! 8 * g ! 1 + f ! 9 * g ! 0]"

definition sq_int :: "int list \<Rightarrow> int list" where
  "sq_int f =
     [f ! 0 * f ! 0 + 76 * (f ! 1 * f ! 9) + 38 * (f ! 2 * f ! 8) + 76 * (f ! 3 * f ! 7) + 38 * (f ! 4 * f ! 6) +
        38 * (f ! 5 * f ! 5),
      2 * (f ! 0 * f ! 1) + 38 * (f ! 2 * f ! 9) + 38 * (f ! 3 * f ! 8) + 38 * (f ! 4 * f ! 7) + 38 * (f ! 5 * f ! 6),
      2 * (f ! 0 * f ! 2) + 2 * (f ! 1 * f ! 1) + 76 * (f ! 3 * f ! 9) + 38 * (f ! 4 * f ! 8) +
        76 * (f ! 5 * f ! 7) + 19 * (f ! 6 * f ! 6),
      2 * (f ! 0 * f ! 3) + 2 * (f ! 1 * f ! 2) + 38 * (f ! 4 * f ! 9) + 38 * (f ! 5 * f ! 8) + 38 * (f ! 6 * f ! 7),
      2 * (f ! 0 * f ! 4) + 4 * (f ! 1 * f ! 3) + f ! 2 * f ! 2 + 76 * (f ! 5 * f ! 9) + 38 * (f ! 6 * f ! 8) +
        38 * (f ! 7 * f ! 7),
      2 * (f ! 0 * f ! 5) + 2 * (f ! 1 * f ! 4) + 2 * (f ! 2 * f ! 3) + 38 * (f ! 6 * f ! 9) + 38 * (f ! 7 * f ! 8),
      2 * (f ! 0 * f ! 6) + 4 * (f ! 1 * f ! 5) + 2 * (f ! 2 * f ! 4) + 2 * (f ! 3 * f ! 3) +
        76 * (f ! 7 * f ! 9) + 19 * (f ! 8 * f ! 8),
      2 * (f ! 0 * f ! 7) + 2 * (f ! 1 * f ! 6) + 2 * (f ! 2 * f ! 5) + 2 * (f ! 3 * f ! 4) + 38 * (f ! 8 * f ! 9),
      2 * (f ! 0 * f ! 8) + 4 * (f ! 1 * f ! 7) + 2 * (f ! 2 * f ! 6) + 4 * (f ! 3 * f ! 5) + f ! 4 * f ! 4 +
        38 * (f ! 9 * f ! 9),
      2 * (f ! 0 * f ! 9) + 2 * (f ! 1 * f ! 8) + 2 * (f ! 2 * f ! 7) + 2 * (f ! 3 * f ! 6) + 2 * (f ! 4 * f ! 5)]"

lemma length_mul_int [simp]: "length (mul_int f g) = 10"
  by (simp add: mul_int_def)

lemma sq_int_mul: "sq_int f = mul_int f f"
  by (simp add: sq_int_def mul_int_def mult.commute)

lemma limbs_list:
  "limbs [a0, a1, a2, a3, a4, a5, a6, a7, a8, a9] = a0 + 2 ^ 26 * a1 + 2 ^ 51 * a2 + 2 ^ 77 * a3 + 2 ^ 102 * a4 +
     2 ^ 128 * a5 + 2 ^ 153 * a6 + 2 ^ 179 * a7 + 2 ^ 204 * a8 + 2 ^ 230 * a9"
  by (simp add: limbs_def)

lemma limbs_mul_int: "limbs (mul_int f g) mod p25519 = limbs f * limbs g mod p25519"
proof -
  let ?K = "
      2 * 2 ^ 0 * (f ! 1 * g ! 9) + 2 ^ 0 * (f ! 2 * g ! 8) + 2 * 2 ^ 0 * (f ! 3 * g ! 7) +
        2 ^ 0 * (f ! 4 * g ! 6) + 2 * 2 ^ 0 * (f ! 5 * g ! 5) + 2 ^ 0 * (f ! 6 * g ! 4) +
        2 * 2 ^ 0 * (f ! 7 * g ! 3) + 2 ^ 0 * (f ! 8 * g ! 2) + 2 * 2 ^ 0 * (f ! 9 * g ! 1) +
        2 ^ 26 * (f ! 2 * g ! 9) + 2 ^ 26 * (f ! 3 * g ! 8) + 2 ^ 26 * (f ! 4 * g ! 7) +
        2 ^ 26 * (f ! 5 * g ! 6) + 2 ^ 26 * (f ! 6 * g ! 5) + 2 ^ 26 * (f ! 7 * g ! 4) +
        2 ^ 26 * (f ! 8 * g ! 3) + 2 ^ 26 * (f ! 9 * g ! 2) + 2 * 2 ^ 51 * (f ! 3 * g ! 9) +
        2 ^ 51 * (f ! 4 * g ! 8) + 2 * 2 ^ 51 * (f ! 5 * g ! 7) + 2 ^ 51 * (f ! 6 * g ! 6) +
        2 * 2 ^ 51 * (f ! 7 * g ! 5) + 2 ^ 51 * (f ! 8 * g ! 4) + 2 * 2 ^ 51 * (f ! 9 * g ! 3) +
        2 ^ 77 * (f ! 4 * g ! 9) + 2 ^ 77 * (f ! 5 * g ! 8) + 2 ^ 77 * (f ! 6 * g ! 7) +
        2 ^ 77 * (f ! 7 * g ! 6) + 2 ^ 77 * (f ! 8 * g ! 5) + 2 ^ 77 * (f ! 9 * g ! 4) +
        2 * 2 ^ 102 * (f ! 5 * g ! 9) + 2 ^ 102 * (f ! 6 * g ! 8) + 2 * 2 ^ 102 * (f ! 7 * g ! 7) +
        2 ^ 102 * (f ! 8 * g ! 6) + 2 * 2 ^ 102 * (f ! 9 * g ! 5) + 2 ^ 128 * (f ! 6 * g ! 9) +
        2 ^ 128 * (f ! 7 * g ! 8) + 2 ^ 128 * (f ! 8 * g ! 7) + 2 ^ 128 * (f ! 9 * g ! 6) +
        2 * 2 ^ 153 * (f ! 7 * g ! 9) + 2 ^ 153 * (f ! 8 * g ! 8) + 2 * 2 ^ 153 * (f ! 9 * g ! 7) +
        2 ^ 179 * (f ! 8 * g ! 9) + 2 ^ 179 * (f ! 9 * g ! 8) + 2 * 2 ^ 204 * (f ! 9 * g ! 9)"
  have "limbs f * limbs g = limbs (mul_int f g) + p25519 * ?K"
    unfolding mul_int_def limbs_list limbs_def [of f] limbs_def [of g] p25519_def by algebra
  then show ?thesis by simp
qed

lemma within_mul_int:
  assumes "within A f" "within B g" "length f = 10" "length g = 10"
  shows "within (mul_int A B) (mul_int f g)"
proof -
  have f: "\<bar>f ! i\<bar> \<le> A ! i" if "i < 10" for i using within_nth [OF assms(1)] that assms(3) by simp
  have g: "\<bar>g ! i\<bar> \<le> B ! i" if "i < 10" for i using within_nth [OF assms(2)] that assms(4) by simp
  show ?thesis
    unfolding mul_int_def within_def list_all2_Cons list_all2_Nil
    by (intro conjI TrueI abs_add_le abs_numeral_le abs_mult_le f g) simp_all
qed

lemma mul64_of_int: "mul64 a b = of_int (sint a * sint b)"
  by (simp add: mul64_def)

lemma sint_mult_32: "\<bar>sint a\<bar> \<le> A \<Longrightarrow> numeral k * A < 2 ^ 31 \<Longrightarrow> sint (numeral k * a :: u32) = numeral k * sint a"
  using abs_numeral_le [of "sint a" A k] by (intro sint_eq_32) simp_all

lemma scast_mult_32:
  assumes "\<bar>sint a\<bar> \<le> A" "numeral k * A < 2 ^ 31"
  shows "(scast (numeral k * a :: u32) :: u64) = numeral k * scast a"
proof -
  have "(scast (numeral k * a :: u32) :: u64) = of_int (sint (numeral k * a :: u32))" by simp
  also have "\<dots> = of_int (numeral k * sint a)" using sint_mult_32 [OF assms] by simp
  finally show ?thesis by simp
qed

text \<open>The bounds that the comment of \<open>fe_mul\<close> asks for: \<open>1.65 * 2^26\<close> and \<open>1.65 * 2^25\<close>.\<close>

definition mul_max :: "int list" where
  "mul_max = [110729625, 55364812, 110729625, 55364812, 110729625, 55364812, 110729625, 55364812, 110729625, 55364812]"

lemma mul_max_le: "i < 10 \<Longrightarrow> mul_max ! i \<le> 110729625"
  by (auto simp: mul_max_def less_Suc_eq numeral_eq_Suc)

lemma mul_max_bound: "list_all (\<lambda>b. b < 2 ^ 63) (mul_int mul_max mul_max)"
  by (simp add: mul_int_def mul_max_def)

lemma sint_mul_limbs:
  assumes "within mul_max (map sint f)" "within mul_max (map sint g)"
  shows "map sint (mul_limbs f g) = mul_int (map sint f) (map sint g)"
proof -
  have l: "length f = 10" "length g = 10"
    using assms [THEN within_length] by (simp_all add: mul_max_def)
  have fb: "\<bar>sint (f ! i)\<bar> \<le> 110729625" if "i < 10" for i
    using within_nth [OF assms(1), of i] mul_max_le [OF that] l that by simp
  have gb: "\<bar>sint (g ! i)\<bar> \<le> 110729625" if "i < 10" for i
    using within_nth [OF assms(2), of i] mul_max_le [OF that] l that by simp
  have f2: "(scast (2 * f ! i) :: u64) = 2 * scast (f ! i)" if "i < 10" for i
    using fb [OF that] by (rule scast_mult_32) simp
  have g19: "(scast (19 * g ! i) :: u64) = 19 * scast (g ! i)" if "i < 10" for i
    using gb [OF that] by (rule scast_mult_32) simp
  have b: "\<bar>mul_int (map sint f) (map sint g) ! k\<bar> < 2 ^ 63" if "k < 10" for k
    by (rule within_64 [OF within_mul_int [OF assms] mul_max_bound]) (simp_all add: l that)
  have w: "mul_limbs f g = map of_int (mul_int (map sint f) (map sint g))"
    using l by (simp add: mul_limbs_def mul_int_def Let_def mul64_def f2 g19)
  show ?thesis
    unfolding w by (rule nth_equalityI) (simp_all add: sint_64 [OF b])
qed

subsection \<open>Elements in range\<close>

text \<open>The limbs of the results are at most \<open>1.01 * 2^25\<close> and \<open>1.01 * 2^24\<close>, as the comments say: \<open>fe_ok 1\<close>.  Sums and
  differences add up; a product takes three times the bound, \<open>fe_tobytes\<close> twice.\<close>

definition fe_unit :: "int list" where
  "fe_unit = [33889976, 16944988, 33889976, 16944988, 33889976, 16944988, 33889976, 16944988, 33889976, 16944988]"

definition fe_ok :: "nat \<Rightarrow> fe \<Rightarrow> bool" where
  "fe_ok k f = within (map ((*) (int k)) fe_unit) (map sint f)"

lemma length_fe_unit [simp]: "length fe_unit = 10"
  by (simp add: fe_unit_def)

lemma fe_ok_length: "fe_ok k f \<Longrightarrow> length f = 10"
  unfolding fe_ok_def using within_length by (fastforce simp: fe_unit_def)

lemma fe_ok_mono: "fe_ok k f \<Longrightarrow> k \<le> m \<Longrightarrow> fe_ok m f"
  unfolding fe_ok_def by (erule within_mono) (simp add: fe_unit_def)

lemma fe_ok_3: "fe_ok 3 f \<Longrightarrow> within mul_max (map sint f)"
  unfolding fe_ok_def by (erule within_mono) (simp add: fe_unit_def mul_max_def)

text \<open>The carries after a product, with any bounds.\<close>

lemma carries_ok:
  assumes "within B (map sint h)" "length h = 10" "\<forall>i \<in> set is. i < 10"
    and "carry_bounds is B = Some B'" "list_all2 (\<le>) B' fe_unit"
  shows "fe_ok 1 (map scast (fold fe_carry is h))"
    "fe_val (map scast (fold fe_carry is h)) mod p25519 = limbs (map sint h) mod p25519"
proof -
  note s = fe_carries_sound [OF assms(2,3,1,4)]
  have w: "within fe_unit (map sint (fold fe_carry is h))"
    using s within_mono [OF _ assms(5)] by blast
  have "\<forall>b \<in> set fe_unit. b < 2 ^ 31" by (simp add: fe_unit_def)
  note m = map_sint_scast [OF w this]
  show "fe_ok 1 (map scast (fold fe_carry is h))"
    unfolding fe_ok_def m using w by (simp add: fe_unit_def)
  show "fe_val (map scast (fold fe_carry is h)) mod p25519 = limbs (map sint h) mod p25519"
    unfolding fe_val_def m using s by blast
qed

lemma mul_carry_bounds:
  "\<exists>B. carry_bounds mul_order (mul_int mul_max mul_max) = Some B \<and> list_all2 (\<le>) B fe_unit"
  by (simp add: mul_order_def carry_bound_def limb_bits_def mul_int_def mul_max_def fe_unit_def)

definition carries_exact :: "u64 list \<Rightarrow> int list \<Rightarrow> bool" where
  "carries_exact h x \<longleftrightarrow> (\<forall>k. map sint (fold fe_carry (take k mul_order) h) = fold carry_int (take k mul_order) x)"

lemma fe_mul_max:
  assumes "within mul_max (map sint f)" "within mul_max (map sint g)"
  shows "fe_ok 1 (fe_mul f g)" "fe_val (fe_mul f g) mod p25519 = fe_val f * fe_val g mod p25519"
    "carries_exact (mul_limbs f g) (mul_int (map sint f) (map sint g))"
proof -
  note fg = assms
  have l: "length f = 10" "length g = 10" using assms [THEN within_length] by (simp_all add: mul_max_def)
  obtain B where B: "carry_bounds mul_order (mul_int mul_max mul_max) = Some B" "list_all2 (\<le>) B fe_unit"
    using mul_carry_bounds by blast
  have w: "within (mul_int mul_max mul_max) (map sint (mul_limbs f g))"
    unfolding sint_mul_limbs [OF fg] using fg l by (intro within_mul_int) simp_all
  have lh: "length (mul_limbs f g) = 10" "\<forall>i \<in> set mul_order. i < 10"
    by (simp_all add: mul_limbs_def Let_def mul_order_def)
  note c = carries_ok [OF w lh B]
  show "carries_exact (mul_limbs f g) (mul_int (map sint f) (map sint g))"
    unfolding carries_exact_def using fe_carries_exact [OF lh w B(1)] sint_mul_limbs [OF fg] by simp
  show "fe_ok 1 (fe_mul f g)" unfolding fe_mul_def by (rule c(1))
  show "fe_val (fe_mul f g) mod p25519 = fe_val f * fe_val g mod p25519"
    unfolding fe_mul_def c(2) unfolding sint_mul_limbs [OF fg] limbs_mul_int fe_val_def ..
qed

lemma fe_mul_ok:
  assumes "fe_ok 3 f" "fe_ok 3 g"
  shows "fe_ok 1 (fe_mul f g)" "fe_val (fe_mul f g) mod p25519 = fe_val f * fe_val g mod p25519"
  using fe_mul_max [OF fe_ok_3 [OF assms(1)] fe_ok_3 [OF assms(2)]] by blast+

lemma sint_sq_limbs:
  assumes "within mul_max (map sint f)"
  shows "map sint (sq_limbs f) = mul_int (map sint f) (map sint f)"
proof -
  have l: "length f = 10" using within_length [OF assms] by (simp add: mul_max_def)
  have fb: "\<bar>sint (f ! i)\<bar> \<le> 110729625" if "i < 10" for i
    using within_nth [OF assms, of i] mul_max_le [OF that] l that by simp
  have odd: "\<bar>sint (f ! i)\<bar> \<le> 55364812" if "i = 5 \<or> i = 7 \<or> i = 9" for i
    using within_nth [OF assms, of i] l that by (auto simp: mul_max_def)
  have f2: "(scast (2 * f ! i) :: u64) = 2 * scast (f ! i)" if "i < 10" for i
    using fb [OF that] by (rule scast_mult_32) simp
  have f19: "(scast (19 * f ! i) :: u64) = 19 * scast (f ! i)" if "i < 10" for i
    using fb [OF that] by (rule scast_mult_32) simp
  have f38: "(scast (38 * f ! i) :: u64) = 38 * scast (f ! i)" if "i = 5 \<or> i = 7 \<or> i = 9" for i
    using odd [OF that] by (rule scast_mult_32) simp
  have b: "\<bar>mul_int (map sint f) (map sint f) ! k\<bar> < 2 ^ 63" if "k < 10" for k
    by (rule within_64 [OF within_mul_int [OF assms assms] mul_max_bound]) (simp_all add: l that)
  have w: "sq_limbs f = map of_int (sq_int (map sint f))"
    using l by (simp add: sq_limbs_def sq_int_def Let_def mul64_def f2 f19 f38)
  show ?thesis
    unfolding w sq_int_mul by (rule nth_equalityI) (simp_all add: sint_64 [OF b])
qed

text \<open>The sums of \<open>fe_sq2\<close> are twice as large; they still fit.\<close>

lemma sq2_carry_bounds:
  "\<exists>B. carry_bounds mul_order (map ((*) 2) (mul_int mul_max mul_max)) = Some B \<and> list_all2 (\<le>) B fe_unit"
  by (simp add: mul_order_def carry_bound_def limb_bits_def mul_int_def mul_max_def fe_unit_def)

lemma sq2_max_bound: "list_all (\<lambda>b. b < 2 ^ 63) (map ((*) 2) (mul_int mul_max mul_max))"
  by (simp add: mul_int_def mul_max_def)

lemma fe_sq_max:
  assumes "within mul_max (map sint f)"
  shows "fe_ok 1 (fe_sq f)" "fe_val (fe_sq f) mod p25519 = fe_val f * fe_val f mod p25519"
    "carries_exact (sq_limbs f) (mul_int (map sint f) (map sint f))"
proof -
  note f = assms
  have l: "length f = 10" using within_length [OF assms] by (simp add: mul_max_def)
  obtain B where B: "carry_bounds mul_order (mul_int mul_max mul_max) = Some B" "list_all2 (\<le>) B fe_unit"
    using mul_carry_bounds by blast
  have w: "within (mul_int mul_max mul_max) (map sint (sq_limbs f))"
    unfolding sint_sq_limbs [OF f] using f l by (intro within_mul_int) simp_all
  have lh: "length (sq_limbs f) = 10" "\<forall>i \<in> set mul_order. i < 10"
    by (simp_all add: sq_limbs_def Let_def mul_order_def)
  note c = carries_ok [OF w lh B]
  show "carries_exact (sq_limbs f) (mul_int (map sint f) (map sint f))"
    unfolding carries_exact_def using fe_carries_exact [OF lh w B(1)] sint_sq_limbs [OF f] by simp
  show "fe_ok 1 (fe_sq f)" unfolding fe_sq_def by (rule c(1))
  show "fe_val (fe_sq f) mod p25519 = fe_val f * fe_val f mod p25519"
    unfolding fe_sq_def c(2) unfolding sint_sq_limbs [OF f] limbs_mul_int fe_val_def ..
qed

lemma fe_sq_ok:
  assumes "fe_ok 3 f"
  shows "fe_ok 1 (fe_sq f)" "fe_val (fe_sq f) mod p25519 = fe_val f * fe_val f mod p25519"
  using fe_sq_max [OF fe_ok_3 [OF assms]] by blast+

lemma limbs_scale: "length h = 10 \<Longrightarrow> limbs (map ((*) k) h) = k * limbs h"
  by (simp add: limbs_def algebra_simps)

lemma fe_sq2_max:
  assumes "within mul_max (map sint f)"
  shows "fe_ok 1 (fe_sq2 f)" "fe_val (fe_sq2 f) mod p25519 = 2 * (fe_val f * fe_val f) mod p25519"
    "carries_exact (map (\<lambda>h. h + h) (sq_limbs f)) (map ((*) 2) (mul_int (map sint f) (map sint f)))"
proof -
  note f = assms
  have l: "length f = 10" using within_length [OF assms] by (simp add: mul_max_def)
  let ?h = "sq_limbs f" and ?M = "mul_int mul_max mul_max"
  obtain B where B: "carry_bounds mul_order (map ((*) 2) ?M) = Some B" "list_all2 (\<le>) B fe_unit"
    using sq2_carry_bounds by blast
  have lh: "length ?h = 10" "\<forall>i \<in> set mul_order. i < 10" by (simp_all add: sq_limbs_def Let_def mul_order_def)
  have w: "within ?M (map sint ?h)"
    unfolding sint_sq_limbs [OF f] using f l by (intro within_mul_int) simp_all
  then have w2: "within (map ((*) 2) ?M) (map ((*) 2) (map sint ?h))"
    by (simp add: within_def list.rel_map) (erule list_all2_mono, simp)
  have "\<bar>2 * sint (?h ! i)\<bar> < 2 ^ 63" if "i < 10" for i
    using within_64 [OF w2 sq2_max_bound, of i] that lh(1) by simp
  then have e: "map sint (map (\<lambda>h. h + h) ?h) = map ((*) 2) (map sint ?h)"
    by (intro nth_equalityI) (simp_all add: lh(1), intro sint_eq_64, simp_all)
  have "length (map (\<lambda>h. h + h) ?h) = 10" using lh(1) by simp
  from fe_carries_exact [OF this lh(2) w2 [folded e] B(1)]
  show "carries_exact (map (\<lambda>h. h + h) ?h) (map ((*) 2) (mul_int (map sint f) (map sint f)))"
    unfolding carries_exact_def e sint_sq_limbs [OF f] by simp
  note c = carries_ok [OF w2 [folded e], unfolded length_map, OF lh B]
  show "fe_ok 1 (fe_sq2 f)" unfolding fe_sq2_def by (rule c(1))
  have "fe_val (fe_sq2 f) mod p25519 = 2 * limbs (mul_int (map sint f) (map sint f)) mod p25519"
    unfolding fe_sq2_def c(2) unfolding e sint_sq_limbs [OF f] by (simp add: limbs_scale)
  also have "\<dots> = 2 * (fe_val f * fe_val f) mod p25519"
    using limbs_mul_int [of "map sint f" "map sint f"] unfolding fe_val_def by (metis mod_mult_right_eq)
  finally show "fe_val (fe_sq2 f) mod p25519 = 2 * (fe_val f * fe_val f) mod p25519" .
qed

lemma fe_sq2_ok:
  assumes "fe_ok 3 f"
  shows "fe_ok 1 (fe_sq2 f)" "fe_val (fe_sq2 f) mod p25519 = 2 * (fe_val f * fe_val f) mod p25519"
  using fe_sq2_max [OF fe_ok_3 [OF assms]] by blast+

subsection \<open>Sums, differences, constants\<close>

lemma fe_ok_nth: "fe_ok k f \<Longrightarrow> i < 10 \<Longrightarrow> \<bar>sint (f ! i)\<bar> \<le> int k * (fe_unit ! i)"
  using within_nth [of "map ((*) (int k)) fe_unit" "map sint f" i] fe_ok_length [of k f]
  by (simp add: fe_ok_def)

lemma fe_okI: "length f = 10 \<Longrightarrow> (\<And>i. i < 10 \<Longrightarrow> \<bar>sint (f ! i)\<bar> \<le> int k * (fe_unit ! i)) \<Longrightarrow> fe_ok k f"
  by (auto simp: fe_ok_def within_def list_all2_conv_all_nth)

lemma fe_unit_range: "i < 10 \<Longrightarrow> 0 \<le> fe_unit ! i \<and> fe_unit ! i \<le> 33889976"
  by (auto simp: fe_unit_def less_Suc_eq numeral_eq_Suc)

lemma fe_unit_mult: "i < 10 \<Longrightarrow> k \<le> 63 \<Longrightarrow> int k * (fe_unit ! i) < 2 ^ 31"
  using fe_unit_range [of i] mult_mono [of "int k" 63 "fe_unit ! i" 33889976] by simp

lemma fe_add_ok:
  assumes "fe_ok k f" "fe_ok m g" "k + m \<le> 63"
  shows "fe_ok (k + m) (fe_add f g)" "fe_val (fe_add f g) = fe_val f + fe_val g"
proof -
  have l: "length f = 10" "length g = 10" using assms(1,2) fe_ok_length by auto
  have b: "\<bar>sint (f ! i) + sint (g ! i)\<bar> \<le> int (k + m) * (fe_unit ! i)" if "i < 10" for i
    using fe_ok_nth [OF assms(1) that] fe_ok_nth [OF assms(2) that] by (simp add: distrib_right)
  have n: "sint (fe_add f g ! i) = sint (f ! i) + sint (g ! i)" if "i < 10" for i
    using b [OF that] fe_unit_mult [OF that assms(3)] l that
    by (intro sint_eq_32) (simp_all add: fe_add_def)
  have a: "length (fe_add f g) = 10" using l by (simp add: fe_add_def)
  show "fe_ok (k + m) (fe_add f g)" using b n a by (intro fe_okI) simp_all
  show "fe_val (fe_add f g) = fe_val f + fe_val g"
    using l a by (simp add: fe_val_def limbs_def n algebra_simps)
qed

lemma fe_sub_ok:
  assumes "fe_ok k f" "fe_ok m g" "k + m \<le> 63"
  shows "fe_ok (k + m) (fe_sub f g)" "fe_val (fe_sub f g) = fe_val f - fe_val g"
proof -
  have l: "length f = 10" "length g = 10" using assms(1,2) fe_ok_length by auto
  have b: "\<bar>sint (f ! i) - sint (g ! i)\<bar> \<le> int (k + m) * (fe_unit ! i)" if "i < 10" for i
    using fe_ok_nth [OF assms(1) that] fe_ok_nth [OF assms(2) that] by (simp add: distrib_right)
  have n: "sint (fe_sub f g ! i) = sint (f ! i) - sint (g ! i)" if "i < 10" for i
    using b [OF that] fe_unit_mult [OF that assms(3)] l that
    by (intro sint_eq_32) (simp_all add: fe_sub_def)
  have a: "length (fe_sub f g) = 10" using l by (simp add: fe_sub_def)
  show "fe_ok (k + m) (fe_sub f g)" using b n a by (intro fe_okI) simp_all
  show "fe_val (fe_sub f g) = fe_val f - fe_val g"
    using l a by (simp add: fe_val_def limbs_def n algebra_simps)
qed

lemma fe_neg_ok:
  assumes "fe_ok k f" "k \<le> 63"
  shows "fe_ok k (fe_neg f)" "fe_val (fe_neg f) = - fe_val f"
proof -
  have l: "length f = 10" using assms(1) fe_ok_length by auto
  have n: "sint (fe_neg f ! i) = - sint (f ! i)" if "i < 10" for i
    using fe_ok_nth [OF assms(1) that] fe_unit_mult [OF that assms(2)] l that
    by (intro sint_eq_32) (simp_all add: fe_neg_def)
  have a: "length (fe_neg f) = 10" using l by (simp add: fe_neg_def)
  show "fe_ok k (fe_neg f)" using fe_ok_nth [OF assms(1)] n a by (intro fe_okI) simp_all
  show "fe_val (fe_neg f) = - fe_val f"
    using l a by (simp add: fe_val_def limbs_def n)
qed

lemma fe_0_ok: "fe_ok 1 fe_0" "fe_val fe_0 = 0"
  by (simp_all add: fe_ok_def within_def fe_unit_def fe_0_def fe_val_def limbs_def)

lemma fe_1_ok: "fe_ok 1 fe_1" "fe_val fe_1 = 1"
  by (simp_all add: fe_ok_def within_def fe_unit_def fe_1_def fe_val_def limbs_def)

lemma fe_mul121666_ok:
  assumes "fe_ok 2 f"
  shows "fe_ok 1 (fe_mul121666 f)" "fe_val (fe_mul121666 f) mod p25519 = 121666 * fe_val f mod p25519"
proof -
  let ?B = "map ((*) 121666) (map ((*) 2) fe_unit)" and ?h = "map (\<lambda>a. mul64 a 121666) f"
  have l: "length f = 10" using assms fe_ok_length by auto
  have b: "\<bar>sint (f ! i) * 121666\<bar> < 2 ^ 63" if "i < 10" for i
    using abs_sint_32 [of "f ! i"] by (simp add: abs_mult)
  have e: "map sint ?h = map ((*) 121666) (map sint f)"
    using l by (intro nth_equalityI) (simp_all add: mul64_of_int sint_64 [OF b] del: of_int_mult)
  have "within ?B (map ((*) 121666) (map sint f))"
    using assms by (simp add: fe_ok_def within_def list.rel_map) (erule list_all2_mono, simp)
  then have w: "within ?B (map sint ?h)" by (simp only: e)
  have "\<exists>B. carry_bounds small_order ?B = Some B \<and> list_all2 (\<le>) B fe_unit"
    by (simp add: small_order_def carry_bound_def limb_bits_def fe_unit_def)
  then obtain B where B: "carry_bounds small_order ?B = Some B" "list_all2 (\<le>) B fe_unit" by blast
  have "length ?h = 10" "\<forall>i \<in> set small_order. i < 10" using l by (simp_all add: small_order_def)
  note c = carries_ok [OF w this B]
  show "fe_ok 1 (fe_mul121666 f)" unfolding fe_mul121666_def by (rule c(1))
  show "fe_val (fe_mul121666 f) mod p25519 = 121666 * fe_val f mod p25519"
    unfolding fe_mul121666_def c(2) unfolding e fe_val_def using l by (subst limbs_scale) simp_all
qed

subsection \<open>Powers\<close>

text \<open>\<open>f\<close> can be multiplied and stands for \<open>a\<close>.\<close>

definition fe_rep :: "fe \<Rightarrow> int \<Rightarrow> bool" where
  "fe_rep f a \<longleftrightarrow> fe_ok 3 f \<and> fe_val f mod p25519 = a mod p25519"

lemma fe_ok_1: "fe_ok 1 f \<Longrightarrow> fe_ok 3 f"
  by (erule fe_ok_mono) simp

lemma rep_mul: "fe_rep f a \<Longrightarrow> fe_rep g b \<Longrightarrow> fe_rep (fe_mul f g) (a * b)"
  unfolding fe_rep_def using fe_mul_ok [of f g] by (metis fe_ok_1 mod_mult_eq)

lemma rep_sq: "fe_rep f a \<Longrightarrow> fe_rep (fe_sq f) (a * a)"
  unfolding fe_rep_def using fe_sq_ok [of f] by (metis fe_ok_1 mod_mult_eq)

lemma rep_mul_pow: "fe_rep f (v ^ a) \<Longrightarrow> fe_rep g (v ^ b) \<Longrightarrow> e = a + b \<Longrightarrow> fe_rep (fe_mul f g) (v ^ e)"
  using rep_mul by (simp add: power_add)

lemma rep_sqs: "fe_rep f (v ^ a) \<Longrightarrow> 0 < n \<Longrightarrow> e = 2 ^ n * a \<Longrightarrow> fe_rep (fe_sqs n f) (v ^ e)"
proof -
  have "fe_rep f (v ^ a) \<Longrightarrow> fe_rep ((fe_sq ^^ k) f) (v ^ (2 ^ k * a))" for k
  proof (induction k)
    case (Suc k)
    then show ?case
      using rep_sq [of "(fe_sq ^^ k) f" "v ^ (2 ^ k * a)"] by (simp add: mult_2 distrib_right flip: power_add)
  qed simp
  moreover assume "fe_rep f (v ^ a)" "0 < n" "e = 2 ^ n * a"
  moreover have "fe_sqs n f = (fe_sq ^^ n) f"
    using \<open>0 < n\<close> by (cases n) (simp_all add: fe_sqs_def funpow_swap1)
  ultimately show ?thesis by simp
qed

lemma rep_let: "fe_rep f (v ^ a) \<Longrightarrow> (\<And>t. fe_rep t (v ^ a) \<Longrightarrow> fe_rep (g t) b) \<Longrightarrow> fe_rep (Let f g) b"
  by simp

lemma fe_invert_rep: "fe_rep z (v ^ 1) \<Longrightarrow> fe_rep (fe_invert z) (v ^ (2 ^ 255 - 21))"
  unfolding fe_invert_def by ((rule rep_let | rule rep_mul_pow | rule rep_sqs | assumption | rule refl | rule zero_less_one | rule zero_less_numeral)+) simp

lemma fe_pow22523_rep: "fe_rep z (v ^ 1) \<Longrightarrow> fe_rep (fe_pow22523 z) (v ^ (2 ^ 252 - 3))"
  unfolding fe_pow22523_def by ((rule rep_let | rule rep_mul_pow | rule rep_sqs | assumption | rule refl | rule zero_less_one | rule zero_less_numeral)+) simp

subsection \<open>The arithmetic of the field\<close>

text \<open>The sums of the absolute values of all products in a limb, twice for \<open>fe_sq2\<close>.\<close>

lemma abs_sums:
  assumes "within mul_max (map sint f)" "within mul_max (map sint g)"
  shows "list_all (\<lambda>b. 2 * b < 2 ^ 63) (mul_int (map (abs \<circ> sint) f) (map (abs \<circ> sint) g))"
proof -
  have a: "within mul_max (map (abs \<circ> sint) f)" "within mul_max (map (abs \<circ> sint) g)"
    using assms by (simp_all add: within_def list.rel_map)
  have l: "length f = 10" "length g = 10" using assms [THEN within_length] by (simp_all add: mul_max_def)
  note w = within_mul_int [OF a, unfolded length_map, OF l]
  have M: "list_all (\<lambda>b. 2 * b < 2 ^ 63) (mul_int mul_max mul_max)" by (simp add: mul_int_def mul_max_def)
  have "2 * mul_int (map (abs \<circ> sint) f) (map (abs \<circ> sint) g) ! i < 2 ^ 63" if "i < 10" for i
    using within_nth [OF w, of i] M that by (auto simp: list_all_length)
  then show ?thesis by (simp add: list_all_length)
qed

text \<open>C7: products, squares and doubled squares of field elements with limbs as large as the comments allow, \<open>1.65 * 2^26\<close>
  and \<open>1.65 * 2^25\<close> in turn, are exact modulo \<open>2^255 - 19\<close>, with limbs of at most \<open>1.01 * 2^25\<close> and \<open>1.01 * 2^24\<close>.  The
  absolute values of the products of a limb add up to less than \<open>2^63\<close>, even doubled, and after every carry the 64-bit
  words are the integers of the same computation without wrap-around.\<close>

theorem fe_products_exact:
  assumes "within mul_max (map sint f)" "within mul_max (map sint g)"
  shows "fe_ok 1 (fe_mul f g) \<and> fe_val (fe_mul f g) mod p25519 = fe_val f * fe_val g mod p25519 \<and>
    fe_ok 1 (fe_sq f) \<and> fe_val (fe_sq f) mod p25519 = fe_val f ^ 2 mod p25519 \<and>
    fe_ok 1 (fe_sq2 f) \<and> fe_val (fe_sq2 f) mod p25519 = 2 * fe_val f ^ 2 mod p25519 \<and>
    list_all (\<lambda>b. 2 * b < 2 ^ 63) (mul_int (map (abs \<circ> sint) f) (map (abs \<circ> sint) g)) \<and>
    list_all (\<lambda>b. 2 * b < 2 ^ 63) (mul_int (map (abs \<circ> sint) f) (map (abs \<circ> sint) f)) \<and>
    carries_exact (mul_limbs f g) (mul_int (map sint f) (map sint g)) \<and>
    carries_exact (sq_limbs f) (mul_int (map sint f) (map sint f)) \<and>
    carries_exact (map (\<lambda>h. h + h) (sq_limbs f)) (map ((*) 2) (mul_int (map sint f) (map sint f)))"
  using fe_mul_max [OF assms] fe_sq_max [OF assms(1)] fe_sq2_max [OF assms(1)] abs_sums [OF assms] abs_sums [OF assms(1,1)]
  by (simp add: power2_eq_square)

text \<open>The largest limbs.\<close>

theorem fe_products_exact_witness:
  "let f = map of_int mul_max; g = map (\<lambda>b. of_int (- b)) mul_max
   in map sint f = mul_max \<and> fe_ok 1 (fe_mul f g) \<and> fe_val (fe_mul f g) mod p25519 = - (limbs mul_max * limbs mul_max) mod p25519"
proof -
  let ?f = "map of_int mul_max :: fe" and ?g = "map (\<lambda>b. of_int (- b)) mul_max :: fe"
  have s: "map sint ?f = mul_max" "map sint ?g = map uminus mul_max" by (simp_all add: mul_max_def)
  have "within mul_max (map sint ?f)" "within mul_max (map sint ?g)"
    unfolding s by (simp_all add: within_def mul_max_def)
  note p = fe_products_exact [OF this]
  have "fe_val ?f = limbs mul_max" "fe_val ?g = - limbs mul_max"
    unfolding fe_val_def s by (simp_all add: limbs_def mul_max_def)
  then show ?thesis using p s(1) by (simp add: Let_def)
qed

text \<open>C38: the chains of squarings and products of \<open>fe_invert\<close> and \<open>fe_pow22523\<close> raise to the powers \<open>p - 2\<close> and
  \<open>(p - 5) / 8\<close> of the prime, which are the inverse and the candidate for a square root by Fermat's theorem.\<close>

theorem fe_powers_exact:
  assumes "fe_ok 3 z"
  shows "fe_val (fe_invert z) mod p25519 = fe_val z ^ nat (p25519 - 2) mod p25519 \<and>
    fe_val (fe_pow22523 z) mod p25519 = fe_val z ^ nat ((p25519 - 5) div 8) mod p25519 \<and>
    fe_ok 3 (fe_invert z) \<and> fe_ok 3 (fe_pow22523 z)"
proof -
  have "fe_rep z (fe_val z ^ 1)" using assms by (simp add: fe_rep_def)
  note r = fe_invert_rep [OF this] fe_pow22523_rep [OF this]
  have "nat (p25519 - 2) = 2 ^ 255 - 21" "nat ((p25519 - 5) div 8) = 2 ^ 252 - 3" by (simp_all add: p25519_def)
  then show ?thesis using r by (simp only: fe_rep_def)
qed

theorem fe_powers_exact_witness: "fe_ok 3 fe_1 \<and> fe_val (fe_invert fe_1) mod p25519 = 1"
proof -
  have "fe_ok 3 fe_1" using fe_1_ok(1) by (rule fe_ok_1)
  then show ?thesis using fe_powers_exact [of fe_1] fe_1_ok(2) by (simp add: p25519_def)
qed

end
