(* ===== verification/FeBytes.thy ===== *)
theory FeBytes
  imports Fe
begin

text \<open>
  Field elements and the 32 bytes they are sent as: \<open>fe_frombytes\<close> and \<open>fe_tobytes\<close> of \<open>src/ed25519/src/fe.c\<close>, and the
  tests that look at the bytes.  The main lemma is the claim that the comment above \<open>fe_tobytes\<close> makes about its estimate
  of a quotient.
\<close>

subsection \<open>Bytes\<close>

lemma uint_byte_64: "uint (ucast (b :: u8) :: u64) = uint b"
  by (simp add: uint_up_ucast is_up)

lemma uint_push_byte: "k \<le> 56 \<Longrightarrow> uint (push_bit k (ucast (b :: u8)) :: u64) = push_bit k (uint b)"
proof -
  assume "k \<le> 56"
  then have "(2 :: int) ^ k \<le> 2 ^ 56" by (intro power_increasing) auto
  moreover have "0 \<le> uint b" "uint b < 256" using uint_lt2p [of b] by simp_all
  ultimately have "0 \<le> uint b * 2 ^ k" "uint b * 2 ^ k < 256 * 2 ^ 56"
    by (simp, intro mult_less_le_imp_less) simp_all
  then show ?thesis
    unfolding unsigned_push_bit_eq uint_byte_64 by (simp add: take_bit_int_eq_self push_bit_eq_mult)
qed

lemma load_3: "3 \<le> length s \<Longrightarrow> uint (load_3 s) = take_bit 24 (le_val s)"
proof -
  assume "3 \<le> length s"
  then obtain b0 b1 b2 t where s: "s = b0 # b1 # b2 # t"
    by (auto simp: numeral_3_eq_3 Suc_le_length_iff)
  have b: "0 \<le> uint b0" "uint b0 < 256" "0 \<le> uint b1" "uint b1 < 256" using uint_lt2p [of b0] uint_lt2p [of b1] by simp_all
  have "uint (load_3 s) = (uint b0 OR push_bit 8 (uint b1)) OR push_bit 16 (uint b2)"
    by (simp add: s load_3_def unsigned_or_eq uint_push_byte uint_byte_64 or.assoc)
  also have "\<dots> = le_val (take 3 s)"
    using b by (simp add: int_or_push s)
  finally show ?thesis using le_val_take [of 3 s] by simp
qed

lemma load_4: "4 \<le> length s \<Longrightarrow> uint (load_4 s) = take_bit 32 (le_val s)"
proof -
  assume "4 \<le> length s"
  then obtain b0 b1 b2 b3 t where s: "s = b0 # b1 # b2 # b3 # t"
    by (auto simp: numeral_eq_Suc Suc_le_length_iff)
  have b: "0 \<le> uint b0" "uint b0 < 256" "0 \<le> uint b1" "uint b1 < 256" "0 \<le> uint b2" "uint b2 < 256"
    using uint_lt2p [of b0] uint_lt2p [of b1] uint_lt2p [of b2] by simp_all
  have "uint (load_4 s) = ((uint b0 OR push_bit 8 (uint b1)) OR push_bit 16 (uint b2)) OR push_bit 24 (uint b3)"
    by (simp add: s load_4_def unsigned_or_eq uint_push_byte uint_byte_64 or.assoc)
  also have "\<dots> = le_val (take 4 s)"
    using b by (simp add: int_or_push s)
  finally show ?thesis using le_val_take [of 4 s] by simp
qed

lemma sint_load:
  assumes "uint (w :: u64) = take_bit n V" "n + k \<le> 62"
  shows "sint (push_bit k w) = 2 ^ k * take_bit n V" "\<bar>sint (push_bit k w)\<bar> \<le> 2 ^ (n + k)"
proof -
  have "2 ^ k * take_bit n V < 2 ^ k * (2 :: int) ^ n" by (intro mult_strict_left_mono) simp_all
  then have b: "2 ^ k * take_bit n V < (2 :: int) ^ (n + k)" by (simp add: power_add mult.commute)
  also have "(2 :: int) ^ (n + k) \<le> 2 ^ 62" using assms(2) by (intro power_increasing) auto
  finally have "2 ^ k * take_bit n V < (2 :: int) ^ 62" .
  then have "uint (push_bit k w) = 2 ^ k * take_bit n V"
    unfolding unsigned_push_bit_eq assms(1) by (simp add: push_bit_eq_mult take_bit_int_eq_self mult.commute)
  moreover from this \<open>2 ^ k * take_bit n V < (2 :: int) ^ 62\<close> have "sint (push_bit k w) = uint (push_bit k w)"
    by (intro sint_small) simp
  ultimately show "sint (push_bit k w) = 2 ^ k * take_bit n V" by simp
  then show "\<bar>sint (push_bit k w)\<bar> \<le> 2 ^ (n + k)" using b by simp
qed

lemma fe_frombytes_ok:
  assumes "length s = 32"
  shows "fe_ok 1 (fe_frombytes s)" "fe_val (fe_frombytes s) mod p25519 = take_bit 255 (le_val s) mod p25519"
proof -
  let ?V = "le_val s"
  have l3: "uint (load_3 (drop n s)) = take_bit 24 (drop_bit (8 * n) ?V)" if "n \<le> 29" for n
    using load_3 [of "drop n s"] that assms by (simp add: le_val_drop)
  have l4: "uint (load_4 (drop n s)) = take_bit 32 (drop_bit (8 * n) ?V)" if "n \<le> 28" for n
    using load_4 [of "drop n s"] that assms by (simp add: le_val_drop)
  have l9: "uint (load_3 (drop 29 s) AND 8388607) = take_bit 23 (drop_bit 232 ?V)"
  proof -
    have "uint (load_3 (drop 29 s) AND 8388607) = uint (load_3 (drop 29 s)) AND mask 23"
      by (simp add: unsigned_and_eq mask_eq_exp_minus_1)
    then show ?thesis using l3 [of 29] by (simp flip: take_bit_eq_mask)
  qed
  let ?h = "[load_4 s, push_bit 6 (load_3 (drop 4 s)), push_bit 5 (load_3 (drop 7 s)), push_bit 3 (load_3 (drop 10 s)),
    push_bit 2 (load_3 (drop 13 s)), load_4 (drop 16 s), push_bit 7 (load_3 (drop 20 s)), push_bit 5 (load_3 (drop 23 s)),
    push_bit 4 (load_3 (drop 26 s)), push_bit 2 (load_3 (drop 29 s) AND 8388607)]"
  let ?B = "[2 ^ 32, 2 ^ 30, 2 ^ 29, 2 ^ 27, 2 ^ 26, 2 ^ 32, 2 ^ 31, 2 ^ 29, 2 ^ 28, 2 ^ 25]"
  note ls = sint_load [OF l4 [of 0], of 0] sint_load [OF l3 [of 4], of 6] sint_load [OF l3 [of 7], of 5]
    sint_load [OF l3 [of 10], of 3] sint_load [OF l3 [of 13], of 2] sint_load [OF l4 [of 16], of 0]
    sint_load [OF l3 [of 20], of 7] sint_load [OF l3 [of 23], of 5] sint_load [OF l3 [of 26], of 4] sint_load [OF l9, of 2]
  have w: "within ?B (map sint ?h)" unfolding within_def using ls by simp
  have v: "limbs (map sint ?h) = take_bit 255 ?V"
    using take_bit_split [of 32 24 ?V] take_bit_split [of 56 24 ?V] take_bit_split [of 80 24 ?V] take_bit_split [of 104 24 ?V]
      take_bit_split [of 128 32 ?V] take_bit_split [of 160 24 ?V] take_bit_split [of 184 24 ?V] take_bit_split [of 208 24 ?V]
      take_bit_split [of 232 23 ?V] ls by (simp add: limbs_list)
  have "\<exists>B. carry_bounds small_order ?B = Some B \<and> list_all2 (\<le>) B fe_unit"
    by (simp add: small_order_def carry_bound_def limb_bits_def fe_unit_def)
  then obtain B where B: "carry_bounds small_order ?B = Some B" "list_all2 (\<le>) B fe_unit" by blast
  have "length ?h = 10" "\<forall>i \<in> set small_order. i < 10" by (simp_all add: small_order_def)
  note c = carries_ok [OF w this B]
  show "fe_ok 1 (fe_frombytes s)" unfolding fe_frombytes_def Let_def by (rule c(1))
  show "fe_val (fe_frombytes s) mod p25519 = take_bit 255 (le_val s) mod p25519"
    unfolding fe_frombytes_def Let_def c(2) v ..
qed

text \<open>Reduced limbs are stored in the bytes of their number.\<close>

lemma le_val_tobytes_store:
  assumes "length h = 10" "\<And>i. i < 10 \<Longrightarrow> 0 \<le> sint (h ! i) \<and> sint (h ! i) < 2 ^ limb_bits i"
  shows "le_val (tobytes_store h) = limbs (map sint h)"
proof -
  have o: "uint (ucast (signed_drop_bit n (h ! i) OR push_bit k (h ! j)) :: u8) =
      sint (h ! i) div 2 ^ n + 2 ^ k * (sint (h ! j) mod 2 ^ m)"
    if "i < 10" "n + k = limb_bits i" "k + m = 8" for i n k m j
  proof -
    have "sint (h ! i) div 2 ^ n < 2 ^ k" using assms(2) [OF that(1)] that(2) by (intro div_power_less) simp
    moreover have e: "8 - k = m" "k \<le> 8" using that(3) by simp_all
    ultimately show ?thesis
      using byte_or [of "h ! i" n k "h ! j"] assms(2) [OF that(1)] unfolding e(1) by simp
  qed
  have os: "uint (ucast (signed_drop_bit 24 (h ! 0) OR push_bit 2 (h ! 1)) :: u8) =
      sint (h ! 0) div 2 ^ 24 + 2 ^ 2 * (sint (h ! 1) mod 2 ^ 6)"
    "uint (ucast (signed_drop_bit 22 (h ! 1) OR push_bit 3 (h ! 2)) :: u8) =
      sint (h ! 1) div 2 ^ 22 + 2 ^ 3 * (sint (h ! 2) mod 2 ^ 5)"
    "uint (ucast (signed_drop_bit 21 (h ! 2) OR push_bit 5 (h ! 3)) :: u8) =
      sint (h ! 2) div 2 ^ 21 + 2 ^ 5 * (sint (h ! 3) mod 2 ^ 3)"
    "uint (ucast (signed_drop_bit 19 (h ! 3) OR push_bit 6 (h ! 4)) :: u8) =
      sint (h ! 3) div 2 ^ 19 + 2 ^ 6 * (sint (h ! 4) mod 2 ^ 2)"
    "uint (ucast (signed_drop_bit 24 (h ! 5) OR push_bit 1 (h ! 6)) :: u8) =
      sint (h ! 5) div 2 ^ 24 + 2 ^ 1 * (sint (h ! 6) mod 2 ^ 7)"
    "uint (ucast (signed_drop_bit 23 (h ! 6) OR push_bit 3 (h ! 7)) :: u8) =
      sint (h ! 6) div 2 ^ 23 + 2 ^ 3 * (sint (h ! 7) mod 2 ^ 5)"
    "uint (ucast (signed_drop_bit 21 (h ! 7) OR push_bit 4 (h ! 8)) :: u8) =
      sint (h ! 7) div 2 ^ 21 + 2 ^ 4 * (sint (h ! 8) mod 2 ^ 4)"
    "uint (ucast (signed_drop_bit 20 (h ! 8) OR push_bit 6 (h ! 9)) :: u8) =
      sint (h ! 8) div 2 ^ 20 + 2 ^ 6 * (sint (h ! 9) mod 2 ^ 2)"
    by (rule o; simp add: limb_bits_def)+
  have top: "sint (h ! 4) div 2 ^ 18 mod 256 = sint (h ! 4) div 2 ^ 18" "sint (h ! 9) div 2 ^ 18 mod 256 = sint (h ! 9) div 2 ^ 18"
    using assms(2) [of 4] assms(2) [of 9] div_power_less [of "sint (h ! 4)" 18 8] div_power_less [of "sint (h ! 9)" 18 8]
    by (simp_all add: limb_bits_def pos_imp_zdiv_nonneg_iff)
  have drop: "uint (ucast (signed_drop_bit n (h ! i)) :: u8) = sint (h ! i) div 2 ^ n mod 256" for n i
    by (rule byte_drop) simp
  have low: "uint (ucast (h ! 0) :: u8) = sint (h ! 0) mod 2 ^ 8" "uint (ucast (h ! 5) :: u8) = sint (h ! 5) mod 2 ^ 8"
    by (simp_all add: uint_byte)
  let ?x = "\<lambda>i a b c. sint (h ! i) mod 2 ^ a + 2 ^ a * (sint (h ! i) div 2 ^ a mod 256) +
    2 ^ b * (sint (h ! i) div 2 ^ b mod 256) + 2 ^ c * (sint (h ! i) div 2 ^ c)"
  have "le_val (tobytes_store h) = limbs [?x 0 8 16 24, ?x 1 6 14 22, ?x 2 5 13 21, ?x 3 3 11 19, ?x 4 2 10 18, ?x 5 8 16 24, ?x 6 7 15 23, ?x 7 5 13 21, ?x 8 4 12 20, ?x 9 2 10 18]"
    unfolding tobytes_store_def le_val.simps os drop low limbs_list top by algebra
  also have "\<dots> = limbs (map sint h)"
    using assms(1) by (subst limb_sum, simp, simp)+ (simp add: limbs_def)
  finally show ?thesis .
qed

text \<open>The carries of \<open>fe_tobytes\<close> leave reduced limbs; the last one is dropped.\<close>

lemma floor_carry:
  fixes x :: u32
  assumes "\<bar>sint x\<bar> \<le> 2 ^ 28" "n = 25 \<or> n = 26"
  defines "c \<equiv> signed_drop_bit n x"
  shows "sint c = sint x div 2 ^ n" "\<bar>sint c\<bar> \<le> 8" "sint (x - push_bit n c) = sint x mod 2 ^ n"
proof -
  show c: "sint c = sint x div 2 ^ n" by (simp add: c_def sint_signed_drop_bit_eq drop_bit_eq_div)
  show "\<bar>sint c\<bar> \<le> 8" unfolding c using assms(1,2) by auto
  have "sint x mod 2 ^ n = sint x - 2 ^ n * sint c" by (simp add: c minus_mult_div_eq_mod)
  moreover have "0 \<le> sint x mod 2 ^ n" "sint x mod 2 ^ n < 2 ^ 26"
    using assms(2) pos_mod_bound [of "2 ^ n" "sint x"] by auto
  ultimately show "sint (x - push_bit n c) = sint x mod 2 ^ n"
    by (intro sint_eq_32) (simp_all add: push_bit_eq_mult mult.commute)
qed

lemma limb_bits_cases: "limb_bits i = 25 \<or> limb_bits i = 26"
  by (simp add: limb_bits_def)

lemma limbs_update2:
  assumes "length h = 10" "i < 9"
  shows "limbs (h[Suc i := h ! Suc i + c, i := h ! i - 2 ^ limb_bits i * c]) = limbs h"
proof -
  have "i = 0 \<or> i = 1 \<or> i = 2 \<or> i = 3 \<or> i = 4 \<or> i = 5 \<or> i = 6 \<or> i = 7 \<or> i = 8" using assms(2) by presburger
  then show ?thesis
    using assms(1) by (elim disjE) (simp_all add: limbs_def limb_bits_def nth_list_update flip: numeral_2_eq_2)
qed

lemma tobytes_fold:
  assumes "length h = 10" "\<And>j. j < 10 \<Longrightarrow> \<bar>sint (h ! j)\<bar> \<le> 2 ^ 27" "i \<le> 9"
  defines "g \<equiv> fold tobytes_carry [0..<i] h"
  shows "length g = 10 \<and> limbs (map sint g) = limbs (map sint h) \<and>
    (\<forall>j < i. 0 \<le> sint (g ! j) \<and> sint (g ! j) < 2 ^ limb_bits j) \<and> \<bar>sint (g ! i)\<bar> \<le> 2 ^ 27 + 8 \<and>
    (\<forall>j. i < j \<and> j < 10 \<longrightarrow> g ! j = h ! j)"
  using assms(3) unfolding g_def
proof (induction i)
  case 0
  then show ?case using assms(1) assms(2) [of 0] by simp
next
  case (Suc i)
  define f where "f = fold tobytes_carry [0..<i] h"
  have IH: "length f = 10" "limbs (map sint f) = limbs (map sint h)"
    "\<And>j. j < i \<Longrightarrow> 0 \<le> sint (f ! j) \<and> sint (f ! j) < 2 ^ limb_bits j" "\<bar>sint (f ! i)\<bar> \<le> 2 ^ 27 + 8"
    "\<And>j. i < j \<Longrightarrow> j < 10 \<Longrightarrow> f ! j = h ! j"
    using Suc unfolding f_def by auto
  have i: "i < 9" using Suc.prems by simp
  let ?n = "limb_bits i" and ?c = "signed_drop_bit (limb_bits i) (f ! i)"
  have "\<bar>sint (f ! i)\<bar> \<le> 2 ^ 28" using IH(4) by simp
  note c = floor_carry [OF this limb_bits_cases [of i]]
  have y: "\<bar>sint (f ! Suc i)\<bar> \<le> 2 ^ 27" using IH(5) [of "Suc i"] assms(2) [of "Suc i"] i by simp
  then have s: "sint (f ! Suc i + ?c) = sint (f ! Suc i) + sint ?c"
    using c(2) by (intro sint_eq_32) simp_all
  have g: "fold tobytes_carry [0..<Suc i] h = f[Suc i := f ! Suc i + ?c, i := f ! i - push_bit ?n ?c]"
    using i by (simp add: f_def tobytes_carry_def Let_def)
  have m: "map sint (f[Suc i := f ! Suc i + ?c, i := f ! i - push_bit ?n ?c]) =
      (map sint f)[Suc i := map sint f ! Suc i + sint ?c, i := map sint f ! i - 2 ^ ?n * sint ?c]"
    using i IH(1) c(1) by (simp add: map_update s c(3) minus_mult_div_eq_mod)
  have "limbs (map sint (f[Suc i := f ! Suc i + ?c, i := f ! i - push_bit ?n ?c])) = limbs (map sint h)"
    unfolding m using IH(1,2) i by (subst limbs_update2) simp_all
  moreover have "0 \<le> sint (f ! i) mod 2 ^ ?n \<and> sint (f ! i) mod 2 ^ ?n < 2 ^ ?n" by simp
  ultimately show ?case
    unfolding g using IH(1,3,5) i c(2,3) s y by (auto simp: nth_list_update less_Suc_eq)
qed

lemma tobytes_carries:
  assumes "length h = 10" "\<And>j. j < 10 \<Longrightarrow> \<bar>sint (h ! j)\<bar> \<le> 2 ^ 27"
  defines "g \<equiv> fold tobytes_carry [0..<10] h"
  shows "length g = 10" "\<And>j. j < 10 \<Longrightarrow> 0 \<le> sint (g ! j) \<and> sint (g ! j) < 2 ^ limb_bits j"
    "limbs (map sint g) = limbs (map sint h) mod 2 ^ 255"
proof -
  define f where "f = fold tobytes_carry [0..<9] h"
  have f: "length f = 10" "limbs (map sint f) = limbs (map sint h)"
    "\<And>j. j < 9 \<Longrightarrow> 0 \<le> sint (f ! j) \<and> sint (f ! j) < 2 ^ limb_bits j" "\<bar>sint (f ! 9)\<bar> \<le> 2 ^ 27 + 8"
    using tobytes_fold [OF assms(1,2), of 9] unfolding f_def by simp_all
  let ?c = "signed_drop_bit (limb_bits 9) (f ! 9)"
  have "\<bar>sint (f ! 9)\<bar> \<le> 2 ^ 28" using f(4) by simp
  note c = floor_carry [OF this limb_bits_cases [of 9]]
  have up: "[0..<10] = [0..<9] @ [9 :: nat]" using upt_Suc_append [of 0 9] by simp
  have g: "g = f[9 := f ! 9 - push_bit (limb_bits 9) ?c]"
    unfolding g_def up by (simp add: f_def tobytes_carry_def Let_def)
  show l: "length g = 10" using f(1) by (simp add: g)
  show b: "0 \<le> sint (g ! j) \<and> sint (g ! j) < 2 ^ limb_bits j" if "j < 10" for j
    using f(1,3) c(3) that by (cases "j = 9") (simp_all add: g)
  have "limbs (map sint g) = limbs (map sint h) + 2 ^ 255 * (- (sint (f ! 9) div 2 ^ 25))"
    using f(1) c(3) unfolding f(2) [symmetric]
    by (simp add: g limbs_def nth_list_update limb_bits_def map_update flip: minus_mult_div_eq_mod)
  moreover have "0 \<le> limbs (map sint g)" "limbs (map sint g) < 2 ^ 255"
    using b [of 0] b [of 1] b [of 2] b [of 3] b [of 4] b [of 5] b [of 6] b [of 7] b [of 8] b [of 9] l
    by (simp_all add: limbs_def limb_bits_def)
  ultimately show "limbs (map sint g) = limbs (map sint h) mod 2 ^ 255"
    by (metis mod_mult_self2 mod_pos_pos_trivial)
qed

text \<open>The quotient: the sum of the limbs is divided step by step.\<close>

lemma div_chain: "0 < k \<Longrightarrow> 0 < m \<Longrightarrow> (y + x div m) div k = (x + m * y) div (m * (k :: int))"
  by (simp add: zdiv_zmult2_eq)

text \<open>The bounds that the comments of \<open>fe_tobytes\<close>, \<open>fe_isnonzero\<close> and \<open>fe_isnegative\<close> ask for: \<open>1.1 * 2^26\<close> and \<open>1.1 * 2^25\<close>.\<close>

definition tobytes_max :: "int list" where
  "tobytes_max = [73819750, 36909875, 73819750, 36909875, 73819750, 36909875, 73819750, 36909875, 73819750, 36909875]"

lemma fe_ok_2: "fe_ok 2 f \<Longrightarrow> within tobytes_max (map sint f)"
  unfolding fe_ok_def by (erule within_mono) (simp add: fe_unit_def tobytes_max_def)

lemma tobytes_max_nth:
  assumes "within tobytes_max (map sint f)"
  shows "length f = 10" "i < 10 \<Longrightarrow> \<bar>sint (f ! i)\<bar> \<le> tobytes_max ! i" "i < 10 \<Longrightarrow> tobytes_max ! i \<le> 73819750"
proof -
  show l: "length f = 10" using within_length [OF assms] by (simp add: tobytes_max_def)
  show "i < 10 \<Longrightarrow> \<bar>sint (f ! i)\<bar> \<le> tobytes_max ! i" using within_nth [OF assms, of i] l by simp
  show "i < 10 \<Longrightarrow> tobytes_max ! i \<le> 73819750" by (auto simp: tobytes_max_def less_Suc_eq numeral_eq_Suc)
qed

lemma q_step:
  fixes x q :: u32
  assumes "\<bar>sint x\<bar> \<le> 73819750" "\<bar>sint q\<bar> \<le> 22" "n = 25 \<or> n = 26"
  shows "sint (signed_drop_bit n (x + q)) = (sint x + sint q) div 2 ^ n" "\<bar>sint (signed_drop_bit n (x + q))\<bar> \<le> 22"
proof -
  have "sint (x + q) = sint x + sint q" using assms(1,2) by (intro sint_eq_32) simp_all
  then show e: "sint (signed_drop_bit n (x + q)) = (sint x + sint q) div 2 ^ n"
    by (simp add: sint_signed_drop_bit_eq drop_bit_eq_div)
  show "\<bar>sint (signed_drop_bit n (x + q))\<bar> \<le> 22" unfolding e using assms by auto
qed

lemma q_fold:
  assumes "\<And>j. j < 10 \<Longrightarrow> \<bar>sint (h ! j)\<bar> \<le> 73819750" "\<bar>sint q\<bar> \<le> 22" "\<forall>i \<in> set is. i < 10"
  shows "sint (fold (\<lambda>i q. signed_drop_bit (limb_bits i) (h ! i + q)) is q) =
    fold (\<lambda>i q. (sint (h ! i) + q) div 2 ^ limb_bits i) is (sint (q :: u32))"
  using assms(2,3)
proof (induction "is" arbitrary: q)
  case (Cons i "is")
  then have "i < 10" by simp
  note st = q_step [OF assms(1) [OF this] Cons.prems(1) limb_bits_cases [of i]]
  then show ?case using Cons.IH [OF st(2)] Cons.prems(2) by simp
qed simp

lemma upt_10: "[0..<10] = [0, 1, 2, 3, 4, 5, 6, 7, 8, 9 :: nat]"
  by (simp add: upt_rec)

lemma tobytes_quotient:
  assumes "length h = 10" "within tobytes_max (map sint h)"
  shows "sint (tobytes_q h) = (fe_val h + (19 * sint (h ! 9) + 2 ^ 24) div 2 ^ 25) div 2 ^ 255"
proof -
  have b: "\<bar>sint (h ! j)\<bar> \<le> 73819750" if "j < 10" for j
    using tobytes_max_nth(2,3) [OF assms(2), of j] that by simp
  have b9: "\<bar>sint (h ! 9)\<bar> \<le> 36909875" using tobytes_max_nth(2) [OF assms(2), of 9] by (simp add: tobytes_max_def)
  let ?w = "19 * h ! 9 + push_bit 24 1"
  have "sint ?w = 19 * sint (h ! 9) + 2 ^ 24" using b9 by (intro sint_eq_32) simp_all
  then have q0: "sint (signed_drop_bit 25 ?w) = (19 * sint (h ! 9) + 2 ^ 24) div 2 ^ 25"
    by (simp add: sint_signed_drop_bit_eq drop_bit_eq_div)
  then have "\<bar>sint (signed_drop_bit 25 ?w)\<bar> \<le> 22" using b9 by auto
  then have "sint (tobytes_q h) = fold (\<lambda>i q. (sint (h ! i) + q) div 2 ^ limb_bits i) [0..<10] (sint (signed_drop_bit 25 ?w))"
    unfolding tobytes_q_def using b by (intro q_fold) simp_all
  also have "\<dots> = (fe_val h + (19 * sint (h ! 9) + 2 ^ 24) div 2 ^ 25) div 2 ^ 255"
    unfolding q0 upt_10 fe_val_def using assms(1)
    by (simp add: limb_bits_def limbs_def div_chain algebra_simps)
  finally show ?thesis .
qed

text \<open>The claim of the comment above \<open>fe_tobytes\<close>: the estimate gives the quotient by the prime exactly.  The comment takes
  \<open>|h| \<le> p\<close> for granted, which its precondition does not give; it is not needed.\<close>

lemma quotient_exact:
  assumes "\<bar>H - 2 ^ 230 * h9\<bar> \<le> 2 ^ 231" "\<bar>h9\<bar> \<le> 2 ^ 26"
  shows "(H + (19 * h9 + 2 ^ 24) div 2 ^ 25) div 2 ^ 255 = H div p25519"
proof -
  define Q r q where d: "Q = H div p25519" "r = H mod p25519" "q = (19 * h9 + 2 ^ 24) div (2 :: int) ^ 25"
  have p: "0 < p25519" by (simp add: p25519_def)
  have H: "H = (2 ^ 255 - 19) * Q + r" using mult_div_mod_eq [of p25519 H] by (simp add: d p25519_def)
  have r: "0 \<le> r" "r < 2 ^ 255 - 19" using p pos_mod_bound [OF p, of H] by (simp_all add: d(2) p25519_def)
  have q: "2 ^ 25 * q \<le> 19 * h9 + 2 ^ 24" "19 * h9 + 2 ^ 24 < 2 ^ 25 * q + 2 ^ 25"
  proof -
    have "0 \<le> (19 * h9 + 2 ^ 24) mod 2 ^ 25" "(19 * h9 + 2 ^ 24) mod 2 ^ 25 < (2 :: int) ^ 25" by simp_all
    with mult_div_mod_eq [of "2 ^ 25" "19 * h9 + 2 ^ 24"]
    show "2 ^ 25 * q \<le> 19 * h9 + 2 ^ 24" "19 * h9 + 2 ^ 24 < 2 ^ 25 * q + 2 ^ 25" unfolding d(3) by linarith+
  qed
  have "- 4 \<le> Q" "Q \<le> 4" using assms H r by simp_all
  then have "0 \<le> r - 19 * Q + q" "r - 19 * Q + q < 2 ^ 255"
    using assms(1) H r q by simp_all
  moreover have "H + q = r - 19 * Q + q + 2 ^ 255 * Q" using H by (simp add: algebra_simps)
  ultimately show ?thesis unfolding d(1,3) [symmetric] by simp
qed

lemma fe_tobytes_ok:
  assumes "within tobytes_max (map sint f)"
  shows "le_val (fe_tobytes f) = fe_val f mod p25519" "length (fe_tobytes f) = 32"
proof -
  note l = tobytes_max_nth(1) [OF assms] and b = tobytes_max_nth(2) [OF assms]
  have low: "\<bar>fe_val f - 2 ^ 230 * sint (f ! 9)\<bar> \<le> 2 ^ 231" "\<bar>sint (f ! 9)\<bar> \<le> 2 ^ 26" and H: "\<bar>fe_val f\<bar> \<le> 2 ^ 256"
    using b [of 0] b [of 1] b [of 2] b [of 3] b [of 4] b [of 5] b [of 6] b [of 7] b [of 8] b [of 9] l
    unfolding abs_le_iff by (simp_all add: fe_val_def limbs_def tobytes_max_def)
  have q: "sint (tobytes_q f) = fe_val f div p25519"
    using quotient_exact [OF low] tobytes_quotient [OF l assms] by simp
  then have qb: "\<bar>sint (tobytes_q f)\<bar> \<le> 4" using H by (auto simp: p25519_def)
  let ?h = "f[0 := f ! 0 + 19 * tobytes_q f]"
  have h0: "sint (f ! 0 + 19 * tobytes_q f) = sint (f ! 0) + 19 * sint (tobytes_q f)"
    using qb b [of 0] by (intro sint_eq_32) (simp_all add: tobytes_max_def)
  have "\<bar>sint (?h ! j)\<bar> \<le> 2 ^ 27" if "j < 10" for j
    using b [OF that] tobytes_max_nth(3) [OF assms that] qb h0 l that by (cases "j = 0") simp_all
  note c = tobytes_carries [of ?h, unfolded length_list_update, OF l this]
  have "limbs (map sint ?h) = fe_val f + 19 * (fe_val f div p25519)"
    using l h0 q by (simp add: fe_val_def limbs_def map_update nth_list_update)
  also have "\<dots> = fe_val f mod p25519 + 2 ^ 255 * (fe_val f div p25519)"
    using mult_div_mod_eq [of p25519 "fe_val f"] by (simp add: p25519_def algebra_simps)
  finally have "limbs (map sint ?h) mod 2 ^ 255 = fe_val f mod p25519 mod 2 ^ 255" by simp
  also have "\<dots> = fe_val f mod p25519"
    using pos_mod_bound [of p25519 "fe_val f"] pos_mod_sign [of p25519 "fe_val f"]
    by (intro mod_pos_pos_trivial) (simp_all add: p25519_def)
  finally show "le_val (fe_tobytes f) = fe_val f mod p25519"
    unfolding fe_tobytes_def using le_val_tobytes_store [OF c(1,2)] c(3) by simp
  show "length (fe_tobytes f) = 32" by (simp add: fe_tobytes_def tobytes_store_def)
qed

lemma fold_or_zero: "fold (\<lambda>i r. r OR s ! i) is r = (0 :: u8) \<longleftrightarrow> r = 0 \<and> (\<forall>i \<in> set is. s ! i = 0)"
  by (induction "is" arbitrary: r) (auto simp: or_eq_0_iff)

lemma fe_isnonzero_iff:
  assumes "within tobytes_max (map sint f)"
  shows "fe_isnonzero f \<longleftrightarrow> fe_val f mod p25519 \<noteq> 0"
proof -
  note t = fe_tobytes_ok [OF assms]
  have "{0..<32} = insert 0 {1..<32 :: nat}" by auto
  then have "fe_isnonzero f \<longleftrightarrow> \<not> (\<forall>i \<in> {0..<32}. fe_tobytes f ! i = 0)"
    by (simp add: fe_isnonzero_def Let_def fold_or_zero)
  moreover have "(\<forall>i \<in> {0..<32}. fe_tobytes f ! i = 0) \<longleftrightarrow> le_val (fe_tobytes f) = 0"
    unfolding le_val_eq_0 all_set_conv_all_nth t(2) by auto
  ultimately show ?thesis using t(1) by simp
qed

lemma fe_isnegative_parity:
  assumes "within tobytes_max (map sint f)"
  shows "uint (fe_isnegative f) = fe_val f mod p25519 mod 2"
proof -
  note t = fe_tobytes_ok [OF assms]
  obtain b bs where s: "fe_tobytes f = b # bs" using t(2) by (cases "fe_tobytes f") auto
  have "uint (fe_isnegative f) = uint b mod 2"
    unfolding fe_isnegative_def s nth_Cons_0 unsigned_and_eq by (simp add: and_one_eq)
  also have "\<dots> = le_val (fe_tobytes f) mod 2" by (simp add: s mod_add_eq) presburger
  finally show ?thesis using t(1) by simp
qed

lemma fe_cmov_spec:
  assumes "length f = 10" "length g = 10"
  shows "fe_cmov f g 0 = f" "fe_cmov f g 1 = g"
  using assms by (auto simp: fe_cmov_def intro!: nth_equalityI simp flip: xor.assoc)

lemma fe_cswap_spec:
  assumes "length f = 10" "length g = 10"
  shows "fe_cswap f g 0 = (f, g)" "fe_cswap f g 1 = (g, f)"
proof -
  have x: "a XOR (a XOR c) = c" "c XOR (a XOR c) = a" for a c :: u32
    by (simp flip: xor.assoc) (simp add: xor.commute [of a] flip: xor.assoc)
  show "fe_cswap f g 0 = (f, g)" "fe_cswap f g 1 = (g, f)"
    using assms by (auto simp: fe_cswap_def Let_def x intro!: nth_equalityI)
qed

subsection \<open>Encoding\<close>

text \<open>C39: for every element in the range that the comments ask for, limbs of at most \<open>1.1 * 2^26\<close> and \<open>1.1 * 2^25\<close> in turn,
  \<open>fe_tobytes\<close> writes the least nonnegative number of the residue class, and \<open>fe_frombytes\<close> reads it back; bytes that hold
  a number below the prime survive reading and writing; \<open>fe_isnegative\<close> is the parity of that number, and \<open>fe_isnonzero\<close>
  holds exactly if it is not zero, as its name says and unlike its comment, which has the two cases the other way
  round.\<close>

theorem fe_encoding:
  assumes "within tobytes_max (map sint f)" "length s = 32"
  shows "length (fe_tobytes f) = 32 \<and> le_val (fe_tobytes f) = fe_val f mod p25519 \<and>
    fe_val (fe_frombytes (fe_tobytes f)) mod p25519 = fe_val f mod p25519 \<and>
    (le_val s < p25519 \<longrightarrow> fe_tobytes (fe_frombytes s) = s) \<and>
    (fe_isnonzero f \<longleftrightarrow> fe_val f mod p25519 \<noteq> 0) \<and> uint (fe_isnegative f) = fe_val f mod p25519 mod 2"
proof -
  note t = fe_tobytes_ok [OF assms(1)]
  have p: "0 < p25519" "p25519 < 2 ^ 255" by (simp_all add: p25519_def)
  have small: "take_bit 255 x = x" if "0 \<le> x" "x < p25519" for x
    using that p(2) by (intro take_bit_int_eq_self) linarith+
  have "fe_val (fe_frombytes (fe_tobytes f)) mod p25519 = fe_val f mod p25519"
    using fe_frombytes_ok(2) [OF t(2)] small [of "fe_val f mod p25519"] p(1) by (simp add: t(1))
  moreover have "fe_tobytes (fe_frombytes s) = s" if "le_val s < p25519"
  proof -
    note r = fe_frombytes_ok [OF assms(2)]
    have ok: "within tobytes_max (map sint (fe_frombytes s))" using fe_ok_2 [OF fe_ok_mono [OF r(1)]] by simp
    have "le_val (fe_tobytes (fe_frombytes s)) = le_val s"
      using fe_tobytes_ok(1) [OF ok] r(2) small [of "le_val s"] that le_val_range(1) [of s] by simp
    then show ?thesis using fe_tobytes_ok(2) [OF ok] assms(2) by (intro le_val_inject) simp_all
  qed
  ultimately show ?thesis using t fe_isnonzero_iff [OF assms(1)] fe_isnegative_parity [OF assms(1)] by simp
qed

theorem fe_encoding_witness:
  "le_val (fe_tobytes (fe_neg fe_1)) = p25519 - 1 \<and> fe_isnonzero (fe_neg fe_1) \<and>
    fe_tobytes (fe_frombytes (2 # replicate 31 0)) = 2 # replicate 31 0"
proof -
  have m: "within tobytes_max (map sint (fe_neg fe_1))" "fe_val (fe_neg fe_1) = - 1"
    using fe_neg_ok [OF fe_1_ok(1)] fe_1_ok(2) fe_ok_2 [OF fe_ok_mono [of 1 "fe_neg fe_1" 2]] by simp_all
  have "le_val (2 # replicate 31 0) = 2" using le_val_eq_0 [of "replicate 31 0"] by simp
  then show ?thesis
    using fe_encoding [OF m(1), of "2 # replicate 31 0"] m(2) by (simp add: p25519_def)
qed

end
