(* ===== verification/Sc.thy ===== *)
theory Sc
  imports FeBytes
begin

text \<open>
  Scalars of Ed25519 (\<open>src/ed25519/src/sc.c\<close>): \<open>sc_reduce\<close> and \<open>sc_muladd\<close> compute modulo the order of the base point.
  A number is a list of 24 \<open>int64_t\<close> of 21 bits each.  The long straight-line code consists of three kinds of step:
  \<open>Fold i\<close> replaces the limb \<open>i\<close>, using that \<open>2^252\<close> is congruent to a sum of six smaller limbs, \<open>Round i\<close> and \<open>Floor i\<close>
  carry from a limb to the next one with the two roundings; the lists of steps are in the order of the source.
\<close>

subsection \<open>Definitions\<close>

definition sc_load64 :: "byte_array \<Rightarrow> u64 list" where
  "sc_load64 s =
     [2097151 AND load_3 s, 2097151 AND drop_bit 5 (load_4 (drop 2 s)), 2097151 AND drop_bit 2 (load_3 (drop 5 s)),
      2097151 AND drop_bit 7 (load_4 (drop 7 s)), 2097151 AND drop_bit 4 (load_4 (drop 10 s)),
      2097151 AND drop_bit 1 (load_3 (drop 13 s)), 2097151 AND drop_bit 6 (load_4 (drop 15 s)),
      2097151 AND drop_bit 3 (load_3 (drop 18 s)), 2097151 AND load_3 (drop 21 s),
      2097151 AND drop_bit 5 (load_4 (drop 23 s)), 2097151 AND drop_bit 2 (load_3 (drop 26 s)),
      2097151 AND drop_bit 7 (load_4 (drop 28 s)), 2097151 AND drop_bit 4 (load_4 (drop 31 s)),
      2097151 AND drop_bit 1 (load_3 (drop 34 s)), 2097151 AND drop_bit 6 (load_4 (drop 36 s)),
      2097151 AND drop_bit 3 (load_3 (drop 39 s)), 2097151 AND load_3 (drop 42 s),
      2097151 AND drop_bit 5 (load_4 (drop 44 s)), 2097151 AND drop_bit 2 (load_3 (drop 47 s)),
      2097151 AND drop_bit 7 (load_4 (drop 49 s)), 2097151 AND drop_bit 4 (load_4 (drop 52 s)),
      2097151 AND drop_bit 1 (load_3 (drop 55 s)), 2097151 AND drop_bit 6 (load_4 (drop 57 s)),
      drop_bit 3 (load_4 (drop 60 s))]"

definition sc_load32 :: "byte_array \<Rightarrow> u64 list" where
  "sc_load32 s =
     [2097151 AND load_3 s, 2097151 AND drop_bit 5 (load_4 (drop 2 s)), 2097151 AND drop_bit 2 (load_3 (drop 5 s)),
      2097151 AND drop_bit 7 (load_4 (drop 7 s)), 2097151 AND drop_bit 4 (load_4 (drop 10 s)),
      2097151 AND drop_bit 1 (load_3 (drop 13 s)), 2097151 AND drop_bit 6 (load_4 (drop 15 s)),
      2097151 AND drop_bit 3 (load_3 (drop 18 s)), 2097151 AND load_3 (drop 21 s),
      2097151 AND drop_bit 5 (load_4 (drop 23 s)), 2097151 AND drop_bit 2 (load_3 (drop 26 s)),
      drop_bit 7 (load_4 (drop 28 s))]"

datatype sc_op = Fold nat | Round nat | Floor nat

fun sc_step :: "sc_op \<Rightarrow> u64 list \<Rightarrow> u64 list" where
  "sc_step (Fold i) s =
     s[i - 12 := s ! (i - 12) + s ! i * 666643, i - 11 := s ! (i - 11) + s ! i * 470296,
       i - 10 := s ! (i - 10) + s ! i * 654183, i - 9 := s ! (i - 9) - s ! i * 997805,
       i - 8 := s ! (i - 8) + s ! i * 136657, i - 7 := s ! (i - 7) - s ! i * 683901, i := 0]"
| "sc_step (Round i) s =
     (let carry = signed_drop_bit 21 (s ! i + push_bit 20 1)
      in s[Suc i := s ! Suc i + carry, i := s ! i - push_bit 21 carry])"
| "sc_step (Floor i) s =
     (let carry = signed_drop_bit 21 (s ! i)
      in s[Suc i := s ! Suc i + carry, i := s ! i - push_bit 21 carry])"

definition sc_head :: "sc_op list" where
  "sc_head =
     map Fold [23, 22, 21, 20, 19, 18] @ map Round [6, 8, 10, 12, 14, 16, 7, 9, 11, 13, 15] @
     map Fold [17, 16, 15, 14, 13, 12] @ map Round [0, 2, 4, 6, 8, 10, 1, 3, 5, 7, 9, 11] @ [Fold 12]"

definition sc_tail :: "sc_op list" where
  "sc_tail = map Floor [0..<12] @ [Fold 12] @ map Floor [0..<11]"

definition sc_mod_l :: "sc_op list" where
  "sc_mod_l = sc_head @ sc_tail"

definition sc_store :: "u64 list \<Rightarrow> byte_array" where
  "sc_store s =
     [ucast (s ! 0), ucast (signed_drop_bit 8 (s ! 0)), ucast (signed_drop_bit 16 (s ! 0) OR push_bit 5 (s ! 1)),
      ucast (signed_drop_bit 3 (s ! 1)), ucast (signed_drop_bit 11 (s ! 1)),
      ucast (signed_drop_bit 19 (s ! 1) OR push_bit 2 (s ! 2)), ucast (signed_drop_bit 6 (s ! 2)),
      ucast (signed_drop_bit 14 (s ! 2) OR push_bit 7 (s ! 3)), ucast (signed_drop_bit 1 (s ! 3)),
      ucast (signed_drop_bit 9 (s ! 3)), ucast (signed_drop_bit 17 (s ! 3) OR push_bit 4 (s ! 4)),
      ucast (signed_drop_bit 4 (s ! 4)), ucast (signed_drop_bit 12 (s ! 4)),
      ucast (signed_drop_bit 20 (s ! 4) OR push_bit 1 (s ! 5)), ucast (signed_drop_bit 7 (s ! 5)),
      ucast (signed_drop_bit 15 (s ! 5) OR push_bit 6 (s ! 6)), ucast (signed_drop_bit 2 (s ! 6)),
      ucast (signed_drop_bit 10 (s ! 6)), ucast (signed_drop_bit 18 (s ! 6) OR push_bit 3 (s ! 7)),
      ucast (signed_drop_bit 5 (s ! 7)), ucast (signed_drop_bit 13 (s ! 7)), ucast (s ! 8),
      ucast (signed_drop_bit 8 (s ! 8)), ucast (signed_drop_bit 16 (s ! 8) OR push_bit 5 (s ! 9)),
      ucast (signed_drop_bit 3 (s ! 9)), ucast (signed_drop_bit 11 (s ! 9)),
      ucast (signed_drop_bit 19 (s ! 9) OR push_bit 2 (s ! 10)), ucast (signed_drop_bit 6 (s ! 10)),
      ucast (signed_drop_bit 14 (s ! 10) OR push_bit 7 (s ! 11)), ucast (signed_drop_bit 1 (s ! 11)),
      ucast (signed_drop_bit 9 (s ! 11)), ucast (signed_drop_bit 17 (s ! 11))]"

text \<open>\<open>sc_reduce\<close> overwrites the first 32 of the 64 bytes it is given.\<close>

definition sc_reduce :: "byte_array \<Rightarrow> byte_array" where
  "sc_reduce s = sc_store (fold sc_step sc_mod_l (sc_load64 s)) @ drop 32 s"

definition sc_products :: "'a::comm_ring_1 list \<Rightarrow> 'a list \<Rightarrow> 'a list \<Rightarrow> 'a list" where
  "sc_products a b c =
     [c ! 0 + a ! 0 * b ! 0,
      c ! 1 + a ! 0 * b ! 1 + a ! 1 * b ! 0,
      c ! 2 + a ! 0 * b ! 2 + a ! 1 * b ! 1 + a ! 2 * b ! 0,
      c ! 3 + a ! 0 * b ! 3 + a ! 1 * b ! 2 + a ! 2 * b ! 1 + a ! 3 * b ! 0,
      c ! 4 + a ! 0 * b ! 4 + a ! 1 * b ! 3 + a ! 2 * b ! 2 + a ! 3 * b ! 1 + a ! 4 * b ! 0,
      c ! 5 + a ! 0 * b ! 5 + a ! 1 * b ! 4 + a ! 2 * b ! 3 + a ! 3 * b ! 2 + a ! 4 * b ! 1 + a ! 5 * b ! 0,
      c ! 6 + a ! 0 * b ! 6 + a ! 1 * b ! 5 + a ! 2 * b ! 4 + a ! 3 * b ! 3 + a ! 4 * b ! 2 + a ! 5 * b ! 1 +
        a ! 6 * b ! 0,
      c ! 7 + a ! 0 * b ! 7 + a ! 1 * b ! 6 + a ! 2 * b ! 5 + a ! 3 * b ! 4 + a ! 4 * b ! 3 + a ! 5 * b ! 2 +
        a ! 6 * b ! 1 + a ! 7 * b ! 0,
      c ! 8 + a ! 0 * b ! 8 + a ! 1 * b ! 7 + a ! 2 * b ! 6 + a ! 3 * b ! 5 + a ! 4 * b ! 4 + a ! 5 * b ! 3 +
        a ! 6 * b ! 2 + a ! 7 * b ! 1 + a ! 8 * b ! 0,
      c ! 9 + a ! 0 * b ! 9 + a ! 1 * b ! 8 + a ! 2 * b ! 7 + a ! 3 * b ! 6 + a ! 4 * b ! 5 + a ! 5 * b ! 4 +
        a ! 6 * b ! 3 + a ! 7 * b ! 2 + a ! 8 * b ! 1 + a ! 9 * b ! 0,
      c ! 10 + a ! 0 * b ! 10 + a ! 1 * b ! 9 + a ! 2 * b ! 8 + a ! 3 * b ! 7 + a ! 4 * b ! 6 + a ! 5 * b ! 5 +
        a ! 6 * b ! 4 + a ! 7 * b ! 3 + a ! 8 * b ! 2 + a ! 9 * b ! 1 + a ! 10 * b ! 0,
      c ! 11 + a ! 0 * b ! 11 + a ! 1 * b ! 10 + a ! 2 * b ! 9 + a ! 3 * b ! 8 + a ! 4 * b ! 7 + a ! 5 * b ! 6 +
        a ! 6 * b ! 5 + a ! 7 * b ! 4 + a ! 8 * b ! 3 + a ! 9 * b ! 2 + a ! 10 * b ! 1 + a ! 11 * b ! 0,
      a ! 1 * b ! 11 + a ! 2 * b ! 10 + a ! 3 * b ! 9 + a ! 4 * b ! 8 + a ! 5 * b ! 7 + a ! 6 * b ! 6 +
        a ! 7 * b ! 5 + a ! 8 * b ! 4 + a ! 9 * b ! 3 + a ! 10 * b ! 2 + a ! 11 * b ! 1,
      a ! 2 * b ! 11 + a ! 3 * b ! 10 + a ! 4 * b ! 9 + a ! 5 * b ! 8 + a ! 6 * b ! 7 + a ! 7 * b ! 6 +
        a ! 8 * b ! 5 + a ! 9 * b ! 4 + a ! 10 * b ! 3 + a ! 11 * b ! 2,
      a ! 3 * b ! 11 + a ! 4 * b ! 10 + a ! 5 * b ! 9 + a ! 6 * b ! 8 + a ! 7 * b ! 7 + a ! 8 * b ! 6 +
        a ! 9 * b ! 5 + a ! 10 * b ! 4 + a ! 11 * b ! 3,
      a ! 4 * b ! 11 + a ! 5 * b ! 10 + a ! 6 * b ! 9 + a ! 7 * b ! 8 + a ! 8 * b ! 7 + a ! 9 * b ! 6 +
        a ! 10 * b ! 5 + a ! 11 * b ! 4,
      a ! 5 * b ! 11 + a ! 6 * b ! 10 + a ! 7 * b ! 9 + a ! 8 * b ! 8 + a ! 9 * b ! 7 + a ! 10 * b ! 6 +
        a ! 11 * b ! 5,
      a ! 6 * b ! 11 + a ! 7 * b ! 10 + a ! 8 * b ! 9 + a ! 9 * b ! 8 + a ! 10 * b ! 7 + a ! 11 * b ! 6,
      a ! 7 * b ! 11 + a ! 8 * b ! 10 + a ! 9 * b ! 9 + a ! 10 * b ! 8 + a ! 11 * b ! 7,
      a ! 8 * b ! 11 + a ! 9 * b ! 10 + a ! 10 * b ! 9 + a ! 11 * b ! 8,
      a ! 9 * b ! 11 + a ! 10 * b ! 10 + a ! 11 * b ! 9,
      a ! 10 * b ! 11 + a ! 11 * b ! 10,
      a ! 11 * b ! 11,
      0]"

definition sc_carry_all :: "sc_op list" where
  "sc_carry_all = map Round [0, 2, 4, 6, 8, 10, 12, 14, 16, 18, 20, 22, 1, 3, 5, 7, 9, 11, 13, 15, 17, 19, 21]"

definition sc_muladd :: "byte_array \<Rightarrow> byte_array \<Rightarrow> byte_array \<Rightarrow> byte_array" where
  "sc_muladd a b c =
     sc_store (fold sc_step (sc_carry_all @ sc_mod_l) (sc_products (sc_load32 a) (sc_load32 b) (sc_load32 c)))"

subsection \<open>Values\<close>

text \<open>The order of the base point, and the number in a list of limbs.\<close>

definition order_l :: int where
  "order_l = 2 ^ 252 + 27742317777372353535851937790883648493"

primrec sc_val :: "int list \<Rightarrow> int" where
  "sc_val [] = 0"
| "sc_val (x # xs) = x + 2 ^ 21 * sc_val xs"

lemma sc_val_update:
  "i < length s \<Longrightarrow> sc_val (s[i := x]) = sc_val s + 2 ^ (21 * i) * (x - s ! i)"
proof (induction s arbitrary: i)
  case (Cons a s)
  show ?case
  proof (cases i)
    case (Suc n)
    then have "sc_val (s[n := x]) = sc_val s + 2 ^ (21 * n) * (x - s ! n)" using Cons by simp
    then show ?thesis using Suc by (simp add: power_add distrib_left)
  qed simp
qed simp

fun sc_int :: "sc_op \<Rightarrow> int list \<Rightarrow> int list" where
  "sc_int (Fold i) s =
     s[i - 12 := s ! (i - 12) + s ! i * 666643, i - 11 := s ! (i - 11) + s ! i * 470296,
       i - 10 := s ! (i - 10) + s ! i * 654183, i - 9 := s ! (i - 9) - s ! i * 997805,
       i - 8 := s ! (i - 8) + s ! i * 136657, i - 7 := s ! (i - 7) - s ! i * 683901, i := 0]"
| "sc_int (Round i) s =
     (let c = (s ! i + 2 ^ 20) div 2 ^ 21 in s[Suc i := s ! Suc i + c, i := s ! i - 2 ^ 21 * c])"
| "sc_int (Floor i) s =
     (let c = s ! i div 2 ^ 21 in s[Suc i := s ! Suc i + c, i := s ! i mod 2 ^ 21])"

fun sc_op_ok :: "sc_op \<Rightarrow> bool" where
  "sc_op_ok (Fold i) = (12 \<le> i \<and> i < 24)"
| "sc_op_ok (Round i) = (Suc i < 24)"
| "sc_op_ok (Floor i) = (Suc i < 24)"

lemma sc_val_fold:
  assumes "length s = 24" "12 \<le> i" "i < 24"
  shows "sc_val (sc_int (Fold i) s) = sc_val s + order_l * (- (s ! i * 2 ^ (21 * (i - 12))))"
proof -
  define k where "k = i - 12"
  then have "i = k + 12" using assms(2) by simp
  then show ?thesis
    using assms(1,3) by (simp add: sc_val_update order_l_def algebra_simps power_add)
qed

lemma sc_val_int:
  assumes "length s = 24" "sc_op_ok op"
  shows "sc_val (sc_int op s) mod order_l = sc_val s mod order_l"
    "\<And>i. op = Floor i \<Longrightarrow> sc_val (sc_int op s) = sc_val s"
proof -
  have c: "sc_val (s[Suc i := s ! Suc i + c, i := s ! i - 2 ^ 21 * c]) = sc_val s" if "Suc i < 24" for i c
    using that assms(1) by (simp add: sc_val_update algebra_simps power_add)
  show fl: "\<And>i. op = Floor i \<Longrightarrow> sc_val (sc_int op s) = sc_val s"
    using c assms(2) by (simp add: Let_def flip: minus_mult_div_eq_mod)
  show "sc_val (sc_int op s) mod order_l = sc_val s mod order_l"
  proof (cases op)
    case (Fold i)
    then show ?thesis using sc_val_fold [OF assms(1), of i] assms(2) by (simp only: sc_op_ok.simps mod_mult_self2)
  next
    case (Round i)
    then show ?thesis using c assms(2) by (simp add: Let_def)
  next
    case (Floor i)
    then show ?thesis using fl by simp
  qed
qed

subsection \<open>Bounds\<close>

fun sc_bound :: "sc_op \<Rightarrow> int list \<Rightarrow> int list" where
  "sc_bound (Fold i) B =
     B[i - 12 := B ! (i - 12) + B ! i * 666643, i - 11 := B ! (i - 11) + B ! i * 470296,
       i - 10 := B ! (i - 10) + B ! i * 654183, i - 9 := B ! (i - 9) + B ! i * 997805,
       i - 8 := B ! (i - 8) + B ! i * 136657, i - 7 := B ! (i - 7) + B ! i * 683901, i := 0]"
| "sc_bound (Round i) B = B[Suc i := B ! Suc i + (B ! i + 2 ^ 20) div 2 ^ 21, i := 2 ^ 20]"
| "sc_bound (Floor i) B = B[Suc i := B ! Suc i + (B ! i + 2 ^ 21) div 2 ^ 21, i := 2 ^ 21]"

fun sc_bounds :: "sc_op list \<Rightarrow> int list \<Rightarrow> int list option" where
  "sc_bounds [] B = Some B"
| "sc_bounds (op # ops) B =
     (if sc_op_ok op \<and> list_all (\<lambda>b. b + 2 ^ 20 < 2 ^ 63) B \<and> list_all (\<lambda>b. b < 2 ^ 63) (sc_bound op B)
      then sc_bounds ops (sc_bound op B) else None)"

lemma sint_add_mult:
  "\<bar>sint a\<bar> \<le> A \<Longrightarrow> \<bar>sint x\<bar> \<le> B \<Longrightarrow> A + B * numeral k < 2 ^ 63 \<Longrightarrow>
    sint (a + x * numeral k :: u64) = sint a + sint x * numeral k \<and> \<bar>sint a + sint x * numeral k\<bar> \<le> A + B * numeral k"
proof -
  assume a: "\<bar>sint a\<bar> \<le> A" "\<bar>sint x\<bar> \<le> B" "A + B * numeral k < 2 ^ 63"
  then have b: "\<bar>sint a + sint x * numeral k\<bar> \<le> A + B * numeral k"
    using abs_add_le [OF a(1) abs_numeral_le [OF a(2), of k]] by (simp add: mult.commute)
  then have "\<bar>sint a + sint x * numeral k\<bar> < 2 ^ 63" using a(3) by linarith
  then show ?thesis using b sint_eq_64 [of "a + x * numeral k" "sint a + sint x * numeral k"] by simp
qed

lemma sint_minus_mult:
  "\<bar>sint a\<bar> \<le> A \<Longrightarrow> \<bar>sint x\<bar> \<le> B \<Longrightarrow> A + B * numeral k < 2 ^ 63 \<Longrightarrow>
    sint (a - x * numeral k :: u64) = sint a - sint x * numeral k \<and> \<bar>sint a - sint x * numeral k\<bar> \<le> A + B * numeral k"
proof -
  assume a: "\<bar>sint a\<bar> \<le> A" "\<bar>sint x\<bar> \<le> B" "A + B * numeral k < 2 ^ 63"
  have "\<bar>sint x * numeral k\<bar> \<le> B * numeral k" using abs_numeral_le [OF a(2), of k] by (simp add: mult.commute)
  with a(1) have b: "\<bar>sint a - sint x * numeral k\<bar> \<le> A + B * numeral k" by linarith
  then have "\<bar>sint a - sint x * numeral k\<bar> < 2 ^ 63" using a(3) by linarith
  then show ?thesis using b sint_eq_64 [of "a - x * numeral k" "sint a - sint x * numeral k"] by simp
qed

lemma list_all_nth: "list_all P xs \<Longrightarrow> i < length xs \<Longrightarrow> P (xs ! i)"
  by (simp add: list_all_length)

lemma sc_fold_sound:
  assumes s: "length s = 24" "within B (map sint s)" and i: "12 \<le> i" "i < 24"
    and b: "list_all (\<lambda>b. b < 2 ^ 63) (sc_bound (Fold i) B)"
  shows "map sint (sc_step (Fold i) s) = sc_int (Fold i) (map sint s)" "within (sc_bound (Fold i) B) (map sint (sc_step (Fold i) s))"
proof -
  have B: "length B = 24" using within_length [OF s(2)] s(1) by simp
  have w: "\<bar>sint (s ! j)\<bar> \<le> B ! j" if "j < 24" for j using within_nth [OF s(2), of j] that s(1) by simp
  define k where "k = i - 12"
  have ik: "i - 12 = k" "i - 11 = k + 1" "i - 10 = k + 2" "i - 9 = k + 3" "i - 8 = k + 4" "i - 7 = k + 5" "k < 12" "i = k + 12"
    using i by (auto simp: k_def)
  note n = b [THEN list_all_nth]
  have "B ! k + B ! i * 666643 < 2 ^ 63" "B ! (k + 1) + B ! i * 470296 < 2 ^ 63" "B ! (k + 2) + B ! i * 654183 < 2 ^ 63"
    "B ! (k + 3) + B ! i * 997805 < 2 ^ 63" "B ! (k + 4) + B ! i * 136657 < 2 ^ 63" "B ! (k + 5) + B ! i * 683901 < 2 ^ 63"
    using n [of k] n [of "k + 1"] n [of "k + 2"] n [of "k + 3"] n [of "k + 4"] n [of "k + 5"] B ik(7)
    by (simp_all add: ik(1-6) nth_list_update ik(8) add.commute [of k])
  note e = sint_add_mult [OF w w this(1)] sint_add_mult [OF w w this(2)] sint_add_mult [OF w w this(3)]
    sint_minus_mult [OF w w this(4)] sint_add_mult [OF w w this(5)] sint_minus_mult [OF w w this(6)]
  have lt: "k < 24" "k + 1 < 24" "k + 2 < 24" "k + 3 < 24" "k + 4 < 24" "k + 5 < 24" "i < 24" using ik(7) i by auto
  note e' = e(1) [OF lt(1,7)] e(2) [OF lt(2,7)] e(3) [OF lt(3,7)] e(4) [OF lt(4,7)] e(5) [OF lt(5,7)] e(6) [OF lt(6,7)]
  show "map sint (sc_step (Fold i) s) = sc_int (Fold i) (map sint s)"
    using s(1) lt e' by (simp add: ik(1-6) map_update)
  show "within (sc_bound (Fold i) B) (map sint (sc_step (Fold i) s))"
    unfolding sc_step.simps sc_bound.simps map_update ik(1-6) using e' by (intro within_update s(2)) simp_all
qed

lemma sc_carry_sound:
  assumes s: "length s = 24" "within B (map sint s)" and i: "Suc i < 24"
    and c: "sint (c :: u64) = q" "\<bar>q\<bar> \<le> Q" "sint (s ! i - push_bit 21 c) = r" "\<bar>r\<bar> \<le> R" and b: "B ! Suc i + Q < 2 ^ 63"
  shows "map sint (s[Suc i := s ! Suc i + c, i := s ! i - push_bit 21 c]) = (map sint s)[Suc i := map sint s ! Suc i + q, i := r]"
    "within (B[Suc i := B ! Suc i + Q, i := R]) (map sint (s[Suc i := s ! Suc i + c, i := s ! i - push_bit 21 c]))"
proof -
  have "\<bar>sint (s ! Suc i)\<bar> \<le> B ! Suc i" using within_nth [OF s(2), of "Suc i"] i s(1) by simp
  then have e: "\<bar>sint (s ! Suc i) + q\<bar> \<le> B ! Suc i + Q" using c(2) by (rule abs_add_le)
  then have "sint (s ! Suc i + c) = sint (s ! Suc i) + q" using b by (intro sint_eq_64) (simp flip: c(1), linarith)
  then show "map sint (s[Suc i := s ! Suc i + c, i := s ! i - push_bit 21 c]) = (map sint s)[Suc i := map sint s ! Suc i + q, i := r]"
    "within (B[Suc i := B ! Suc i + Q, i := R]) (map sint (s[Suc i := s ! Suc i + c, i := s ! i - push_bit 21 c]))"
    using c(3,4) e s i by (simp_all add: map_update within_update)
qed

lemma floor_carry_64:
  fixes x :: u64
  assumes "\<bar>sint x\<bar> \<le> B"
  defines "c \<equiv> signed_drop_bit 21 x"
  shows "sint c = sint x div 2 ^ 21" "\<bar>sint x div 2 ^ 21\<bar> \<le> (B + 2 ^ 21) div 2 ^ 21"
    "sint (x - push_bit 21 c) = sint x mod 2 ^ 21" "\<bar>sint x mod 2 ^ 21\<bar> \<le> 2 ^ 21"
proof -
  show c: "sint c = sint x div 2 ^ 21" by (simp add: c_def sint_signed_drop_bit_eq drop_bit_eq_div)
  show "\<bar>sint x div 2 ^ 21\<bar> \<le> (B + 2 ^ 21) div 2 ^ 21" using assms(1) by auto
  have m: "0 \<le> sint x mod 2 ^ 21" "sint x mod 2 ^ 21 < 2 ^ 21" by simp_all
  then show "\<bar>sint x mod 2 ^ 21\<bar> \<le> 2 ^ 21" by linarith
  have "sint x mod 2 ^ 21 = sint x - 2 ^ 21 * sint c" by (simp add: c minus_mult_div_eq_mod)
  then show "sint (x - push_bit 21 c) = sint x mod 2 ^ 21"
    using m by (intro sint_eq_64) (simp_all add: push_bit_eq_mult mult.commute)
qed

lemma sc_step_sound:
  assumes s: "length s = 24" "within B (map sint s)" and op: "sc_op_ok op"
    and b: "list_all (\<lambda>b. b + 2 ^ 20 < 2 ^ 63) B" "list_all (\<lambda>b. b < 2 ^ 63) (sc_bound op B)"
  shows "map sint (sc_step op s) = sc_int op (map sint s)" "within (sc_bound op B) (map sint (sc_step op s))"
proof -
  have B: "length B = 24" using within_length [OF s(2)] s(1) by simp
  have w: "\<bar>sint (s ! j)\<bar> \<le> B ! j" if "j < 24" for j using within_nth [OF s(2), of j] that s(1) by simp
  have "map sint (sc_step op s) = sc_int op (map sint s) \<and> within (sc_bound op B) (map sint (sc_step op s))"
  proof (cases op)
    case (Fold i)
    then show ?thesis using sc_fold_sound [OF s, of i] op b(2) by simp
  next
    case (Round i)
    with op have i: "Suc i < 24" by simp
    then have "B ! i + 2 ^ (21 - 1) < 2 ^ 63" using list_all_nth [OF b(1), of i] B by simp
    note c = round_carry [OF w [of i], of 21, OF _ _ _ this]
    have "B ! Suc i + (B ! i + 2 ^ 20) div 2 ^ 21 < 2 ^ 63"
      using list_all_nth [OF b(2), of "Suc i"] B Round i by simp
    from sc_carry_sound [OF s i, of _ "(sint (s ! i) + 2 ^ 20) div 2 ^ 21" _ _ "2 ^ 20", OF _ _ _ _ this] c i s(1) Round
    show ?thesis by (simp add: Let_def)
  next
    case (Floor i)
    with op have i: "Suc i < 24" by simp
    note c = floor_carry_64 [OF w [of i]]
    have "B ! Suc i + (B ! i + 2 ^ 21) div 2 ^ 21 < 2 ^ 63"
      using list_all_nth [OF b(2), of "Suc i"] B Floor i by simp
    from sc_carry_sound [OF s i c this] i s(1) Floor
    show ?thesis by (simp add: Let_def)
  qed
  then show "map sint (sc_step op s) = sc_int op (map sint s)" "within (sc_bound op B) (map sint (sc_step op s))" by blast+
qed

lemma length_sc_int [simp]: "length (sc_int op s) = length s"
  by (cases op) (simp_all add: Let_def)

lemma length_sc_step [simp]: "length (sc_step op s) = length s"
  by (cases op) (simp_all add: Let_def)

lemma length_sc_steps [simp]: "length (fold sc_step ops s) = length s" "length (fold sc_int ops xs) = length xs"
  by (induction ops arbitrary: s xs) simp_all

lemma sc_steps_sound:
  assumes "length s = 24" "within B (map sint s)" "sc_bounds ops B = Some B'"
  shows "map sint (fold sc_step ops s) = fold sc_int ops (map sint s)" "within B' (fold sc_int ops (map sint s))"
    "sc_val (fold sc_int ops (map sint s)) mod order_l = sc_val (map sint s) mod order_l"
proof -
  have "map sint (fold sc_step ops s) = fold sc_int ops (map sint s) \<and> within B' (fold sc_int ops (map sint s)) \<and>
      sc_val (fold sc_int ops (map sint s)) mod order_l = sc_val (map sint s) mod order_l"
    using assms
  proof (induction ops arbitrary: s B)
    case (Cons op ops)
    then have ok: "sc_op_ok op" "list_all (\<lambda>b. b + 2 ^ 20 < 2 ^ 63) B" "list_all (\<lambda>b. b < 2 ^ 63) (sc_bound op B)"
      "sc_bounds ops (sc_bound op B) = Some B'" by (simp_all split: if_splits)
    note st = sc_step_sound [OF Cons.prems(1,2) ok(1-3)]
    have "sc_val (sc_int op (map sint s)) mod order_l = sc_val (map sint s) mod order_l"
      using Cons.prems(1) ok(1) by (intro sc_val_int(1)) simp_all
    with Cons.IH [of "sc_step op s", OF _ st(2) ok(4)] Cons.prems(1) show ?case by (simp add: st(1))
  qed simp
  then show "map sint (fold sc_step ops s) = fold sc_int ops (map sint s)" "within B' (fold sc_int ops (map sint s))"
    "sc_val (fold sc_int ops (map sint s)) mod order_l = sc_val (map sint s) mod order_l" by blast+
qed

subsection \<open>The last reduction\<close>

text \<open>Carries rounded down leave digits of 21 bits.\<close>

lemma sc_floors:
  assumes "length s = 24" "n < 24"
  defines "t \<equiv> fold sc_int (map Floor [0..<n]) s"
  shows "sc_val t = sc_val s" "\<And>j. j < n \<Longrightarrow> 0 \<le> t ! j \<and> t ! j < 2 ^ 21" "\<And>j. n < j \<Longrightarrow> j < 24 \<Longrightarrow> t ! j = s ! j"
proof -
  have "sc_val t = sc_val s \<and> (\<forall>j < n. 0 \<le> t ! j \<and> t ! j < 2 ^ 21) \<and> (\<forall>j. n < j \<and> j < 24 \<longrightarrow> t ! j = s ! j)"
    using assms(2) unfolding t_def
  proof (induction n)
    case (Suc n)
    let ?u = "fold sc_int (map Floor [0..<n]) s"
    have IH: "sc_val ?u = sc_val s" "\<forall>j < n. 0 \<le> ?u ! j \<and> ?u ! j < 2 ^ 21" "\<forall>j. n < j \<and> j < 24 \<longrightarrow> ?u ! j = s ! j"
      using Suc by auto
    have l: "length ?u = 24" using assms(1) by simp
    have "sc_val (sc_int (Floor n) ?u) = sc_val ?u" using l Suc.prems by (intro sc_val_int(2)) simp_all
    with IH l Suc.prems show ?case by (auto simp: Let_def nth_list_update less_Suc_eq)
  qed simp
  then show "sc_val t = sc_val s" "\<And>j. j < n \<Longrightarrow> 0 \<le> t ! j \<and> t ! j < 2 ^ 21" "\<And>j. n < j \<Longrightarrow> j < 24 \<Longrightarrow> t ! j = s ! j"
    by blast+
qed

lemma sc_val_digits:
  assumes "\<And>x. x \<in> set xs \<Longrightarrow> 0 \<le> x \<and> x < 2 ^ 21"
  shows "0 \<le> sc_val xs" "sc_val xs < 2 ^ (21 * length xs)"
proof -
  have "0 \<le> sc_val xs \<and> sc_val xs < 2 ^ (21 * length xs)" using assms
  proof (induction xs)
    case (Cons x xs)
    then have "0 \<le> x" "x < 2 ^ 21" "0 \<le> sc_val xs" "sc_val xs + 1 \<le> 2 ^ (21 * length xs)" by auto
    moreover from this have "2 ^ 21 * (sc_val xs + 1) \<le> 2 ^ 21 * 2 ^ (21 * length xs)" by (intro mult_left_mono) auto
    ultimately show ?case by (simp add: power_add)
  qed simp
  then show "0 \<le> sc_val xs" "sc_val xs < 2 ^ (21 * length xs)" by blast+
qed

lemma sc_val_append: "sc_val (xs @ ys) = sc_val xs + 2 ^ (21 * length xs) * sc_val ys"
  by (induction xs) (simp_all add: power_add distrib_left)

lemma sc_val_zeros: "(\<And>x. x \<in> set xs \<Longrightarrow> x = 0) \<Longrightarrow> sc_val xs = 0"
  by (induction xs) simp_all

lemma within_sc_val: "within B h \<Longrightarrow> \<bar>sc_val h\<bar> \<le> sc_val B"
proof (induction B arbitrary: h)
  case (Cons b B)
  then obtain x xs where h: "h = x # xs" "\<bar>x\<bar> \<le> b" "within B xs" by (auto simp: within_def list_all2_Cons1)
  then have "\<bar>2 ^ 21 * sc_val xs\<bar> \<le> 2 ^ 21 * sc_val B" using Cons.IH [of xs] by (simp add: abs_mult)
  with h show ?case by (simp add: abs_add_le)
qed (simp add: within_def)

lemma sc_val_split:
  assumes "length s = 24" "n < 24" "\<And>j. j < n \<Longrightarrow> 0 \<le> s ! j \<and> s ! j < 2 ^ 21" "\<And>j. n < j \<Longrightarrow> j < 24 \<Longrightarrow> s ! j = 0"
  shows "\<exists>low. sc_val s = low + 2 ^ (21 * n) * s ! n \<and> 0 \<le> low \<and> low < 2 ^ (21 * n)"
proof -
  have "s = take n s @ s ! n # drop (Suc n) s" using assms(1,2) by (simp add: id_take_nth_drop)
  then have "sc_val s = sc_val (take n s) + 2 ^ (21 * n) * (s ! n + 2 ^ 21 * sc_val (drop (Suc n) s))"
    using assms(1,2) sc_val_append [of "take n s" "s ! n # drop (Suc n) s"] by simp
  moreover have "sc_val (drop (Suc n) s) = 0"
    using assms(1,4) by (intro sc_val_zeros) (auto simp: in_set_conv_nth)
  moreover have "0 \<le> x \<and> x < 2 ^ 21" if "x \<in> set (take n s)" for x
    using that assms(1-3) by (auto simp: in_set_conv_nth)
  from sc_val_digits [of "take n s", OF this] have "0 \<le> sc_val (take n s)" "sc_val (take n s) < 2 ^ (21 * n)"
    using assms(1,2) by simp_all
  ultimately show ?thesis by (intro exI [of _ "sc_val (take n s)"]) simp
qed

lemma sc_last_reduction:
  assumes "length s = 24" "within B s" "sc_val B < 2 ^ 252" "\<And>j. 12 \<le> j \<Longrightarrow> j < 24 \<Longrightarrow> B ! j = 0"
  defines "w \<equiv> fold sc_int (map Floor [0..<12] @ [Fold 12] @ map Floor [0..<11]) s"
  shows "sc_val w = sc_val s mod order_l" "\<And>j. j < 11 \<Longrightarrow> 0 \<le> w ! j \<and> w ! j < 2 ^ 21" "0 \<le> w ! 11 \<and> w ! 11 < 2 ^ 22"
    "\<And>j. 12 \<le> j \<Longrightarrow> j < 24 \<Longrightarrow> w ! j = 0"
proof -
  let ?V = "sc_val s"
  define t where "t = fold sc_int (map Floor [0..<12]) s"
  define u where "u = sc_int (Fold 12) t"
  have w: "w = fold sc_int (map Floor [0..<11]) u" by (simp add: w_def u_def t_def)
  have z: "s ! j = 0" if "12 \<le> j" "j < 24" for j
    using within_nth [OF assms(2), of j] assms(1) assms(4) [OF that] that by simp
  note t = sc_floors [OF assms(1), of 12, folded t_def, simplified]
  have lt: "length t = 24" "length u = 24" using assms(1) by (simp_all add: t_def u_def)
  obtain low where low: "?V = low + 2 ^ 252 * t ! 12" "0 \<le> low" "low < 2 ^ 252"
    using sc_val_split [of t 12] lt t z by auto
  have "\<bar>?V\<bar> < 2 ^ 252" using within_sc_val [OF assms(2)] assms(3) by linarith
  then have c: "t ! 12 = 0 \<or> t ! 12 = - 1" using low by (auto simp: abs_less_iff)
  have u: "sc_val u = ?V + order_l * - (t ! 12)"
    using sc_val_fold [OF lt(1), of 12] t(1) by (simp add: u_def)
  have L: "0 < order_l" "2 ^ 252 < order_l" "order_l < 2 ^ 253" by (simp_all add: order_l_def)
  have ur: "0 \<le> sc_val u" "sc_val u < order_l" using c low u L by auto
  have uz: "u ! j = 0" if "12 \<le> j" "j < 24" for j
    using that lt t(3) [of j] z by (cases "j = 12") (simp_all add: u_def)
  note f = sc_floors [OF lt(2), of 11, folded w, simplified]
  show "sc_val w = ?V mod order_l"
    using f(1) u ur by (metis mod_mult_self2 mod_pos_pos_trivial)
  show "0 \<le> w ! j \<and> w ! j < 2 ^ 21" if "j < 11" for j using f(2) [OF that] by simp
  show wz: "w ! j = 0" if "12 \<le> j" "j < 24" for j using f(3) [of j] uz that by simp
  have "length w = 24" using lt by (simp add: w)
  then obtain low' where "sc_val w = low' + 2 ^ 231 * w ! 11" "0 \<le> low'" "low' < 2 ^ 231"
    using sc_val_split [of w 11] f wz by auto
  then show "0 \<le> w ! 11 \<and> w ! 11 < 2 ^ 22" using ur L(3) f(1) by simp
qed

subsection \<open>Loading and storing\<close>

lemma le_val_sc_store:
  assumes "\<And>i. i < 11 \<Longrightarrow> 0 \<le> sint (s ! i) \<and> sint (s ! i) < 2 ^ 21" "0 \<le> sint (s ! 11) \<and> sint (s ! 11) < 2 ^ 22"
  shows "le_val (sc_store s) = sc_val (map (\<lambda>i. sint (s ! i)) [0, 1, 2, 3, 4, 5, 6, 7, 8, 9, 10, 11])"
proof -
  have o: "uint (ucast (signed_drop_bit n (s ! i) OR push_bit k (s ! j)) :: u8) =
      sint (s ! i) div 2 ^ n + 2 ^ k * (sint (s ! j) mod 2 ^ m)"
    if "i < 11" "n + k = 21" "k + m = 8" for i n k m j
  proof -
    have "sint (s ! i) div 2 ^ n < 2 ^ k" using assms(1) [OF that(1)] that(2) by (intro div_power_less) simp
    moreover have e: "8 - k = m" "k \<le> 8" using that(3) by simp_all
    ultimately show ?thesis
      using byte_or [of "s ! i" n k "s ! j"] assms(1) [OF that(1)] unfolding e(1) by simp
  qed
  have os: "uint (ucast (signed_drop_bit 16 (s ! 0) OR push_bit 5 (s ! 1)) :: u8) =
      sint (s ! 0) div 2 ^ 16 + 2 ^ 5 * (sint (s ! 1) mod 2 ^ 3)"
    "uint (ucast (signed_drop_bit 19 (s ! 1) OR push_bit 2 (s ! 2)) :: u8) =
      sint (s ! 1) div 2 ^ 19 + 2 ^ 2 * (sint (s ! 2) mod 2 ^ 6)"
    "uint (ucast (signed_drop_bit 14 (s ! 2) OR push_bit 7 (s ! 3)) :: u8) =
      sint (s ! 2) div 2 ^ 14 + 2 ^ 7 * (sint (s ! 3) mod 2 ^ 1)"
    "uint (ucast (signed_drop_bit 17 (s ! 3) OR push_bit 4 (s ! 4)) :: u8) =
      sint (s ! 3) div 2 ^ 17 + 2 ^ 4 * (sint (s ! 4) mod 2 ^ 4)"
    "uint (ucast (signed_drop_bit 20 (s ! 4) OR push_bit 1 (s ! 5)) :: u8) =
      sint (s ! 4) div 2 ^ 20 + 2 ^ 1 * (sint (s ! 5) mod 2 ^ 7)"
    "uint (ucast (signed_drop_bit 15 (s ! 5) OR push_bit 6 (s ! 6)) :: u8) =
      sint (s ! 5) div 2 ^ 15 + 2 ^ 6 * (sint (s ! 6) mod 2 ^ 2)"
    "uint (ucast (signed_drop_bit 18 (s ! 6) OR push_bit 3 (s ! 7)) :: u8) =
      sint (s ! 6) div 2 ^ 18 + 2 ^ 3 * (sint (s ! 7) mod 2 ^ 5)"
    "uint (ucast (signed_drop_bit 16 (s ! 8) OR push_bit 5 (s ! 9)) :: u8) =
      sint (s ! 8) div 2 ^ 16 + 2 ^ 5 * (sint (s ! 9) mod 2 ^ 3)"
    "uint (ucast (signed_drop_bit 19 (s ! 9) OR push_bit 2 (s ! 10)) :: u8) =
      sint (s ! 9) div 2 ^ 19 + 2 ^ 2 * (sint (s ! 10) mod 2 ^ 6)"
    "uint (ucast (signed_drop_bit 14 (s ! 10) OR push_bit 7 (s ! 11)) :: u8) =
      sint (s ! 10) div 2 ^ 14 + 2 ^ 7 * (sint (s ! 11) mod 2 ^ 1)"
    by (rule o; simp)+
  have top: "sint (s ! 7) div 2 ^ 13 mod 256 = sint (s ! 7) div 2 ^ 13" "sint (s ! 11) div 2 ^ 17 mod 256 = sint (s ! 11) div 2 ^ 17"
    using assms(1) [of 7] assms(2) div_power_less [of "sint (s ! 7)" 13 8] div_power_less [of "sint (s ! 11)" 17 5]
    by (simp_all add: pos_imp_zdiv_nonneg_iff)
  have drop: "uint (ucast (signed_drop_bit n (s ! i)) :: u8) = sint (s ! i) div 2 ^ n mod 256" for n i
    by (rule byte_drop) simp
  have low: "uint (ucast (s ! 0) :: u8) = sint (s ! 0) mod 2 ^ 8" "uint (ucast (s ! 8) :: u8) = sint (s ! 8) mod 2 ^ 8"
    by (simp_all add: uint_byte)
  let ?x = "\<lambda>i a b c. sint (s ! i) mod 2 ^ a + 2 ^ a * (sint (s ! i) div 2 ^ a mod 256) +
    2 ^ b * (sint (s ! i) div 2 ^ b mod 256) + 2 ^ c * (sint (s ! i) div 2 ^ c)"
  let ?y = "\<lambda>i a b. sint (s ! i) mod 2 ^ a + 2 ^ a * (sint (s ! i) div 2 ^ a mod 256) + 2 ^ b * (sint (s ! i) div 2 ^ b)"
  have "le_val (sc_store s) = sc_val [?y 0 8 16, ?x 1 3 11 19, ?y 2 6 14, ?x 3 1 9 17, ?x 4 4 12 20, ?y 5 7 15, ?x 6 2 10 18, ?y 7 5 13, ?y 8 8 16, ?x 9 3 11 19, ?y 10 6 14, ?x 11 1 9 17]"
    unfolding sc_store_def le_val.simps os drop low sc_val.simps top by algebra
  also have "\<dots> = sc_val (map (\<lambda>i. sint (s ! i)) [0, 1, 2, 3, 4, 5, 6, 7, 8, 9, 10, 11])"
    by (simp only: limb_sum [of 11 3 19] limb_sum [of 9 1 17] limb_sum [of 12 4 20] limb_sum [of 10 2 18] limb_sum2 [of 16 8]
      limb_sum2 [of 14 6] limb_sum2 [of 15 7] limb_sum2 [of 13 5] list.map)
  finally show ?thesis .
qed

lemma length_sc_store: "length (sc_store s) = 32"
  by (simp add: sc_store_def)

lemma and_21: "2097151 AND (w :: u64) = take_bit 21 w"
  by (simp add: take_bit_eq_mask mask_eq_exp_minus_1 and.commute)

lemma uint_drop: "uint (drop_bit k w) = drop_bit k (uint (w :: u64))"
  using uint_lt2p [of w] by (simp add: unsigned_drop_bit_eq take_bit_int_eq_self)

lemma sint_limb:
  assumes "uint (w :: u64) = take_bit n (le_val (drop m s))" "k + 21 \<le> n"
  shows "sint (2097151 AND drop_bit k w) = take_bit 21 (drop_bit (8 * m + k) (le_val s))"
proof -
  have "uint (2097151 AND drop_bit k w) = take_bit 21 (drop_bit k (take_bit n (drop_bit (8 * m) (le_val s))))"
    by (simp add: and_21 unsigned_take_bit_eq uint_drop assms(1) le_val_drop)
  also have "\<dots> = take_bit 21 (drop_bit (8 * m + k) (le_val s))"
    using assms(2) by (simp add: drop_bit_take_bit min_absorb1 le_diff_conv2 add.commute)
  finally have e: "uint (2097151 AND drop_bit k w) = take_bit 21 (drop_bit (8 * m + k) (le_val s))" .
  moreover have "take_bit 21 (drop_bit (8 * m + k) (le_val s)) < 2 ^ 21" by (rule take_bit_range)
  ultimately show ?thesis by (intro trans [OF sint_small e]) simp
qed

lemma sint_last_limb:
  assumes "uint (w :: u64) = take_bit 32 (le_val (drop m s))" "length s \<le> m + 4" "k \<le> 32"
  shows "sint (drop_bit k w) = drop_bit (8 * m + k) (le_val s)" "drop_bit (8 * m + k) (le_val s) < 2 ^ (32 - k)"
proof -
  have "le_val (drop m s) < 256 ^ length (drop m s)" by (rule le_val_range)
  also have "(256 :: int) ^ length (drop m s) \<le> 256 ^ 4" using assms(2) by (intro power_increasing) simp_all
  finally have b: "le_val (drop m s) < 2 ^ 32" by simp
  then have "uint (drop_bit k w) = drop_bit k (le_val (drop m s))"
    using le_val_range(1) [of "drop m s"] by (simp add: uint_drop assms(1) take_bit_int_eq_self)
  then have e: "uint (drop_bit k w) = drop_bit (8 * m + k) (le_val s)" by (simp add: le_val_drop add.commute)
  have "drop_bit k (le_val (drop m s)) < 2 ^ (32 - k)"
    using b assms(3) div_power_less [of "le_val (drop m s)" k "32 - k"] by (simp add: drop_bit_eq_div)
  then show b': "drop_bit (8 * m + k) (le_val s) < 2 ^ (32 - k)" by (simp add: le_val_drop add.commute)
  have "(2 :: int) ^ (32 - k) \<le> 2 ^ 32" by (intro power_increasing) simp_all
  then show "sint (drop_bit k w) = drop_bit (8 * m + k) (le_val s)"
    using b' by (intro trans [OF sint_small e]) (simp add: e)
qed

text \<open>The digits of a number in base \<open>2^21\<close>.\<close>

definition sc_digits :: "nat \<Rightarrow> int \<Rightarrow> int list" where
  "sc_digits n V = map (\<lambda>i. take_bit 21 (drop_bit (21 * i) V)) [0..<n] @ [drop_bit (21 * n) V]"

lemma sc_val_digit_list: "sc_val (sc_digits n V) = V"
proof -
  have "sc_val (map (\<lambda>i. take_bit 21 (drop_bit (21 * i) V)) [0..<n]) = take_bit (21 * n) V"
  proof (induction n)
    case (Suc n)
    then show ?case using take_bit_split [of "21 * n" 21 V] by (simp add: sc_val_append add.commute)
  qed simp
  then show ?thesis
    by (simp add: sc_digits_def sc_val_append take_bit_eq_mod drop_bit_eq_div)
qed

lemma within_digits:
  assumes "0 \<le> V" "drop_bit (21 * n) V < b"
  shows "within (replicate n (2 ^ 21) @ [b]) (sc_digits n V)"
  using assms unfolding within_def sc_digits_def list_all2_conv_all_nth
  by (auto simp: nth_append less_imp_le order_less_imp_le [OF take_bit_range(2), of 21, simplified])

lemma sint_limb_3:
  "3 \<le> length s \<Longrightarrow> sint (2097151 AND load_3 s) = take_bit 21 (le_val s)"
  "m + 3 \<le> length s \<Longrightarrow> sint (2097151 AND load_3 (drop m s)) = take_bit 21 (drop_bit (8 * m) (le_val s))"
  "m + 3 \<le> length s \<Longrightarrow> k \<le> 3 \<Longrightarrow>
    sint (2097151 AND drop_bit k (load_3 (drop m s))) = take_bit 21 (drop_bit (8 * m + k) (le_val s))"
  using sint_limb [OF load_3, of 0 s 0] sint_limb [OF load_3, of m s 0] sint_limb [OF load_3, of m s k] by simp_all

lemma sint_limb_4:
  "m + 4 \<le> length s \<Longrightarrow> k \<le> 11 \<Longrightarrow>
    sint (2097151 AND drop_bit k (load_4 (drop m s))) = take_bit 21 (drop_bit (8 * m + k) (le_val s))"
  using sint_limb [OF load_4, of m s k] by simp

lemma sc_load64_digits:
  assumes "length s = 64"
  shows "map sint (sc_load64 s) = sc_digits 23 (le_val s)" "within (replicate 23 (2 ^ 21) @ [2 ^ 29]) (map sint (sc_load64 s))"
proof -
  note t = sint_last_limb [OF load_4, of 60 s 3]
  show e: "map sint (sc_load64 s) = sc_digits 23 (le_val s)"
    using assms t(1) by (simp add: sc_load64_def sc_digits_def upt_rec [of _ "numeral _"] sint_limb_3 sint_limb_4 le_val_drop)
  show "within (replicate 23 (2 ^ 21) @ [2 ^ 29]) (map sint (sc_load64 s))"
    unfolding e using t(2) assms by (intro within_digits le_val_range) simp_all
qed

lemma sc_load32_digits:
  assumes "length s = 32"
  shows "map sint (sc_load32 s) = sc_digits 11 (le_val s)" "within (replicate 11 (2 ^ 21) @ [2 ^ 25]) (map sint (sc_load32 s))"
proof -
  note t = sint_last_limb [OF load_4, of 28 s 7]
  show e: "map sint (sc_load32 s) = sc_digits 11 (le_val s)"
    using assms t(1) by (simp add: sc_load32_def sc_digits_def upt_rec [of _ "numeral _"] sint_limb_3 sint_limb_4 le_val_drop)
  show "within (replicate 11 (2 ^ 21) @ [2 ^ 25]) (map sint (sc_load32 s))"
    unfolding e using t(2) assms by (intro within_digits le_val_range) simp_all
qed

subsection \<open>Products\<close>

lemma length_sc_products [simp]: "length (sc_products a b c) = 24"
  by (simp add: sc_products_def)

lemma within_sc_products:
  assumes "within A a" "within B b" "within C c" "length a = 12" "length b = 12" "length c = 12"
  shows "within (sc_products A B C) (sc_products a b c)"
proof -
  have a: "\<bar>a ! i\<bar> \<le> A ! i" if "i < 12" for i using within_nth [OF assms(1)] that assms(4) by simp
  have b: "\<bar>b ! i\<bar> \<le> B ! i" if "i < 12" for i using within_nth [OF assms(2)] that assms(5) by simp
  have c: "\<bar>c ! i\<bar> \<le> C ! i" if "i < 12" for i using within_nth [OF assms(3)] that assms(6) by simp
  show ?thesis
    unfolding sc_products_def within_def list_all2_Cons list_all2_Nil
    by (intro conjI TrueI abs_add_le abs_mult_le a b c) simp_all
qed

lemma sc_val_products:
  assumes "length a = 12" "length b = 12" "length c = 12"
  shows "sc_val (sc_products a b c) = sc_val a * sc_val b + sc_val c"
proof -
  have e: "sc_val x = sc_val [x ! 0, x ! 1, x ! 2, x ! 3, x ! 4, x ! 5, x ! 6, x ! 7, x ! 8, x ! 9, x ! 10, x ! 11]"
    if "length x = 12" for x
    using that by (intro arg_cong [where f = sc_val] nth_equalityI) (auto simp: less_Suc_eq numeral_eq_Suc)
  show ?thesis
    unfolding e [OF assms(1)] e [OF assms(2)] e [OF assms(3)] sc_products_def sc_val.simps by algebra
qed

subsection \<open>Reduction without overflow\<close>

text \<open>No step overflows, and the bounds before the last reduction.\<close>

definition sc_fits :: "sc_op list \<Rightarrow> int list \<Rightarrow> bool" where
  "sc_fits ops B0 =
     (case sc_bounds (ops @ sc_head) B0 of
        None \<Rightarrow> False
      | Some B \<Rightarrow> sc_bounds sc_tail B \<noteq> None \<and> sc_val B < 2 ^ 252 \<and> length B = 24 \<and> list_all (\<lambda>b. b = 0) (drop 12 B))"

lemma sc_reduced:
  assumes "length s = 24" "within B0 (map sint s)" "sc_fits ops B0"
  shows "le_val (sc_store (fold sc_step (ops @ sc_mod_l) s)) = sc_val (map sint s) mod order_l"
proof -
  obtain B B' where B: "sc_bounds (ops @ sc_head) B0 = Some B" "sc_bounds sc_tail B = Some B'" "sc_val B < 2 ^ 252"
      "length B = 24" "list_all (\<lambda>b. b = 0) (drop 12 B)"
    using assms(3) by (auto simp: sc_fits_def split: option.splits)
  define t where "t = fold sc_step (ops @ sc_head) s"
  define w where "w = fold sc_step sc_tail t"
  have l: "length t = 24" "length w = 24" using assms(1) by (simp_all add: t_def w_def)
  have w: "fold sc_step (ops @ sc_mod_l) s = w"
    by (simp add: w_def t_def sc_mod_l_def)
  note t = sc_steps_sound [OF assms(1,2) B(1), folded t_def]
  have wt: "within B (map sint t)" using t(1,2) by simp
  have ws: "map sint w = fold sc_int sc_tail (map sint t)"
    unfolding w_def using sc_steps_sound(1) [OF l(1) wt B(2)] .
  have z: "B ! j = 0" if "12 \<le> j" "j < 24" for j
    using list_all_nth [OF B(5), of "j - 12"] B(4) that by simp
  have "length (map sint t) = 24" using l by simp
  note r = sc_last_reduction [OF this wt B(3) z, folded sc_tail_def ws]
  have d: "map (\<lambda>i. sint (w ! i)) [0, 1, 2, 3, 4, 5, 6, 7, 8, 9, 10, 11] = take 12 (map sint w)"
    using l(2) by (intro nth_equalityI) (auto simp: less_Suc_eq numeral_eq_Suc)
  have "sc_val (drop 12 (map sint w)) = 0"
    using r(4) l(2) by (intro sc_val_zeros) (auto simp: in_set_conv_nth)
  then have "sc_val (map sint w) = sc_val (take 12 (map sint w))"
    using sc_val_append [of "take 12 (map sint w)" "drop 12 (map sint w)"] by simp
  moreover have "le_val (sc_store w) = sc_val (take 12 (map sint w))"
    unfolding d [symmetric] using r(2,3) l(2) by (intro le_val_sc_store) simp_all
  ultimately show ?thesis unfolding w using r(1) t(1,3) by simp
qed

lemma sc_reduce_fits: "sc_fits [] (replicate 23 (2 ^ 21) @ [2 ^ 29])"
  by code_simp

definition sc_products_max :: "int list" where
  "sc_products_max = (let b = replicate 11 (2 ^ 21) @ [2 ^ 25] in sc_products b b b)"

lemma sc_muladd_fits: "sc_fits sc_carry_all sc_products_max" "list_all (\<lambda>b. b < 2 ^ 63) sc_products_max"
  by code_simp+

lemma sint_products:
  assumes "length a = 12" "length b = 12" "length c = 12"
    and "within (replicate 11 (2 ^ 21) @ [2 ^ 25]) (map sint a)" "within (replicate 11 (2 ^ 21) @ [2 ^ 25]) (map sint b)"
      "within (replicate 11 (2 ^ 21) @ [2 ^ 25]) (map sint c)"
  shows "map sint (sc_products a b c :: u64 list) = sc_products (map sint a) (map sint b) (map sint c)"
    "within sc_products_max (map sint (sc_products a b c))"
proof -
  let ?p = "sc_products (map sint a) (map sint b) (map sint c)"
  have b: "within sc_products_max ?p"
    unfolding sc_products_max_def Let_def using assms by (intro within_sc_products) simp_all
  have lt: "\<bar>?p ! k\<bar> < 2 ^ 63" if "k < 24" for k
    by (rule within_64 [OF b sc_muladd_fits(2)]) (simp_all add: that)
  have w: "sc_products a b c = map of_int ?p"
    using assms(1-3) by (simp add: sc_products_def)
  show e: "map sint (sc_products a b c) = ?p"
    unfolding w using lt by (intro nth_equalityI) (simp_all add: sint_64)
  show "within sc_products_max (map sint (sc_products a b c))" unfolding e by (rule b)
qed

subsection \<open>The two operations\<close>

lemma sc_reduce_value:
  assumes "length s = 64"
  shows "le_val (take 32 (sc_reduce s)) = le_val s mod order_l" "length (sc_reduce s) = 64" "drop 32 (sc_reduce s) = drop 32 s"
proof -
  note d = sc_load64_digits [OF assms]
  have "length (sc_load64 s) = 24" by (simp add: sc_load64_def)
  from sc_reduced [OF this d(2) sc_reduce_fits]
  show "le_val (take 32 (sc_reduce s)) = le_val s mod order_l"
    by (simp add: sc_reduce_def length_sc_store d(1) sc_val_digit_list)
  show "length (sc_reduce s) = 64" "drop 32 (sc_reduce s) = drop 32 s"
    using assms by (simp_all add: sc_reduce_def length_sc_store)
qed

lemma sc_muladd_value:
  assumes "length a = 32" "length b = 32" "length c = 32"
  shows "le_val (sc_muladd a b c) = (le_val a * le_val b + le_val c) mod order_l" "length (sc_muladd a b c) = 32"
proof -
  note d = sc_load32_digits [OF assms(1)] sc_load32_digits [OF assms(2)] sc_load32_digits [OF assms(3)]
  have l: "length (sc_load32 s) = 12" for s by (simp add: sc_load32_def)
  note p = sint_products [OF l l l d(2,4,6)]
  have "length (sc_products (sc_load32 a) (sc_load32 b) (sc_load32 c)) = 24" by simp
  from sc_reduced [OF this p(2) sc_muladd_fits(1)]
  show "le_val (sc_muladd a b c) = (le_val a * le_val b + le_val c) mod order_l"
    unfolding sc_muladd_def p(1) by (simp add: sc_val_products l) (simp add: d sc_val_digit_list)
  show "length (sc_muladd a b c) = 32" by (simp add: sc_muladd_def length_sc_store)
qed

subsection \<open>Properties\<close>

text \<open>C40: \<open>sc_reduce\<close> replaces the first 32 of 64 bytes by the canonical encoding of the whole number modulo the order of
  the base point.\<close>

theorem sc_reduce_exact:
  assumes "length s = 64"
  shows "le_val (take 32 (sc_reduce s)) = le_val s mod order_l \<and> drop 32 (sc_reduce s) = drop 32 s"
  using sc_reduce_value [OF assms] by simp

text \<open>The largest input.\<close>

theorem sc_reduce_exact_witness:
  "length (replicate 64 (255 :: u8)) = 64 \<and> le_val (take 32 (sc_reduce (replicate 64 255))) = (2 ^ 512 - 1) mod order_l"
proof -
  have "le_val (replicate 64 255) = 2 ^ 512 - 1" by code_simp
  then show ?thesis using sc_reduce_exact [of "replicate 64 255"] by simp
qed

text \<open>C8: \<open>sc_muladd\<close> gives the canonical encoding of \<open>a b + c\<close> modulo the order of the base point, for all inputs of 32 bytes.\<close>

theorem sc_muladd_exact:
  assumes "length a = 32" "length b = 32" "length c = 32"
  shows "le_val (sc_muladd a b c) = (le_val a * le_val b + le_val c) mod order_l \<and> length (sc_muladd a b c) = 32"
  using sc_muladd_value [OF assms] by simp

text \<open>The largest inputs.\<close>

theorem sc_muladd_exact_witness:
  "let x = replicate 32 (255 :: u8) in length x = 32 \<and> le_val (sc_muladd x x x) = ((2 ^ 256 - 1) * (2 ^ 256 - 1) + (2 ^ 256 - 1)) mod order_l"
proof -
  have "le_val (replicate 32 255) = 2 ^ 256 - 1" by code_simp
  then show ?thesis using sc_muladd_exact [of "replicate 32 255" "replicate 32 255" "replicate 32 255"] by (simp add: Let_def)
qed

end
