(* ===== verification/Spec2Isabelle.thy ===== *)
theory Spec2Isabelle
  imports Amount OrderedMap IntegralEncDec TransactionSig Blockchain NodeRounds Contracts Sc
begin

text \<open>
  A verification library of the node of the Credits block chain (CS-Node).

  \<^bold>\<open>The program.\<close>  A node keeps a chain of blocks (\<open>csdb\<close>), talks to other nodes in packets (\<open>net\<close>), takes part in
  rounds in which one node is the main node and some are its confidants (\<open>csnode\<close>), and answers the requests of
  wallets (\<open>api\<close>).  Blocks and transactions are hashed with BLAKE2s or BLAKE2sp (\<open>blake2\<close>, \<open>crypto\<close>).  A wallet sends
  a transaction through \<open>APIHandler::TransactionFlow\<close> to the solver, a library without sources, which gives it to the
  node; the node sends it in packets; the writer of a round puts the collected transactions into a block, hands it to
  \<open>BlockChain::writeLastBlock\<close>, and the storage writes it in its own thread into a Berkeley DB table, from where
  wallets, statistics and the requests read it again.

  \<^bold>\<open>How the code is modelled.\<close>  A class is a record, its methods are functions from a state to a result and a new
  state; a method that can fail returns an option or the value the code returns.  Machine integers are words of
  their width.  A loop whose end depends on data is a \<open>partial_function (option)\<close>, and the theorems show that it
  returns; no definition uses fuel.  A \<open>std::map\<close> is a list of pairs sorted by the order of the class, with the laws of a map proved
  once in \<open>OrderedMap\<close> (locale \<open>key_order\<close>) for every key type.  Memory that the code does not initialise, the clock and
  everything that is not in the sources (libsodium, LZ4, the tables of Berkeley DB, the sockets of boost, the code
  made by thrift, the executor of contracts, the solver) is an argument.  What a part calls of the solver or of the
  socket is a list of values.  The memory a message is read from is a total function from addresses to bytes; what a
  reader takes from outside the message is stated by the theorems.  Assertions, which can only stop a debug build,
  are left out.  The times of the tasks are 64-bit counts of nanoseconds.

  \<^bold>\<open>Numbers and bytes.\<close>
  \<^item> \<open>Prelude\<close>: types of words and bytes, the collections of simplification rules, lemmas on lists and words.
  \<^item> \<open>Math128\<close> (\<open>math128ce.h\<close>) and \<open>Amount\<close> (\<open>amount.h\<close>): the 128-bit product and quotient are exact for all
    arguments; sums, differences and negation of amounts are exact, products are rounded towards zero; \<open>operator +=\<close>
    loses the carry.
  \<^item> \<open>Streams\<close> (\<open>binary_streams.h\<close>), \<open>IntegralEncDec\<close> (\<open>integral_encdec.cpp\<close>, \<open>endian.h\<close>), \<open>Utils\<close> (\<open>utils.h\<close>): what was written is
    read back, whatever follows, and no read passes the end.
  \<^item> \<open>Blake2s\<close> and \<open>Blake2sp\<close> (\<open>blake2s-ref.c\<close>, \<open>blake2sp-ref.c\<close>): the buffered functions compute the hash of the
    concatenated input, however it is cut; \<open>Crypto\<close> (\<open>cscrypto.cpp\<close>, \<open>cscrypto.h\<close>, \<open>priv_crypto.cpp\<close>): hashes, addresses and their
    text.
  \<^item> \<open>SignedWords\<close>, \<open>Fe\<close> and \<open>FeBytes\<close> (\<open>fe.c\<close> of \<open>ed25519\<close>): field elements of ten signed limbs.  Products and squares of limbs as
    large as the comments allow are exact modulo 2^255 - 19 and no 64-bit word overflows; the encoding is the canonical one.
    \<open>Sc\<close> (\<open>sc.c\<close>): reduction and multiply-add of scalars give the canonical encoding modulo the order of the base point.

  \<^bold>\<open>Transactions and blocks.\<close>
  \<^item> \<open>Values\<close> (\<open>user_field.cpp\<close>, \<open>address.cpp\<close>, \<open>currency.cpp\<close>, \<open>amount.cpp\<close>), \<open>Transaction\<close> and \<open>TransactionSig\<close>
    (\<open>transaction.cpp\<close>), \<open>Pool\<close> (\<open>pool.cpp\<close>): inductive sets of the objects the program can make, their invariants, the round
    trips through bytes, that sealed objects do not change, and what a signature binds.

  \<^bold>\<open>The chain.\<close>
  \<^item> \<open>Database\<close> (\<open>database.h\<close>, \<open>database_berkeleydb.cpp\<close>): the virtual interface is a record of functions, its contract the locale
    that the driver interprets.
  \<^item> \<open>Storage\<close>, \<open>StorageWrite\<close> (\<open>storage.cpp\<close>): searches over a chain, the queue and the rounds of the writer thread, scanning and
    opening; a saved block is written by the next round and loaded afterwards, and what happens if the data base refuses it.
  \<^item> \<open>Wallet\<close> (\<open>wallet.cpp\<close>), \<open>Blockchain\<close> (\<open>Blockchain.cpp\<close>): balances as sums over the chain, the cache of balances against
    the definition without one, and two blocks handed in at once.

  \<^bold>\<open>The network.\<close>
  \<^item> \<open>KeyRings\<close>, \<open>Collector\<close>, \<open>Tasks\<close> (\<open>Structures.hpp\<close>), \<open>Packets\<close> (\<open>Packet.hpp\<close>), \<open>Packstream\<close> (\<open>Packstream.hpp\<close>), \<open>Commands\<close> and
    \<open>Session\<close> (\<open>SessionIO.cpp\<close>): reference counts, tables of known packets, the schedule of repeated messages, reading and writing
    messages.
  \<^item> \<open>Delivery\<close>: a message that is broadcast in several packets reaches the node of the receiver once and with the bytes written.
  \<^item> \<open>Node\<close>, \<open>NodeRounds\<close> (\<open>Node.cpp\<close>): the handlers return for every message in the address space and read at most three
    bytes behind it; the level of a node follows from the round it told the solver of last, also after refused ring messages.

  \<^bold>\<open>The requests.\<close>
  \<^item> \<open>Stats\<close> (\<open>csstats.cpp\<close>), \<open>Api\<close>, \<open>ApiReads\<close> and \<open>Contracts\<close> (\<open>APIHandler.cpp\<close>): the answers as functions of the chain, the caches
    of pools and contracts against a scan of the whole chain, and what is sent for a request.

  \<^bold>\<open>This theory\<close> joins the node, the session and the packets: a round that one node announces is entered by another.

  \<^bold>\<open>Not modelled.\<close>  Input and output (sockets, event loop, files, log), thread interleavings inside one operation (the
  writer thread takes its turns between operations), the floating-point operators of amounts, the LevelDB driver, which the
  storage does not open by default, and with it the copies of LevelDB and Snappy; Thrift; the BLAKE2 functions that are not
  called; the group operations, SHA-512, keys and signatures of \<open>ed25519\<close>, above its field and its scalars; the solver, of which there is only a binary; bindings, tests and benchmarks.
\<close>

section \<open>The parts together\<close>

text \<open>C32: the round that a node announces is entered by the nodes that hear of it for the first time. The message of
  \<open>sendRoundTable\<close> is one packet; whatever the buffer held that the socket fills with it, the session of the
  receiver hands its twenty bytes to the node, and a node of an older round then has the number, the main node and
  the confidants of the announced round, the level that belongs to it there, and tells its solver.\<close>

theorem round_table_reaches:
  assumes "identity_ok (nd_net a)" "\<forall>i. packet_ok (ss_mem (nd_net a) (addr i))" "length (nd_confidantNodes a) = 3"
    and "q = receive_into old (take (headerLength + 20) (packet_bytes (ss_mem (nd_net (sendRoundTable now addr a)) (addr 0))))"
    and "packet_ok old" "cm_map (ss_backData (nd_net b)) (back_key q) = None" "nd_roundNum b < nd_roundNum a"
    and "read_mem mem ptr 20 = take 20 (pk_data q)"
  shows "\<exists>net b'. InputServiceHandleReceive False sender q (headerLength + 20) (nd_net b) =
      Some ([CallRoundTable (pk_data q) 20], net) \<and>
    getRoundTable mem ptr 20 uninit (b\<lparr>nd_net := net\<rparr>) = Some ([nextRound], b') \<and>
    round_of b' = round_of a \<and> nd_myLevel b' = level_in (nd_myId b) (nd_mainNode a) (nd_confidantNodes a)"
proof -
  note p = sendRoundTable_packet [OF assms(1-3), of now]
  obtain c2 c3 c4 where cs: "nd_confidantNodes a = [c2, c3, c4]"
    using assms(3) by (auto simp: numeral_3_eq_3 length_Suc_conv)
  let ?p = "ss_mem (nd_net (sendRoundTable now addr a)) (addr 0)"
  have q: "q = ?p\<lparr>pk_data := take 20 (pk_data ?p) @ drop 20 (pk_data old)\<rparr>"
    using receive_into_sent [OF p(1) assms(5), of 20] by (simp add: assms(4))
  then have "take 20 (pk_data q) = round_bytes a"
    using p(5) length_round_bytes [OF assms(3)] by simp
  with assms(8) have bytes: "read_mem mem ptr 20 = round_bytes a" by simp
  obtain net where "InputServiceHandleReceive False sender q (headerLength + 20) (nd_net b) =
      Some ([CallRoundTable (pk_data q) 20], net)"
    using receive_one_redirect [of q 20 "nd_net b" sender] p(2-4) assms(6) q by auto
  moreover obtain b' where "getRoundTable mem ptr 20 uninit (b\<lparr>nd_net := net\<rparr>) = Some ([nextRound], b')"
    "round_of b' = round_of a" "nd_myLevel b' = level_in (nd_myId b) (nd_mainNode a) (nd_confidantNodes a)"
    using getRoundTable_new [OF bytes cs, of "b\<lparr>nd_net := net\<rparr>" uninit] assms(7) by auto
  ultimately show ?thesis by blast
qed

definition sample_main :: node where
  "sample_main = sample_node\<lparr>nd_roundNum := 4, nd_mainNode := 1, nd_confidantNodes := [7, 8, 9]\<rparr>"

definition sample_received :: packet where
  "sample_received =
     receive_into sample_packet (take (headerLength + 20) (packet_bytes (ss_mem (nd_net (sendRoundTable 0 (\<lambda>i. i) sample_main)) 0)))"

theorem round_table_reaches_witness:
  "\<exists>net b'. InputServiceHandleReceive False 5 sample_received (headerLength + 20) (nd_net sample_node) =
      Some ([CallRoundTable (pk_data sample_received) 20], net) \<and>
    getRoundTable (\<lambda>i. pk_data sample_received ! unat i) 0 20 0 (sample_node\<lparr>nd_net := net\<rparr>) = Some ([nextRound], b') \<and>
    nd_roundNum b' = 4 \<and> nd_myLevel b' = Confidant"
proof -
  have a: "identity_ok (nd_net sample_main)" "\<forall>i. packet_ok (ss_mem (nd_net sample_main) i)"
    "length (nd_confidantNodes sample_main) = 3"
    using sample_facts(6,9) by (simp_all add: sample_main_def sample_node_def node_new_def sample_session_def)
  note p = sendRoundTable_packet [where addr = "\<lambda>i. i" and now = 0, OF a]
  have "length (pk_data sample_received) = max_length"
    using receive_into_sent [OF p(1) sample_facts(9), of 20] length_round_bytes [OF a(3)] by (simp add: sample_received_def p(5) sample_packet_def)
  then have mem: "read_mem (\<lambda>i. pk_data sample_received ! unat i) 0 20 = take 20 (pk_data sample_received)"
    by (intro nth_equalityI) (simp_all add: read_mem_def unat_of_nat)
  have "cm_map (ss_backData (nd_net sample_node)) (back_key sample_received) = None"
    by (simp add: sample_node_def node_new_def sample_session_def circular_map_new_def)
  moreover have "nd_roundNum sample_node < nd_roundNum sample_main" "nd_myId sample_node = 7"
    by (simp_all add: sample_main_def sample_node_def node_new_def)
  ultimately show ?thesis
    using round_table_reaches [where addr = "\<lambda>i. i" and now = 0, OF a sample_received_def sample_facts(9) _ _ mem, of sample_node 5 0]
    by (auto simp: sample_main_def level_in_def)
qed

end
